theory Spec2Isabelle
  imports Main "HOL-Library.Word" "HOL-Library.Multiset"
begin

unbundle bit_operations_syntax

section \<open>Error numbers\<close>

text \<open>
  The driver reports failures as positive \<open>errno\<close> values and success as 0. The values
  are those of Linux \<open>errno.h\<close>.
\<close>

type_synonym errno = int

definition EIO :: errno where "EIO = 5"
definition ENOMEM :: errno where "ENOMEM = 12"
definition EBUSY :: errno where "EBUSY = 16"
definition EINVAL :: errno where "EINVAL = 22"
definition EADDRINUSE :: errno where "EADDRINUSE = 98"
definition ENOBUFS :: errno where "ENOBUFS = 105"

section \<open>Data model\<close>

subsection \<open>Addresses, VLAN filters and flow specifications\<close>

text \<open>\<open>struct ether_addr\<close>: exactly \<open>ETHER_ADDR_LEN = 6\<close> bytes.\<close>

type_synonym ether_addr = "8 word \<times> 8 word \<times> 8 word \<times> 8 word \<times> 8 word \<times> 8 word"

definition broadcast :: ether_addr where
  "broadcast = (0xff, 0xff, 0xff, 0xff, 0xff, 0xff)"

text \<open>An entry of \<open>priv->vlan_filter[]\<close> (fields \<open>enabled\<close> and \<open>id\<close>).\<close>

record vlan_filter =
  enabled :: bool
  vlan_id :: "16 word"

text \<open>\<open>htons\<close> on a little-endian host: the two bytes are swapped.\<close>

definition htons :: "16 word \<Rightarrow> 16 word" where
  "htons x = push_bit 8 x OR drop_bit 8 x"

datatype ibv_flow_attr_type = IBV_FLOW_ATTR_NORMAL | IBV_EXP_FLOW_ATTR_MC_DEFAULT

datatype ibv_flow_spec_type =
  IBV_FLOW_SPEC_ETH | IBV_FLOW_SPEC_IPV4 | IBV_FLOW_SPEC_IPV6 | IBV_FLOW_SPEC_TCP | IBV_FLOW_SPEC_UDP

record ibv_flow_eth_filter =
  dst_mac :: ether_addr
  vlan_tag :: "16 word"

text \<open>
  A flow specification: its header type and the value and mask of the Ethernet filter.
  The specifications of \<open>hash_rxq_init[]\<close> carry only a header, everything else is zero.
\<close>

record ibv_flow_spec =
  spec_type :: ibv_flow_spec_type
  val :: ibv_flow_eth_filter
  mask :: ibv_flow_eth_filter

text \<open>
  \<open>struct ibv_exp_flow_attr\<close> followed in memory by its specifications (\<open>specs\<close>, in
  memory order).
\<close>

record ibv_flow_attr =
  attr_type :: ibv_flow_attr_type
  priority :: nat
  num_of_specs :: nat
  attr_port :: "8 word"
  flags :: "32 word"
  specs :: "ibv_flow_spec list"

subsection \<open>Hardware objects\<close>

text \<open>
  The types of hash RX queues, with \<open>HASH_RXQ_IPV6\<close> defined.
\<close>

datatype hash_rxq_type =
  HASH_RXQ_TCPv4 | HASH_RXQ_UDPv4 | HASH_RXQ_IPv4
  | HASH_RXQ_TCPv6 | HASH_RXQ_UDPv6 | HASH_RXQ_IPv6
  | HASH_RXQ_ETH

text \<open>
  A pointer to an object of the verbs library is modelled by the object it points to,
  \<open>NULL\<close> by \<open>None\<close>. Every object carries the handle it was created with.

  An indirection table holds \<open>2 ^ log_ind_tbl_size\<close> work queues (handles of WQs). A
  hash queue pair is created on an indirection table for the hash fields of one hash RX
  queue type; the hash key is left out.
\<close>

record ibv_exp_rwq_ind_table =
  ind_handle :: nat
  log_ind_tbl_size :: "32 word"
  ind_tbl :: "nat list"

record ibv_qp =
  qp_handle :: nat
  rx_hash_type :: hash_rxq_type
  rwq_ind_tbl :: "ibv_exp_rwq_ind_table option"
  qp_port :: "8 word"

text \<open>A flow created by \<open>ibv_exp_create_flow()\<close>, with the queue pair it steers to.\<close>

record ibv_exp_flow =
  handle :: nat
  flow_qp :: "ibv_qp option"
  flow_attr :: ibv_flow_attr

subsection \<open>Hash RX queues\<close>

text \<open>
  \<open>struct hash_rxq\<close>. \<open>mac_flow[mac_index][vlan_index]\<close> is a table of flow pointers
  (\<open>None\<close> is \<open>NULL\<close>); \<open>rxq_mac_configured\<close> is the queue's own \<open>mac_configured\<close>
  bit-field, as the set of the indices whose bit is set. The \<open>priv\<close> back pointer is
  passed to the functions as an argument.
\<close>

record hash_rxq =
  qp :: "ibv_qp option"
  type :: hash_rxq_type
  mac_flow :: "nat \<times> nat \<Rightarrow> ibv_exp_flow option"
  promisc_flow :: "ibv_exp_flow option"
  allmulti_flow :: "ibv_exp_flow option"
  rxq_mac_configured :: "nat set"

subsection \<open>RX queues\<close>

text \<open>
  \<open>struct rte_mbuf\<close>, the fields the driver reads and writes. A buffer pointer is the
  address of an mbuf, \<open>None\<close> is \<open>NULL\<close>.
\<close>

record rte_mbuf =
  buf_addr :: nat
  buf_len :: "16 word"
  data_off :: "16 word"
  data_len :: "16 word"
  pkt_len :: "32 word"

record ibv_sge =
  addr :: nat
  sge_length :: "32 word"
  lkey :: "32 word"

record ibv_mr =
  mr_lkey :: "32 word"

text \<open>\<open>struct rxq_elt\<close> and \<open>struct rxq_elt_sp\<close>.\<close>

record rxq_elt =
  sge :: ibv_sge
  buf :: "nat option"

record rxq_elt_sp =
  sges :: "ibv_sge list"
  bufs :: "nat option list"

text \<open>
  The union \<open>rxq.elts\<close>: one pointer (\<open>None\<close> is \<open>NULL\<close>), to an array of either
  element type.
\<close>

datatype rxq_elts = NO_SP "rxq_elt list" | SP "rxq_elt_sp list"

text \<open>
  \<open>struct rxq\<close>, the fields that element allocation and rehashing use. \<open>wq\<close> and
  \<open>cq\<close> are the handles of the work queue and of the completion queue, \<open>mr\<close> the
  memory region \<open>rxq->mr\<close> points to.
\<close>

record rxq =
  mr :: ibv_mr
  cq :: nat
  wq :: nat
  elts_n :: nat
  elts_head :: nat
  elts :: "rxq_elts option"
  sp :: bool
  csum :: bool
  csum_l2tun :: bool
  mb_len :: "32 word"
  socket :: nat

text \<open>
  The constants of \<open>mlx5_defs.h\<close> and of the DPDK configuration that the RX queue code
  uses: the number of scatter/gather elements of a work request and the headroom of an
  mbuf. \<open>dev->data->dev_conf.rxmode\<close> is the part of the device configuration that
  \<open>rxq_rehash()\<close> reads.
\<close>

record defs =
  MLX5_PMD_SGE_WR_N :: nat
  RTE_PKTMBUF_HEADROOM :: "16 word"

record rxmode =
  hw_ip_checksum :: bool
  jumbo_frame :: bool
  max_rx_pkt_len :: "32 word"

subsection \<open>The private device structure\<close>

text \<open>
  \<open>struct priv\<close>. The arrays \<open>mac[]\<close> and \<open>vlan_filter[]\<close> are lists, so that
  \<open>elemof(priv->mac)\<close> (\<open>MLX5_MAX_MAC_ADDRESSES\<close>) and \<open>elemof(priv->vlan_filter)\<close>
  (\<open>MLX5_MAX_VLAN_IDS\<close>) are their lengths. \<open>mac_configured\<close> is the bit-field, as the
  set of the indices whose bit is set. \<open>hash_rxqs\<close> and \<open>ind_tables\<close> are the arrays
  of \<open>hash_rxqs_n\<close> and \<open>ind_tables_n\<close> entries (a \<open>NULL\<close> array has none), \<open>rxqs\<close>
  the array of queue pointers and \<open>rxqs_n\<close> the configured number of RX queues.
\<close>

record priv =
  mac :: "ether_addr list"
  mac_configured :: "nat set"
  vlan_filter :: "vlan_filter list"
  started :: bool
  promisc :: bool
  promisc_req :: bool
  allmulti :: bool
  allmulti_req :: bool
  vf :: bool
  port :: "8 word"
  hw_csum :: bool
  hw_csum_l2tun :: bool
  rxqs_n :: "32 word"
  rxqs :: "rxq list"
  ind_table_max_size :: "32 word"
  ind_tables :: "ibv_exp_rwq_ind_table option list"
  hash_rxqs :: "hash_rxq list"

section \<open>The device and the memory allocator\<close>

text \<open>
  The verbs library and the allocator are outside the driver. A call that may fail takes
  its result from \<open>outcomes\<close>, one entry for each such call, in call order; when the list
  is used up every call is granted. \<open>Refused err\<close> leaves \<open>errno = err\<close> (possibly 0).
\<close>

datatype outcome = Granted | Refused errno

datatype ibv_exp_wq_state = IBV_EXP_WQS_RESET | IBV_EXP_WQS_RDY | IBV_EXP_WQS_ERR

text \<open>
  The state outside the driver: the live flows, queue pairs and indirection tables, the
  state of each work queue and the size of each completion queue (by handle), the work
  requests posted to each work queue, the number of live blocks of the \<open>rte_malloc\<close>
  heap, the mbufs (by address) and the free mbufs of the RX mempool.
\<close>

record env =
  outcomes :: "outcome list"
  next_handle :: nat
  flows :: "ibv_exp_flow list"
  qps :: "ibv_qp list"
  rwq_ind_tables :: "ibv_exp_rwq_ind_table list"
  wq_state :: "nat \<Rightarrow> ibv_exp_wq_state"
  cq_size :: "nat \<Rightarrow> nat"
  posted :: "(nat \<times> ibv_sge list) list"
  allocated :: nat
  mbufs :: "nat \<Rightarrow> rte_mbuf"
  mp_free :: "nat list"

definition next_outcome :: "env \<Rightarrow> outcome \<times> env" where
  "next_outcome e =
     (case outcomes e of [] \<Rightarrow> (Granted, e) | x # xs \<Rightarrow> (x, e\<lparr>outcomes := xs\<rparr>))"

text \<open>\<open>ibv_exp_create_flow()\<close>: the new flow (or \<open>NULL\<close>), \<open>errno\<close>, and the device.\<close>

definition ibv_exp_create_flow ::
  "ibv_qp option \<Rightarrow> ibv_flow_attr \<Rightarrow> env \<Rightarrow> ibv_exp_flow option \<times> errno \<times> env" where
  "ibv_exp_create_flow qp' attr e =
     (case next_outcome e of
        (Refused err, e') \<Rightarrow> (None, err, e')
      | (Granted, e') \<Rightarrow>
          (let flow = \<lparr>handle = next_handle e', flow_qp = qp', flow_attr = attr\<rparr>
           in (Some flow, 0,
               e'\<lparr>next_handle := next_handle e' + 1, flows := flows e' @ [flow]\<rparr>)))"

text \<open>\<open>ibv_exp_destroy_flow()\<close>, which \<open>claim_zero()\<close> expects to succeed.\<close>

definition ibv_exp_destroy_flow :: "ibv_exp_flow \<Rightarrow> env \<Rightarrow> env" where
  "ibv_exp_destroy_flow flow e = e\<lparr>flows := remove1 flow (flows e)\<rparr>"

section \<open>Flow attributes (\<open>priv_populate_flow_attr\<close>)\<close>

text \<open>
  The entries of \<open>hash_rxq_init[]\<close> that flow steering reads: priority, specification
  header and underlayer.
\<close>

record hash_rxq_init_t =
  flow_priority :: nat
  flow_spec :: ibv_flow_spec
  underlayer :: "hash_rxq_type option"

definition spec_hdr :: "ibv_flow_spec_type \<Rightarrow> ibv_flow_spec" where
  "spec_hdr t = \<lparr>spec_type = t,
                 val = \<lparr>dst_mac = (0, 0, 0, 0, 0, 0), vlan_tag = 0\<rparr>,
                 mask = \<lparr>dst_mac = (0, 0, 0, 0, 0, 0), vlan_tag = 0\<rparr>\<rparr>"

fun hash_rxq_init :: "hash_rxq_type \<Rightarrow> hash_rxq_init_t" where
  "hash_rxq_init HASH_RXQ_TCPv4 =
     \<lparr>flow_priority = 0, flow_spec = spec_hdr IBV_FLOW_SPEC_TCP, underlayer = Some HASH_RXQ_IPv4\<rparr>"
| "hash_rxq_init HASH_RXQ_UDPv4 =
     \<lparr>flow_priority = 0, flow_spec = spec_hdr IBV_FLOW_SPEC_UDP, underlayer = Some HASH_RXQ_IPv4\<rparr>"
| "hash_rxq_init HASH_RXQ_IPv4 =
     \<lparr>flow_priority = 1, flow_spec = spec_hdr IBV_FLOW_SPEC_IPV4, underlayer = Some HASH_RXQ_ETH\<rparr>"
| "hash_rxq_init HASH_RXQ_TCPv6 =
     \<lparr>flow_priority = 0, flow_spec = spec_hdr IBV_FLOW_SPEC_TCP, underlayer = Some HASH_RXQ_IPv6\<rparr>"
| "hash_rxq_init HASH_RXQ_UDPv6 =
     \<lparr>flow_priority = 0, flow_spec = spec_hdr IBV_FLOW_SPEC_UDP, underlayer = Some HASH_RXQ_IPv6\<rparr>"
| "hash_rxq_init HASH_RXQ_IPv6 =
     \<lparr>flow_priority = 1, flow_spec = spec_hdr IBV_FLOW_SPEC_IPV6, underlayer = Some HASH_RXQ_ETH\<rparr>"
| "hash_rxq_init HASH_RXQ_ETH =
     \<lparr>flow_priority = 2, flow_spec = spec_hdr IBV_FLOW_SPEC_ETH, underlayer = None\<rparr>"

text \<open>
  The \<open>do ... while (init != NULL)\<close> walk along \<open>underlayer\<close>: the visited entries, the
  requested type first.
\<close>

function underlayers :: "hash_rxq_type \<Rightarrow> hash_rxq_type list" where
  "underlayers t =
     t # (case underlayer (hash_rxq_init t) of None \<Rightarrow> [] | Some u \<Rightarrow> underlayers u)"
  by pat_completeness auto
termination
proof (relation "measure (\<lambda>t. 2 - flow_priority (hash_rxq_init t))")
  fix t u
  assume "underlayer (hash_rxq_init t) = Some u"
  then show "(u, t) \<in> measure (\<lambda>t. 2 - flow_priority (hash_rxq_init t))"
    by (cases t) auto
qed simp

text \<open>
  \<open>priv_populate_flow_attr()\<close> called with a buffer of the size its first call returned:
  the attribute is filled and the specifications are copied from the end of the buffer
  backwards, so the Ethernet specification comes first in memory.
\<close>

definition priv_populate_flow_attr :: "priv \<Rightarrow> hash_rxq_type \<Rightarrow> ibv_flow_attr" where
  "priv_populate_flow_attr priv t =
     \<lparr>attr_type = IBV_FLOW_ATTR_NORMAL,
      priority = flow_priority (hash_rxq_init t),
      num_of_specs = length (underlayers t),
      attr_port = port priv,
      flags = 0,
      specs = rev (map (\<lambda>u. flow_spec (hash_rxq_init u)) (underlayers t))\<rparr>"

section \<open>MAC address filtering (\<open>mlx5_mac.c\<close>)\<close>

text \<open>
  \<open>hash_rxq_del_flow()\<close>. The source asserts that the flow pointer is not \<open>NULL\<close>; the
  \<open>None\<close> branch is that excluded case.
\<close>

definition hash_rxq_del_flow :: "nat \<Rightarrow> nat \<Rightarrow> hash_rxq \<times> env \<Rightarrow> hash_rxq \<times> env" where
  "hash_rxq_del_flow mac_index vlan_index = (\<lambda>(hash_rxq, e).
     case mac_flow hash_rxq (mac_index, vlan_index) of
       None \<Rightarrow> (hash_rxq, e)
     | Some flow \<Rightarrow>
         (hash_rxq\<lparr>mac_flow := (mac_flow hash_rxq)((mac_index, vlan_index) := None)\<rparr>,
          ibv_exp_destroy_flow flow e))"

text \<open>
  \<open>hash_rxq_mac_addr_del()\<close>: first its loop over the VLAN indices still to visit,
  which counts the enabled filters in \<open>vlans\<close>.
\<close>

fun hash_rxq_mac_addr_del_vlans ::
  "priv \<Rightarrow> nat \<Rightarrow> nat list \<Rightarrow> nat \<Rightarrow> hash_rxq \<times> env \<Rightarrow> nat \<times> hash_rxq \<times> env" where
  "hash_rxq_mac_addr_del_vlans priv mac_index [] vlans s = (vlans, s)"
| "hash_rxq_mac_addr_del_vlans priv mac_index (i # is) vlans s =
     (if \<not> enabled (vlan_filter priv ! i)
      then hash_rxq_mac_addr_del_vlans priv mac_index is vlans s
      else hash_rxq_mac_addr_del_vlans priv mac_index is (vlans + 1)
             (hash_rxq_del_flow mac_index i s))"

definition hash_rxq_mac_addr_del ::
  "priv \<Rightarrow> nat \<Rightarrow> hash_rxq \<times> env \<Rightarrow> hash_rxq \<times> env" where
  "hash_rxq_mac_addr_del priv mac_index s =
     (if mac_index \<notin> rxq_mac_configured (fst s) then s
      else
        (case hash_rxq_mac_addr_del_vlans priv mac_index
                [0..<length (vlan_filter priv)] 0 s of
           (vlans, s1) \<Rightarrow>
             (case (if vlans = 0 then hash_rxq_del_flow mac_index 0 s1 else s1) of
                (hash_rxq, e) \<Rightarrow>
                  (hash_rxq\<lparr>rxq_mac_configured :=
                              rxq_mac_configured hash_rxq - {mac_index}\<rparr>, e))))"

text \<open>\<open>hash_rxq_mac_addrs_del()\<close>.\<close>

definition hash_rxq_mac_addrs_del :: "priv \<Rightarrow> hash_rxq \<times> env \<Rightarrow> hash_rxq \<times> env" where
  "hash_rxq_mac_addrs_del priv s =
     fold (\<lambda>i. hash_rxq_mac_addr_del priv i) [0..<length (mac priv)] s"

text \<open>Running a function on \<open>(*priv->hash_rxqs)[i]\<close>, in place.\<close>

definition on_hash_rxq ::
  "nat \<Rightarrow> (priv \<Rightarrow> hash_rxq \<times> env \<Rightarrow> hash_rxq \<times> env) \<Rightarrow> priv \<times> env \<Rightarrow> priv \<times> env" where
  "on_hash_rxq i f = (\<lambda>(priv, e).
     case f priv (hash_rxqs priv ! i, e) of
       (hash_rxq, e') \<Rightarrow> (priv\<lparr>hash_rxqs := (hash_rxqs priv)[i := hash_rxq]\<rparr>, e'))"

text \<open>\<open>priv_mac_addr_del()\<close>.\<close>

definition priv_mac_addr_del :: "nat \<Rightarrow> priv \<times> env \<Rightarrow> priv \<times> env" where
  "priv_mac_addr_del mac_index = (\<lambda>(priv, e).
     if mac_index \<notin> mac_configured priv then (priv, e)
     else
       (case fold (\<lambda>i. on_hash_rxq i (\<lambda>p. hash_rxq_mac_addr_del p mac_index))
                  [0..<length (hash_rxqs priv)] (priv, e) of
          (priv', e') \<Rightarrow>
            (priv'\<lparr>mac_configured := mac_configured priv' - {mac_index}\<rparr>, e')))"

text \<open>\<open>priv_mac_addrs_disable()\<close>.\<close>

definition priv_mac_addrs_disable :: "priv \<times> env \<Rightarrow> priv \<times> env" where
  "priv_mac_addrs_disable s =
     fold (\<lambda>i. on_hash_rxq i hash_rxq_mac_addrs_del) [0..<length (hash_rxqs (fst s))] s"

text \<open>\<open>mlx5_mac_addr_remove()\<close>, a callback without a return value.\<close>

definition mlx5_mac_addr_remove :: "nat \<Rightarrow> priv \<times> env \<Rightarrow> priv \<times> env" where
  "mlx5_mac_addr_remove index = (\<lambda>(priv, e).
     if index \<ge> length (mac priv) then (priv, e)
     else if mac priv ! index = broadcast then (priv, e)
     else priv_mac_addr_del index (priv, e))"

text \<open>
  The flow attribute \<open>hash_rxq_add_flow()\<close> builds: the one of
  \<open>priv_populate_flow_attr()\<close> with its Ethernet specification, the first one after
  the attribute, overwritten with the address and the VLAN of the rule. The VLAN index
  \<open>-1u\<close> ("no VLAN") is \<open>None\<close>.
\<close>

definition mac_flow_attr :: "priv \<Rightarrow> hash_rxq_type \<Rightarrow> nat \<Rightarrow> nat option \<Rightarrow> ibv_flow_attr" where
  "mac_flow_attr priv t mac_index vlan_index =
     (let attr = priv_populate_flow_attr priv t;
          spec = \<lparr>spec_type = IBV_FLOW_SPEC_ETH,
                  val = \<lparr>dst_mac = mac priv ! mac_index,
                         vlan_tag = (case vlan_index of
                                       Some i \<Rightarrow> htons (vlan_id (vlan_filter priv ! i))
                                     | None \<Rightarrow> 0)\<rparr>,
                  mask = \<lparr>dst_mac = broadcast,
                          vlan_tag = (case vlan_index of Some i \<Rightarrow> htons 0xfff | None \<Rightarrow> 0)\<rparr>\<rparr>
      in attr\<lparr>specs := (specs attr)[0 := spec]\<rparr>)"

text \<open>
  \<open>hash_rxq_add_flow()\<close>: on failure \<open>errno\<close> is returned, or \<open>EINVAL\<close> when it is
  not set; on success the flow is stored, at VLAN index 0 when there is no VLAN.
\<close>

definition hash_rxq_add_flow ::
  "priv \<Rightarrow> nat \<Rightarrow> nat option \<Rightarrow> hash_rxq \<times> env \<Rightarrow> errno \<times> hash_rxq \<times> env" where
  "hash_rxq_add_flow priv mac_index vlan_index = (\<lambda>(hash_rxq, e).
     case ibv_exp_create_flow (qp hash_rxq)
            (mac_flow_attr priv (type hash_rxq) mac_index vlan_index) e of
       (None, err, e') \<Rightarrow> (if err \<noteq> 0 then err else EINVAL, hash_rxq, e')
     | (Some flow, err, e') \<Rightarrow>
         (0,
          hash_rxq\<lparr>mac_flow := (mac_flow hash_rxq)
                     ((mac_index, case vlan_index of None \<Rightarrow> 0 | Some i \<Rightarrow> i) \<mapsto> flow)\<rparr>,
          e'))"

text \<open>
  The rollback of \<open>hash_rxq_mac_addr_add()\<close>:
  \<open>while (i != 0) if (priv->vlan_filter[--i].enabled) hash_rxq_del_flow(...)\<close>.
\<close>

fun hash_rxq_mac_addr_add_rollback ::
  "priv \<Rightarrow> nat \<Rightarrow> nat \<Rightarrow> hash_rxq \<times> env \<Rightarrow> hash_rxq \<times> env" where
  "hash_rxq_mac_addr_add_rollback priv mac_index 0 s = s"
| "hash_rxq_mac_addr_add_rollback priv mac_index (Suc i) s =
     hash_rxq_mac_addr_add_rollback priv mac_index i
       (if enabled (vlan_filter priv ! i) then hash_rxq_del_flow mac_index i s else s)"

text \<open>
  The loop of \<open>hash_rxq_mac_addr_add()\<close> over the VLAN indices still to visit; it
  returns the status, the count \<open>vlans\<close> and the queue.
\<close>

fun hash_rxq_mac_addr_add_vlans ::
  "priv \<Rightarrow> nat \<Rightarrow> nat list \<Rightarrow> nat \<Rightarrow> hash_rxq \<times> env \<Rightarrow> errno \<times> nat \<times> hash_rxq \<times> env" where
  "hash_rxq_mac_addr_add_vlans priv mac_index [] vlans s = (0, vlans, s)"
| "hash_rxq_mac_addr_add_vlans priv mac_index (i # is) vlans s =
     (if \<not> enabled (vlan_filter priv ! i)
      then hash_rxq_mac_addr_add_vlans priv mac_index is vlans s
      else
        (case hash_rxq_add_flow priv mac_index (Some i) s of
           (ret, s') \<Rightarrow>
             if ret = 0 then hash_rxq_mac_addr_add_vlans priv mac_index is (vlans + 1) s'
             else (ret, vlans, hash_rxq_mac_addr_add_rollback priv mac_index i s')))"

text \<open>\<open>hash_rxq_mac_addr_add()\<close>.\<close>

definition hash_rxq_mac_addr_add ::
  "priv \<Rightarrow> nat \<Rightarrow> hash_rxq \<times> env \<Rightarrow> errno \<times> hash_rxq \<times> env" where
  "hash_rxq_mac_addr_add priv mac_index s =
     (let s1 = (if mac_index \<in> rxq_mac_configured (fst s)
                then hash_rxq_mac_addr_del priv mac_index s else s)
      in case hash_rxq_mac_addr_add_vlans priv mac_index
                [0..<length (vlan_filter priv)] 0 s1 of
           (ret, vlans, s2) \<Rightarrow>
             if ret \<noteq> 0 then (ret, s2)
             else
               (case (if vlans = 0 then hash_rxq_add_flow priv mac_index None s2
                      else (0, s2)) of
                  (ret', hash_rxq, e) \<Rightarrow>
                    if ret' \<noteq> 0 then (ret', hash_rxq, e)
                    else (0, hash_rxq\<lparr>rxq_mac_configured :=
                                        insert mac_index (rxq_mac_configured hash_rxq)\<rparr>, e)))"

text \<open>
  \<open>hash_rxq_mac_addrs_add()\<close>: the loop over the MAC indices still to visit, and its
  rollback \<open>while (i != 0) hash_rxq_mac_addr_del(hash_rxq, --i)\<close>.
\<close>

fun hash_rxq_mac_addrs_add_rollback ::
  "priv \<Rightarrow> nat \<Rightarrow> hash_rxq \<times> env \<Rightarrow> hash_rxq \<times> env" where
  "hash_rxq_mac_addrs_add_rollback priv 0 s = s"
| "hash_rxq_mac_addrs_add_rollback priv (Suc i) s =
     hash_rxq_mac_addrs_add_rollback priv i (hash_rxq_mac_addr_del priv i s)"

fun hash_rxq_mac_addrs_add_loop ::
  "priv \<Rightarrow> nat list \<Rightarrow> hash_rxq \<times> env \<Rightarrow> errno \<times> hash_rxq \<times> env" where
  "hash_rxq_mac_addrs_add_loop priv [] s = (0, s)"
| "hash_rxq_mac_addrs_add_loop priv (i # is) s =
     (if i \<notin> mac_configured priv then hash_rxq_mac_addrs_add_loop priv is s
      else
        (case hash_rxq_mac_addr_add priv i s of
           (ret, s') \<Rightarrow>
             if ret = 0 then hash_rxq_mac_addrs_add_loop priv is s'
             else (ret, hash_rxq_mac_addrs_add_rollback priv i s')))"

definition hash_rxq_mac_addrs_add :: "priv \<Rightarrow> hash_rxq \<times> env \<Rightarrow> errno \<times> hash_rxq \<times> env" where
  "hash_rxq_mac_addrs_add priv s = hash_rxq_mac_addrs_add_loop priv [0..<length (mac priv)] s"

text \<open>
  \<open>priv_mac_addr_add()\<close>. First the scan for the address in another configured slot,
  then the implicit removal of the slot, the copy of the six bytes, and (when the device
  is started) the loop over the hash RX queues with its rollback
  \<open>while (i != 0) hash_rxq_mac_addr_del(&(*priv->hash_rxqs)[--i], mac_index)\<close>.
\<close>

fun priv_mac_addr_add_rollback :: "nat \<Rightarrow> nat \<Rightarrow> priv \<times> env \<Rightarrow> priv \<times> env" where
  "priv_mac_addr_add_rollback mac_index 0 s = s"
| "priv_mac_addr_add_rollback mac_index (Suc i) s =
     priv_mac_addr_add_rollback mac_index i
       (on_hash_rxq i (\<lambda>p. hash_rxq_mac_addr_del p mac_index) s)"

fun priv_mac_addr_add_loop :: "nat \<Rightarrow> nat list \<Rightarrow> priv \<times> env \<Rightarrow> errno \<times> priv \<times> env" where
  "priv_mac_addr_add_loop mac_index [] s = (0, s)"
| "priv_mac_addr_add_loop mac_index (i # is) s =
     (case s of (priv, e) \<Rightarrow>
        (case hash_rxq_mac_addr_add priv mac_index (hash_rxqs priv ! i, e) of
           (ret, hash_rxq, e') \<Rightarrow>
             (let s' = (priv\<lparr>hash_rxqs := (hash_rxqs priv)[i := hash_rxq]\<rparr>, e')
              in if ret = 0 then priv_mac_addr_add_loop mac_index is s'
                 else (ret, priv_mac_addr_add_rollback mac_index i s'))))"

definition priv_mac_addr_add :: "nat \<Rightarrow> ether_addr \<Rightarrow> priv \<times> env \<Rightarrow> errno \<times> priv \<times> env" where
  "priv_mac_addr_add mac_index a = (\<lambda>(priv, e).
     if list_ex (\<lambda>i. i \<noteq> mac_index \<and> i \<in> mac_configured priv \<and> mac priv ! i = a)
          [0..<length (mac priv)]
     then (EADDRINUSE, priv, e)
     else
       (case (if mac_index \<in> mac_configured priv
              then priv_mac_addr_del mac_index (priv, e) else (priv, e)) of
          (priv1, e1) \<Rightarrow>
            (let priv2 = priv1\<lparr>mac := (mac priv1)[mac_index := a]\<rparr>
             in if \<not> started priv2
                then (0, priv2\<lparr>mac_configured := insert mac_index (mac_configured priv2)\<rparr>, e1)
                else
                  (case priv_mac_addr_add_loop mac_index
                          [0..<length (hash_rxqs priv2)] (priv2, e1) of
                     (ret, priv3, e3) \<Rightarrow>
                       if ret \<noteq> 0 then (ret, priv3, e3)
                       else (0, priv3\<lparr>mac_configured :=
                                        insert mac_index (mac_configured priv3)\<rparr>, e3)))))"

text \<open>
  \<open>mlx5_mac_addr_add()\<close>, a callback without a return value: the status of
  \<open>priv_mac_addr_add()\<close> is dropped. The VMDq pool index is ignored.
\<close>

definition mlx5_mac_addr_add :: "ether_addr \<Rightarrow> nat \<Rightarrow> nat \<Rightarrow> priv \<times> env \<Rightarrow> priv \<times> env" where
  "mlx5_mac_addr_add mac_addr index vmdq = (\<lambda>(priv, e).
     if index \<ge> length (mac priv) then (priv, e)
     else if mac_addr = broadcast then (priv, e)
     else snd (priv_mac_addr_add index mac_addr (priv, e)))"

section \<open>Promiscuous and all-multicast modes (\<open>mlx5_rxmode.c\<close>)\<close>

text \<open>
  \<open>hash_rxq_promiscuous_enable()\<close>: nothing is done on a virtual function; a queue that
  already has a promiscuous flow is busy; otherwise the flow is the one of
  \<open>priv_populate_flow_attr()\<close>, which filters on no MAC address.
\<close>

definition hash_rxq_promiscuous_enable ::
  "priv \<Rightarrow> hash_rxq \<times> env \<Rightarrow> errno \<times> hash_rxq \<times> env" where
  "hash_rxq_promiscuous_enable priv = (\<lambda>(hash_rxq, e).
     if vf priv then (0, hash_rxq, e)
     else if promisc_flow hash_rxq \<noteq> None then (EBUSY, hash_rxq, e)
     else
       (case ibv_exp_create_flow (qp hash_rxq)
               (priv_populate_flow_attr priv (type hash_rxq)) e of
          (None, err, e') \<Rightarrow> (if err \<noteq> 0 then err else EINVAL, hash_rxq, e')
        | (Some flow, err, e') \<Rightarrow> (0, hash_rxq\<lparr>promisc_flow := Some flow\<rparr>, e')))"

text \<open>\<open>hash_rxq_promiscuous_disable()\<close>.\<close>

definition hash_rxq_promiscuous_disable :: "priv \<Rightarrow> hash_rxq \<times> env \<Rightarrow> hash_rxq \<times> env" where
  "hash_rxq_promiscuous_disable priv = (\<lambda>(hash_rxq, e).
     if vf priv then (hash_rxq, e)
     else
       (case promisc_flow hash_rxq of
          None \<Rightarrow> (hash_rxq, e)
        | Some flow \<Rightarrow> (hash_rxq\<lparr>promisc_flow := None\<rparr>, ibv_exp_destroy_flow flow e)))"

text \<open>
  Restoring the MAC flows of a queue: \<open>if (priv->started) hash_rxq_mac_addrs_add(hash_rxq)\<close>,
  whose status the callers drop.
\<close>

definition restore_mac_flows :: "priv \<Rightarrow> hash_rxq \<times> env \<Rightarrow> hash_rxq \<times> env" where
  "restore_mac_flows priv s = (if started priv then snd (hash_rxq_mac_addrs_add priv s) else s)"

text \<open>
  \<open>priv_promiscuous_enable()\<close>: the rollback
  \<open>while (i != 0) { hash_rxq = &(*priv->hash_rxqs)[--i]; ... }\<close>, the loop over the hash
  RX queues still to visit, and the function, which sets \<open>priv->promisc\<close> last.
\<close>

fun priv_promiscuous_enable_rollback :: "nat \<Rightarrow> priv \<times> env \<Rightarrow> priv \<times> env" where
  "priv_promiscuous_enable_rollback 0 s = s"
| "priv_promiscuous_enable_rollback (Suc i) s =
     priv_promiscuous_enable_rollback i
       (on_hash_rxq i restore_mac_flows (on_hash_rxq i hash_rxq_promiscuous_disable s))"

fun priv_promiscuous_enable_loop :: "nat list \<Rightarrow> priv \<times> env \<Rightarrow> errno \<times> priv \<times> env" where
  "priv_promiscuous_enable_loop [] s = (0, s)"
| "priv_promiscuous_enable_loop (i # is) s =
     (case on_hash_rxq i hash_rxq_mac_addrs_del s of
        (priv, e) \<Rightarrow>
          (case hash_rxq_promiscuous_enable priv (hash_rxqs priv ! i, e) of
             (ret, hash_rxq, e') \<Rightarrow>
               (let s' = (priv\<lparr>hash_rxqs := (hash_rxqs priv)[i := hash_rxq]\<rparr>, e')
                in if ret = 0 then priv_promiscuous_enable_loop is s'
                   else (ret, priv_promiscuous_enable_rollback i s'))))"

definition priv_promiscuous_enable :: "priv \<times> env \<Rightarrow> errno \<times> priv \<times> env" where
  "priv_promiscuous_enable = (\<lambda>(priv, e).
     if promisc priv then (0, priv, e)
     else
       (case priv_promiscuous_enable_loop [0..<length (hash_rxqs priv)] (priv, e) of
          (ret, priv', e') \<Rightarrow>
            if ret \<noteq> 0 then (ret, priv', e') else (0, priv'\<lparr>promisc := True\<rparr>, e')))"

text \<open>\<open>mlx5_promiscuous_enable()\<close>, a callback without a return value.\<close>

definition mlx5_promiscuous_enable :: "priv \<times> env \<Rightarrow> priv \<times> env" where
  "mlx5_promiscuous_enable = (\<lambda>(priv, e).
     snd (priv_promiscuous_enable (priv\<lparr>promisc_req := True\<rparr>, e)))"

text \<open>\<open>priv_promiscuous_disable()\<close> and \<open>mlx5_promiscuous_disable()\<close>.\<close>

definition priv_promiscuous_disable :: "priv \<times> env \<Rightarrow> priv \<times> env" where
  "priv_promiscuous_disable = (\<lambda>(priv, e).
     if \<not> promisc priv then (priv, e)
     else
       (case fold (\<lambda>i s. on_hash_rxq i restore_mac_flows
                              (on_hash_rxq i hash_rxq_promiscuous_disable s))
                  [0..<length (hash_rxqs priv)] (priv, e) of
          (priv', e') \<Rightarrow> (priv'\<lparr>promisc := False\<rparr>, e')))"

definition mlx5_promiscuous_disable :: "priv \<times> env \<Rightarrow> priv \<times> env" where
  "mlx5_promiscuous_disable = (\<lambda>(priv, e).
     priv_promiscuous_disable (priv\<lparr>promisc_req := False\<rparr>, e))"


definition hash_rxq_allmulticast_disable :: "priv \<Rightarrow> hash_rxq \<times> env \<Rightarrow> hash_rxq \<times> env" where
  "hash_rxq_allmulticast_disable priv = (\<lambda>(hash_rxq, e).
     case allmulti_flow hash_rxq of
       None \<Rightarrow> (hash_rxq, e)
     | Some flow \<Rightarrow> (hash_rxq\<lparr>allmulti_flow := None\<rparr>, ibv_exp_destroy_flow flow e))"




text \<open>\<open>priv_allmulticast_disable()\<close>.\<close>

definition priv_allmulticast_disable :: "priv \<times> env \<Rightarrow> priv \<times> env" where
  "priv_allmulticast_disable = (\<lambda>(priv, e).
     if \<not> allmulti priv then (priv, e)
     else
       (case fold (\<lambda>i. on_hash_rxq i hash_rxq_allmulticast_disable)
                  [0..<length (hash_rxqs priv)] (priv, e) of
          (priv', e') \<Rightarrow> (priv'\<lparr>allmulti := False\<rparr>, e')))"

section \<open>Hash RX queues and indirection tables\<close>









text \<open>
  \<open>rte_calloc()\<close>, which also stands for \<open>rte_calloc_socket()\<close> and \<open>rte_malloc()\<close>
  (whether a block was obtained), and \<open>rte_free()\<close> of a block.
\<close>

definition rte_calloc :: "env \<Rightarrow> bool \<times> env" where
  "rte_calloc e =
     (case next_outcome e of
        (Refused err, e') \<Rightarrow> (False, e')
      | (Granted, e') \<Rightarrow> (True, e'\<lparr>allocated := allocated e' + 1\<rparr>))"

definition rte_free :: "env \<Rightarrow> env" where
  "rte_free e = e\<lparr>allocated := allocated e - 1\<rparr>"








text \<open>A zeroed \<open>struct hash_rxq\<close>, as \<open>rte_calloc()\<close> and the initialiser leave it.\<close>

definition hash_rxq_zero :: hash_rxq where
  "hash_rxq_zero =
     \<lparr>qp = None, type = HASH_RXQ_TCPv4, mac_flow = (\<lambda>_. None),
      promisc_flow = None, allmulti_flow = None, rxq_mac_configured = {}\<rparr>"






section \<open>RX queue elements (\<open>rxq_alloc_elts\<close>, \<open>rxq_alloc_elts_sp\<close>)\<close>

text \<open>
  Modelled from the spec: the buffer pool of the mbuf library, whose code is not part of
  the sources at hand ("\<open>alloc() -> Buffer | Empty\<close>, \<open>free(Buffer)\<close>, buffers carry a
  fixed capacity and a mutable usable offset/length view"). \<open>rte_pktmbuf_reset()\<close>
  empties a buffer and reserves its headroom, as the assertions of the allocators expect;
  \<open>rte_pktmbuf_alloc()\<close> takes a free buffer of the pool and resets it, or returns
  \<open>NULL\<close> when the pool is empty; \<open>rte_pktmbuf_free_seg()\<close> gives one buffer back.
\<close>

definition rte_pktmbuf_reset :: "defs \<Rightarrow> rte_mbuf \<Rightarrow> rte_mbuf" where
  "rte_pktmbuf_reset d m = m\<lparr>data_off := RTE_PKTMBUF_HEADROOM d, data_len := 0, pkt_len := 0\<rparr>"

definition rte_pktmbuf_alloc :: "defs \<Rightarrow> env \<Rightarrow> nat option \<times> env" where
  "rte_pktmbuf_alloc d e =
     (case mp_free e of
        [] \<Rightarrow> (None, e)
      | b # bs \<Rightarrow>
          (Some b, e\<lparr>mp_free := bs, mbufs := (mbufs e)(b := rte_pktmbuf_reset d (mbufs e b))\<rparr>))"

definition rte_pktmbuf_free_seg :: "nat \<Rightarrow> env \<Rightarrow> env" where
  "rte_pktmbuf_free_seg b e = e\<lparr>mp_free := b # mp_free e\<rparr>"

text \<open>
  How both allocators obtain a buffer: from the array \<open>pool\<close> when there is one
  (\<open>buf = *(pool++)\<close>, then \<open>rte_pktmbuf_reset(buf)\<close>), from the mempool otherwise. The
  source asserts that the entries of \<open>pool\<close> are not \<open>NULL\<close>; reading past its end is
  the excluded case \<open>Some []\<close>.
\<close>

definition rxq_get_buf ::
  "defs \<Rightarrow> nat option list option \<Rightarrow> env \<Rightarrow> nat option \<times> nat option list option \<times> env" where
  "rxq_get_buf d pool e =
     (case pool of
        None \<Rightarrow> (case rte_pktmbuf_alloc d e of (buf', e') \<Rightarrow> (buf', None, e'))
      | Some [] \<Rightarrow> (None, Some [], e)
      | Some (buf' # pool') \<Rightarrow>
          (buf', Some pool',
           case buf' of None \<Rightarrow> e
           | Some b \<Rightarrow> e\<lparr>mbufs := (mbufs e)(b := rte_pktmbuf_reset d (mbufs e b))\<rparr>))"

definition sge_zero :: ibv_sge where
  "sge_zero = \<lparr>addr = 0, sge_length = 0, lkey = 0\<rparr>"

text \<open>
  \<open>rxq_alloc_elts()\<close>: the loop over the work requests still to fill, the loop after the
  label \<open>error\<close> that frees every buffer of the array, and the function.
\<close>

fun rxq_alloc_elts_loop ::
  "defs \<Rightarrow> rxq \<Rightarrow> nat list \<Rightarrow> nat option list option \<Rightarrow> rxq_elt list \<times> env
     \<Rightarrow> errno \<times> rxq_elt list \<times> env" where
  "rxq_alloc_elts_loop d rxq' [] pool s = (0, s)"
| "rxq_alloc_elts_loop d rxq' (i # is) pool s =
     (case s of (elts', e) \<Rightarrow>
        (case rxq_get_buf d pool e of
           (None, pool', e') \<Rightarrow> (ENOMEM, elts', e')
         | (Some b, pool', e') \<Rightarrow>
             rxq_alloc_elts_loop d rxq' is pool'
               (elts'[i := \<lparr>sge = \<lparr>addr = buf_addr (mbufs e' b) + unat (RTE_PKTMBUF_HEADROOM d),
                                     sge_length = ucast (buf_len (mbufs e' b))
                                                  - ucast (RTE_PKTMBUF_HEADROOM d),
                                     lkey = mr_lkey (mr rxq')\<rparr>,
                             buf = Some b\<rparr>], e')))"

definition rxq_elts_free_bufs :: "rxq_elt list \<Rightarrow> env \<Rightarrow> env" where
  "rxq_elts_free_bufs elts' e =
     fold (\<lambda>i e. case buf (elts' ! i) of None \<Rightarrow> e | Some b \<Rightarrow> rte_pktmbuf_free_seg b e)
       [0..<length elts'] e"

definition rxq_alloc_elts ::
  "defs \<Rightarrow> rxq \<Rightarrow> nat \<Rightarrow> nat option list option \<Rightarrow> env \<Rightarrow> errno \<times> rxq \<times> env" where
  "rxq_alloc_elts d rxq' n pool e =
     (case rte_calloc e of
        (False, e1) \<Rightarrow> (ENOMEM, rxq', e1)
      | (True, e1) \<Rightarrow>
          (case rxq_alloc_elts_loop d rxq' [0..<n] pool
                  (replicate n \<lparr>sge = sge_zero, buf = None\<rparr>, e1) of
             (ret, elts', e2) \<Rightarrow>
               if ret \<noteq> 0 then (ret, rxq', rte_free (rxq_elts_free_bufs elts' e2))
               else (0, rxq'\<lparr>elts_n := n, elts_head := 0, elts := Some (NO_SP elts')\<rparr>, e2)))"

text \<open>
  \<open>rxq_alloc_elts_sp()\<close>: the loop over the segments of work request \<open>i\<close> (the first
  segment keeps its headroom, the others lose it), the loop over the work requests, the
  loops after the label \<open>error\<close>, and the function.
\<close>

fun rxq_alloc_elts_sp_segs ::
  "defs \<Rightarrow> rxq \<Rightarrow> nat \<Rightarrow> nat list \<Rightarrow> nat option list option \<Rightarrow> rxq_elt_sp list \<times> env
     \<Rightarrow> errno \<times> nat option list option \<times> rxq_elt_sp list \<times> env" where
  "rxq_alloc_elts_sp_segs d rxq' i [] pool s = (0, pool, s)"
| "rxq_alloc_elts_sp_segs d rxq' i (j # js) pool s =
     (case s of (elts', e) \<Rightarrow>
        (case rxq_get_buf d pool e of
           (None, pool', e') \<Rightarrow> (ENOMEM, pool', elts', e')
         | (Some b, pool', e') \<Rightarrow>
             (let m = mbufs e' b;
                  sge' = (if j = 0
                          then \<lparr>addr = buf_addr m + unat (data_off m),
                                sge_length = ucast (buf_len m) - ucast (RTE_PKTMBUF_HEADROOM d),
                                lkey = mr_lkey (mr rxq')\<rparr>
                          else \<lparr>addr = buf_addr m, sge_length = ucast (buf_len m),
                                lkey = mr_lkey (mr rxq')\<rparr>);
                  e'' = (if j = 0 then e' else e'\<lparr>mbufs := (mbufs e')(b := m\<lparr>data_off := 0\<rparr>)\<rparr>);
                  elt = elts' ! i
              in rxq_alloc_elts_sp_segs d rxq' i js pool'
                   (elts'[i := elt\<lparr>sges := (sges elt)[j := sge'],
                                    bufs := (bufs elt)[j := Some b]\<rparr>], e''))))"

fun rxq_alloc_elts_sp_loop ::
  "defs \<Rightarrow> rxq \<Rightarrow> nat list \<Rightarrow> nat option list option \<Rightarrow> rxq_elt_sp list \<times> env
     \<Rightarrow> errno \<times> rxq_elt_sp list \<times> env" where
  "rxq_alloc_elts_sp_loop d rxq' [] pool s = (0, s)"
| "rxq_alloc_elts_sp_loop d rxq' (i # is) pool s =
     (case rxq_alloc_elts_sp_segs d rxq' i [0..<MLX5_PMD_SGE_WR_N d] pool s of
        (ret, pool', s') \<Rightarrow>
          if ret \<noteq> 0 then (ret, s') else rxq_alloc_elts_sp_loop d rxq' is pool' s')"

definition rxq_elts_sp_free_bufs :: "rxq_elt_sp list \<Rightarrow> env \<Rightarrow> env" where
  "rxq_elts_sp_free_bufs elts' e =
     fold (\<lambda>i e.
             fold (\<lambda>j e. case bufs (elts' ! i) ! j of None \<Rightarrow> e
                          | Some b \<Rightarrow> rte_pktmbuf_free_seg b e)
               [0..<length (bufs (elts' ! i))] e)
       [0..<length elts'] e"

definition rxq_alloc_elts_sp ::
  "defs \<Rightarrow> rxq \<Rightarrow> nat \<Rightarrow> nat option list option \<Rightarrow> env \<Rightarrow> errno \<times> rxq \<times> env" where
  "rxq_alloc_elts_sp d rxq' n pool e =
     (case rte_calloc e of
        (False, e1) \<Rightarrow> (ENOMEM, rxq', e1)
      | (True, e1) \<Rightarrow>
          (case rxq_alloc_elts_sp_loop d rxq' [0..<n] pool
                  (replicate n \<lparr>sges = replicate (MLX5_PMD_SGE_WR_N d) sge_zero,
                                 bufs = replicate (MLX5_PMD_SGE_WR_N d) None\<rparr>, e1) of
             (ret, elts', e2) \<Rightarrow>
               if ret \<noteq> 0 then (ret, rxq', rte_free (rxq_elts_sp_free_bufs elts' e2))
               else (0, rxq'\<lparr>elts_n := n, elts_head := 0, elts := Some (SP elts')\<rparr>, e2)))"

section \<open>Rehashing an RX queue (\<open>rxq_rehash\<close>)\<close>

text \<open>
  The verbs calls of \<open>rxq_rehash()\<close> return an error code themselves: a refused call
  returns its \<open>errno\<close> and changes nothing. \<open>recv_sges\<close> stands for the two posting
  functions of the work queue interface, \<open>recv_sg_list()\<close> and \<open>recv_burst()\<close>.
\<close>

definition ibv_exp_modify_wq :: "nat \<Rightarrow> ibv_exp_wq_state \<Rightarrow> env \<Rightarrow> errno \<times> env" where
  "ibv_exp_modify_wq wq' st e =
     (case next_outcome e of
        (Refused err, e') \<Rightarrow> (err, e')
      | (Granted, e') \<Rightarrow> (0, e'\<lparr>wq_state := (wq_state e')(wq' := st)\<rparr>))"

definition ibv_resize_cq :: "nat \<Rightarrow> nat \<Rightarrow> env \<Rightarrow> errno \<times> env" where
  "ibv_resize_cq cq' cqe e =
     (case next_outcome e of
        (Refused err, e') \<Rightarrow> (err, e')
      | (Granted, e') \<Rightarrow> (0, e'\<lparr>cq_size := (cq_size e')(cq' := cqe)\<rparr>))"

definition recv_sges :: "nat \<Rightarrow> ibv_sge list \<Rightarrow> env \<Rightarrow> errno \<times> env" where
  "recv_sges wq' sgl e =
     (case next_outcome e of
        (Refused err, e') \<Rightarrow> (err, e')
      | (Granted, e') \<Rightarrow> (0, e'\<lparr>posted := posted e' @ [(wq', sgl)]\<rparr>))"

text \<open>
  The loops that post the work requests, over the indices still to visit; they stop at
  the first error.
\<close>

fun post_sges :: "nat \<Rightarrow> ibv_sge list list \<Rightarrow> nat list \<Rightarrow> env \<Rightarrow> errno \<times> env" where
  "post_sges wq' sgls [] e = (0, e)"
| "post_sges wq' sgls (i # is) e =
     (case recv_sges wq' (sgls ! i) e of
        (err, e') \<Rightarrow> if err \<noteq> 0 then (err, e') else post_sges wq' sgls is e')"

text \<open>
  The scatter mode that the configuration asks for:
  \<open>jumbo_frame && max_rx_pkt_len > (mb_len - RTE_PKTMBUF_HEADROOM)\<close>.
\<close>

definition rehash_sp :: "defs \<Rightarrow> rxmode \<Rightarrow> rxq \<Rightarrow> bool" where
  "rehash_sp d conf rxq' \<longleftrightarrow>
     jumbo_frame conf \<and> max_rx_pkt_len conf > mb_len rxq' - ucast (RTE_PKTMBUF_HEADROOM d)"

text \<open>
  The checksum flags, which \<open>rxq_rehash()\<close> writes to the template and to the queue
  itself before anything else.
\<close>

definition rehash_csum :: "priv \<Rightarrow> rxmode \<Rightarrow> rxq \<Rightarrow> rxq" where
  "rehash_csum priv conf rxq' =
     (let rxq1 = (if hw_csum priv then rxq'\<lparr>csum := hw_ip_checksum conf\<rparr> else rxq')
      in if hw_csum_l2tun priv then rxq1\<lparr>csum_l2tun := hw_ip_checksum conf\<rparr> else rxq1)"

text \<open>The mbufs of the original queue, in the order in which they are snatched.\<close>

definition rehash_pool :: "rxq \<Rightarrow> nat option list" where
  "rehash_pool rxq' =
     (if sp rxq'
      then (case elts rxq' of Some (SP xs) \<Rightarrow> concat (map bufs xs) | _ \<Rightarrow> [])
      else (case elts rxq' of Some (NO_SP xs) \<Rightarrow> map buf xs | _ \<Rightarrow> []))"

text \<open>
  \<open>rxq_rehash()\<close>. \<open>tmpl\<close> is the copy of the queue the function works on. The
  number of descriptors is an \<open>unsigned int\<close>: the product wraps around at \<open>2 ^ 32\<close>.
  The loops that post the new work requests run over \<open>elemof(*elts)\<close> for an array type
  sized by \<open>rxq->elts_n\<close>, which the function has just set to 0.
\<close>

definition rxq_rehash :: "defs \<Rightarrow> priv \<Rightarrow> rxmode \<Rightarrow> rxq \<times> env \<Rightarrow> errno \<times> rxq \<times> env" where
  "rxq_rehash d priv conf = (\<lambda>(rxq0, e).
     let desc_n0 = unat ((of_nat (elts_n rxq0) :: 32 word)
                          * (if sp rxq0 then of_nat (MLX5_PMD_SGE_WR_N d) else 1));
         rxq' = rehash_csum priv conf rxq0;
         tmpl = (rehash_csum priv conf rxq0)\<lparr>sp := rehash_sp d conf rxq0\<rparr>;
         desc_n = (if rehash_sp d conf rxq0 then desc_n0 div MLX5_PMD_SGE_WR_N d else desc_n0)
     in if sp tmpl = sp rxq' then (0, rxq', e)
        else
          (case ibv_exp_modify_wq (wq tmpl) IBV_EXP_WQS_RESET e of
             (err, e1) \<Rightarrow>
               if err \<noteq> 0 then (err, rxq', e1)
               else
                 (case ibv_resize_cq (cq tmpl) desc_n e1 of
                    (err, e2) \<Rightarrow>
                      if err \<noteq> 0 then (err, rxq', e2)
                      else
                        (case rte_calloc e2 of
                           (False, e3) \<Rightarrow> (ENOBUFS, rxq', e3)
                         | (True, e3) \<Rightarrow>
                             (let pool = rehash_pool rxq';
                                  tmpl1 = tmpl\<lparr>elts_n := 0, elts := None\<rparr>
                              in case (if sp tmpl1
                                       then rxq_alloc_elts_sp d tmpl1 desc_n (Some pool) e3
                                       else rxq_alloc_elts d tmpl1 desc_n (Some pool) e3) of
                                   (err, tmpl2, e4) \<Rightarrow>
                                     if err \<noteq> 0 then (err, rxq', rte_free e4)
                                     else
                                       (let e5 = rte_free (rte_free e4);
                                            rxq2 = rxq'\<lparr>elts_n := 0, elts := None\<rparr>
                                        in case ibv_exp_modify_wq (wq tmpl2) IBV_EXP_WQS_RDY e5 of
                                             (err, e6) \<Rightarrow>
                                               if err \<noteq> 0 then (err, tmpl2, e6)
                                               else
                                                 (case post_sges (wq tmpl2)
                                                         (case elts tmpl2 of
                                                            Some (SP xs) \<Rightarrow> map sges xs
                                                          | Some (NO_SP xs) \<Rightarrow> map (\<lambda>x. [sge x]) xs
                                                          | None \<Rightarrow> [])
                                                         [0..<elts_n rxq2] e6 of
                                                    (err, e7) \<Rightarrow>
                                                      if err \<noteq> 0 then (EIO, tmpl2, e7)
                                                      else (0, tmpl2, e7))))))))"

section \<open>Auxiliary notions for the statements\<close>

text \<open>Two device structures that differ at most in their hash RX queues.\<close>

definition hash_rxqs_only :: "priv \<Rightarrow> priv \<Rightarrow> bool" where
  "hash_rxqs_only p p' \<longleftrightarrow> p' = p\<lparr>hash_rxqs := hash_rxqs p'\<rparr>"

text \<open>Two hash RX queues that differ at most in their MAC flows.\<close>

definition mac_only :: "hash_rxq \<Rightarrow> hash_rxq \<Rightarrow> bool" where
  "mac_only q q' \<longleftrightarrow>
     q' = q\<lparr>mac_flow := mac_flow q', rxq_mac_configured := rxq_mac_configured q'\<rparr>"

text \<open>The address \<open>a\<close> is held by a configured slot other than \<open>i\<close>.\<close>

definition configured_elsewhere :: "priv \<Rightarrow> nat \<Rightarrow> ether_addr \<Rightarrow> bool" where
  "configured_elsewhere priv i a \<longleftrightarrow>
     (\<exists>j < length (mac priv). j \<noteq> i \<and> j \<in> mac_configured priv \<and> mac priv ! j = a)"


text \<open>
  Between the states \<open>e\<close> and \<open>e'\<close> every request was granted; and: the first request
  that was not granted was refused with \<open>errno = err\<close>, and nothing was requested after it.
\<close>

definition granted_all :: "env \<Rightarrow> env \<Rightarrow> bool" where
  "granted_all e e' \<longleftrightarrow> (\<exists>gs. outcomes e = gs @ outcomes e' \<and> set gs \<subseteq> {Granted})"

definition refused_first :: "env \<Rightarrow> env \<Rightarrow> errno \<Rightarrow> bool" where
  "refused_first e e' err \<longleftrightarrow>
     (\<exists>gs. outcomes e = gs @ Refused err # outcomes e' \<and> set gs \<subseteq> {Granted})"

text \<open>
  The MAC rules of a hash RX queue. No VLAN filter is enabled; the VLAN index \<open>v\<close> is one
  at which a MAC address has a flow (index 0 when no filter is enabled, the indices of the
  enabled filters otherwise); the rule (queue pair and attribute) that the configuration
  of the device calls for at index \<open>(m, v)\<close> of the queue; the rule the queue has there.
\<close>

definition no_vlan :: "priv \<Rightarrow> bool" where
  "no_vlan p \<longleftrightarrow> list_all (\<lambda>f. \<not> enabled f) (vlan_filter p)"

definition vlan_slot :: "priv \<Rightarrow> nat \<Rightarrow> bool" where
  "vlan_slot p v \<longleftrightarrow>
     (if no_vlan p then v = 0 else v < length (vlan_filter p) \<and> enabled (vlan_filter p ! v))"

definition mac_rule ::
  "priv \<Rightarrow> hash_rxq \<Rightarrow> nat \<times> nat \<Rightarrow> (ibv_qp option \<times> ibv_flow_attr) option" where
  "mac_rule p q = (\<lambda>(m, v).
     if m < length (mac p) \<and> m \<in> mac_configured p \<and> vlan_slot p v
     then Some (qp q, mac_flow_attr p (type q) m (if no_vlan p then None else Some v))
     else None)"

definition rules_of ::
  "hash_rxq \<Rightarrow> nat \<times> nat \<Rightarrow> (ibv_qp option \<times> ibv_flow_attr) option" where
  "rules_of q = (\<lambda>mv. map_option (\<lambda>f. (flow_qp f, flow_attr f)) (mac_flow q mv))"

text \<open>
  Every MAC flow of the queue is at an index of the arrays, at a VLAN index in use, and
  for an address at least \<open>k\<close> whose bit is set in the queue.
\<close>

definition flows_marked :: "priv \<Rightarrow> nat \<Rightarrow> hash_rxq \<Rightarrow> bool" where
  "flows_marked p k q \<longleftrightarrow>
     (\<forall>m v. mac_flow q (m, v) \<noteq> None \<longrightarrow>
        k \<le> m \<and> m < length (mac p) \<and> m \<in> rxq_mac_configured q \<and> vlan_slot p v)"

text \<open>
  The queue holds exactly the MAC rules that the configuration calls for, and knows so.
\<close>

definition mac_flows_in_place :: "priv \<Rightarrow> hash_rxq \<Rightarrow> bool" where
  "mac_flows_in_place p q \<longleftrightarrow>
     rules_of q = mac_rule p q
     \<and> (\<forall>m<length (mac p). m \<in> mac_configured p \<longrightarrow> m \<in> rxq_mac_configured q)"

text \<open>
  The status \<open>ret\<close> is the one of the requests made between the states \<open>e\<close> and \<open>e'\<close>:
  0 when every request was granted, and otherwise the \<open>errno\<close> of the refusal that ended
  them (\<open>EINVAL\<close> when \<open>errno\<close> was not set).
\<close>

definition request_status :: "env \<Rightarrow> env \<Rightarrow> errno \<Rightarrow> bool" where
  "request_status e e' ret \<longleftrightarrow>
     (if ret = 0 then granted_all e e'
      else (\<exists>x. refused_first e e' x \<and> ret = (if x \<noteq> 0 then x else EINVAL)))"

text \<open>
  The flows a hash RX queue points to: its MAC flows, over the MAC indices of the device
  and the VLAN indices in use, then its promiscuous and its all-multicast flow; and the
  flows all the queues of the device point to.
\<close>

definition vlan_slots :: "priv \<Rightarrow> nat list" where
  "vlan_slots p =
     (if no_vlan p then [0]
      else filter (\<lambda>i. enabled (vlan_filter p ! i)) [0..<length (vlan_filter p)])"

definition mac_flows :: "priv \<Rightarrow> hash_rxq \<Rightarrow> ibv_exp_flow list" where
  "mac_flows p q =
     List.map_filter (mac_flow q) (List.product [0..<length (mac p)] (vlan_slots p))"

definition queue_flows :: "priv \<Rightarrow> hash_rxq \<Rightarrow> ibv_exp_flow list" where
  "queue_flows p q =
     mac_flows p q @ (case promisc_flow q of None \<Rightarrow> [] | Some f \<Rightarrow> [f])
       @ (case allmulti_flow q of None \<Rightarrow> [] | Some f \<Rightarrow> [f])"

definition driver_flows :: "priv \<Rightarrow> ibv_exp_flow list" where
  "driver_flows p = concat (map (queue_flows p) (hash_rxqs p))"

text \<open>
  Every MAC flow of the queue is at an index of the arrays and at a VLAN index in use.
  The device in step with a queue: it holds every flow the queue points to, once, next to
  the flows \<open>R\<close>. The device in step with the driver: it holds the flows all the queues
  point to, once each, next to the flows \<open>R\<close>, and every queue knows the addresses it has
  flows for.
\<close>

definition flows_in_grid :: "priv \<Rightarrow> hash_rxq \<Rightarrow> bool" where
  "flows_in_grid p q \<longleftrightarrow>
     (\<forall>m v. mac_flow q (m, v) \<noteq> None \<longrightarrow> m < length (mac p) \<and> vlan_slot p v)"

definition queue_in_step :: "priv \<Rightarrow> hash_rxq \<Rightarrow> env \<Rightarrow> ibv_exp_flow multiset \<Rightarrow> bool" where
  "queue_in_step p q e R \<longleftrightarrow>
     flows_in_grid p q \<and> mset (flows e) = mset (queue_flows p q) + R"

definition hw_in_step :: "priv \<Rightarrow> env \<Rightarrow> ibv_exp_flow multiset \<Rightarrow> bool" where
  "hw_in_step p e R \<longleftrightarrow>
     (\<forall>q\<in>set (hash_rxqs p). flows_marked p 0 q)
     \<and> mset (flows e) = mset (driver_flows p) + R"

text \<open>The hardware refuses at most one of the requests to come.\<close>

definition refuses_at_most_once :: "env \<Rightarrow> bool" where
  "refuses_at_most_once e \<longleftrightarrow> length (filter (\<lambda>x. x \<noteq> Granted) (outcomes e)) \<le> 1"

text \<open>
  Two hash RX queues that differ at most in the flows of the address \<open>m\<close> and in the
  addresses they have marked. The rule of the address \<open>m\<close> on the queue \<open>q\<close> at the
  VLAN index \<open>v\<close>: one rule for each VLAN index in use.
\<close>

definition row_only :: "nat \<Rightarrow> hash_rxq \<Rightarrow> hash_rxq \<Rightarrow> bool" where
  "row_only m q q' \<longleftrightarrow>
     mac_only q q' \<and> (\<forall>m' v. m' \<noteq> m \<longrightarrow> mac_flow q' (m', v) = mac_flow q (m', v))"

definition new_rule ::
  "priv \<Rightarrow> nat \<Rightarrow> hash_rxq \<Rightarrow> nat \<Rightarrow> (ibv_qp option \<times> ibv_flow_attr) option" where
  "new_rule p m q v =
     (if vlan_slot p v
      then Some (qp q, mac_flow_attr p (type q) m (if no_vlan p then None else Some v))
      else None)"

section \<open>Example devices\<close>

text \<open>
  A stopped device with two MAC slots, the first one configured, one disabled VLAN
  filter and no hash RX queue; and a device that grants every request.
\<close>

definition addr_a :: ether_addr where "addr_a = (2, 0, 0, 0, 0, 1)"
definition addr_b :: ether_addr where "addr_b = (2, 0, 0, 0, 0, 2)"

definition priv_stopped :: priv where
  "priv_stopped =
     \<lparr>mac = [addr_a, (0, 0, 0, 0, 0, 0)], mac_configured = {0},
      vlan_filter = [\<lparr>enabled = False, vlan_id = 0\<rparr>],
      started = False, promisc = False, promisc_req = False,
      allmulti = False, allmulti_req = False, vf = False, port = 1,
      hw_csum = False, hw_csum_l2tun = False,
      rxqs_n = 0, rxqs = [], ind_table_max_size = 8, ind_tables = [], hash_rxqs = []\<rparr>"

definition mbuf_zero :: rte_mbuf where
  "mbuf_zero = \<lparr>buf_addr = 0, buf_len = 0, data_off = 0, data_len = 0, pkt_len = 0\<rparr>"

definition env_granting :: env where
  "env_granting =
     \<lparr>outcomes = [], next_handle = 1, flows = [], qps = [], rwq_ind_tables = [],
      wq_state = (\<lambda>_. IBV_EXP_WQS_RDY), cq_size = (\<lambda>_. 0), posted = [], allocated = 0,
      mbufs = (\<lambda>_. mbuf_zero), mp_free = []\<rparr>"

text \<open>
  The same device with three RX queues, on the work queues 11, 12 and 13, and a
  hardware maximum of 8 entries for an indirection table.
\<close>

definition rxq_on :: "nat \<Rightarrow> rxq" where
  "rxq_on w =
     \<lparr>mr = \<lparr>mr_lkey = 0\<rparr>, cq = w + 10, wq = w, elts_n = 0, elts_head = 0, elts = None,
      sp = False, csum = False, csum_l2tun = False, mb_len = 2048, socket = 0\<rparr>"


text \<open>
  The constants as DPDK defines them, a mempool with three free mbufs, and an RX queue in
  non-scattered mode with a ring of four work requests on the mbufs 200 to 203.
\<close>

definition defs_std :: defs where
  "defs_std = \<lparr>MLX5_PMD_SGE_WR_N = 4, RTE_PKTMBUF_HEADROOM = 128\<rparr>"

definition env_three_bufs :: env where
  "env_three_bufs = env_granting\<lparr>mp_free := [100, 101, 102]\<rparr>"

definition rxq_live :: rxq where
  "rxq_live =
     (rxq_on 11)\<lparr>elts_n := 4,
                   elts := Some (NO_SP (map (\<lambda>b. \<lparr>sge = sge_zero, buf = Some b\<rparr>)
                                          [200, 201, 202, 203]))\<rparr>"

text \<open>
  A device with checksum offload, a configuration that asks for checksums and for jumbo
  frames of 9000 bytes, and devices that refuse the third or the fourth request.
\<close>

definition priv_csum :: priv where
  "priv_csum = priv_stopped\<lparr>hw_csum := True\<rparr>"

definition conf_jumbo :: rxmode where
  "conf_jumbo = \<lparr>hw_ip_checksum = True, jumbo_frame = True, max_rx_pkt_len = 9000\<rparr>"

definition env_third_refused :: env where
  "env_third_refused = env_granting\<lparr>outcomes := [Granted, Granted, Refused 12]\<rparr>"

definition env_fourth_refused :: env where
  "env_fourth_refused = env_granting\<lparr>outcomes := [Granted, Granted, Granted, Refused 12]\<rparr>"


text \<open>
  A device with two hash RX queues on the queue pairs 21 and 22, the same device as a
  virtual function, and a device that grants one request and refuses the second with
  \<open>errno = 5\<close>.
\<close>

definition qp_on :: "nat \<Rightarrow> ibv_qp" where
  "qp_on h = \<lparr>qp_handle = h, rx_hash_type = HASH_RXQ_ETH, rwq_ind_tbl = None, qp_port = 1\<rparr>"

definition hash_rxq_on :: "nat \<Rightarrow> hash_rxq" where
  "hash_rxq_on h = hash_rxq_zero\<lparr>qp := Some (qp_on h), type := HASH_RXQ_ETH\<rparr>"

definition priv_two_queues :: priv where
  "priv_two_queues = priv_stopped\<lparr>hash_rxqs := [hash_rxq_on 21, hash_rxq_on 22]\<rparr>"

definition priv_vf :: priv where
  "priv_vf = priv_two_queues\<lparr>vf := True\<rparr>"

definition env_second_refused :: env where
  "env_second_refused = env_granting\<lparr>outcomes := [Granted, Refused 5]\<rparr>"

text \<open>
  A started device with one hash RX queue that holds the flow of the configured address,
  the same device as a virtual function, and the hardware with that flow.
\<close>

definition flow_a :: ibv_exp_flow where
  "flow_a = \<lparr>handle = 1, flow_qp = Some (qp_on 21),
              flow_attr = mac_flow_attr priv_stopped HASH_RXQ_ETH 0 None\<rparr>"

definition hash_rxq_a :: hash_rxq where
  "hash_rxq_a = (hash_rxq_on 21)\<lparr>mac_flow := (\<lambda>_. None)((0, 0) \<mapsto> flow_a),
                                  rxq_mac_configured := {0}\<rparr>"

definition priv_started :: priv where
  "priv_started = priv_stopped\<lparr>started := True, hash_rxqs := [hash_rxq_a]\<rparr>"

definition priv_started_vf :: priv where
  "priv_started_vf = priv_started\<lparr>vf := True\<rparr>"

definition env_one_flow :: env where
  "env_one_flow = env_granting\<lparr>next_handle := 2, flows := [flow_a]\<rparr>"

text \<open>The hardware with that flow, when it refuses the next request with \<open>errno = 5\<close>.\<close>

definition env_one_flow_refusing :: env where
  "env_one_flow_refusing = env_one_flow\<lparr>outcomes := [Refused 5]\<rparr>"






section \<open>Properties of MAC address filtering\<close>

subsection \<open>Only the hash RX queues change\<close>

lemma hash_rxqs_only_refl [simp]: "hash_rxqs_only p p"
  by (simp add: hash_rxqs_only_def)

lemma hash_rxqs_only_trans: "hash_rxqs_only p p1 \<Longrightarrow> hash_rxqs_only p1 p2 \<Longrightarrow> hash_rxqs_only p p2"
  by (cases p; cases p1; cases p2) (simp add: hash_rxqs_only_def)

lemma hash_rxqs_only_upd [simp]: "hash_rxqs_only p (p\<lparr>hash_rxqs := x\<rparr>)"
  by (simp add: hash_rxqs_only_def)

lemma hash_rxqs_only_fields:
  assumes "hash_rxqs_only p p'"
  shows "mac p' = mac p \<and> mac_configured p' = mac_configured p \<and> started p' = started p
    \<and> vlan_filter p' = vlan_filter p \<and> promisc p' = promisc p \<and> allmulti p' = allmulti p \<and> vf p' = vf p"
  using assms by (cases p; cases p'; simp add: hash_rxqs_only_def)

lemma on_hash_rxq_only:
  "on_hash_rxq i f (p, e) = (p', e') \<Longrightarrow> hash_rxqs_only p p'"
  by (auto simp: on_hash_rxq_def split: prod.splits)

lemma fold_on_hash_rxq_only:
  "fold (\<lambda>i. on_hash_rxq i (f i)) is (p, e) = (p', e') \<Longrightarrow> hash_rxqs_only p p'"
proof (induction "is" arbitrary: p e)
  case Nil then show ?case by simp
next
  case (Cons i "is")
  obtain p1 e1 where s: "on_hash_rxq i (f i) (p, e) = (p1, e1)" by (cases "on_hash_rxq i (f i) (p, e)")
  with Cons.prems have "fold (\<lambda>i. on_hash_rxq i (f i)) is (p1, e1) = (p', e')" by simp
  from Cons.IH [OF this] on_hash_rxq_only [OF s] show ?case by (rule hash_rxqs_only_trans [rotated])
qed

lemma priv_mac_addr_del_shadow:
  assumes "priv_mac_addr_del i (p, e) = (p', e')"
  shows "mac p' = mac p \<and> mac_configured p' = mac_configured p - {i} \<and> started p' = started p"
proof (cases "i \<in> mac_configured p")
  case False
  with assms show ?thesis by (auto simp: priv_mac_addr_del_def)
next
  case True
  obtain p1 e1 where f: "fold (\<lambda>i'. on_hash_rxq i' (\<lambda>p. hash_rxq_mac_addr_del p i))
                  [0..<length (hash_rxqs p)] (p, e) = (p1, e1)"
    by (cases "fold (\<lambda>i'. on_hash_rxq i' (\<lambda>p. hash_rxq_mac_addr_del p i))
                  [0..<length (hash_rxqs p)] (p, e)")
  from fold_on_hash_rxq_only [OF f] have "hash_rxqs_only p p1" .
  note flds = hash_rxqs_only_fields [OF this]
  have "priv_mac_addr_del i (p, e) = (p1\<lparr>mac_configured := mac_configured p1 - {i}\<rparr>, e1)"
    unfolding priv_mac_addr_del_def prod.case using True f by simp
  with assms have "p' = p1\<lparr>mac_configured := mac_configured p1 - {i}\<rparr>" by simp
  with flds show ?thesis by simp
qed

lemma priv_mac_addr_add_rollback_only:
  "priv_mac_addr_add_rollback m i (p, e) = (p', e') \<Longrightarrow> hash_rxqs_only p p'"
proof (induction i arbitrary: p e)
  case 0 then show ?case by simp
next
  case (Suc i)
  obtain p1 e1 where s: "on_hash_rxq i (\<lambda>p. hash_rxq_mac_addr_del p m) (p, e) = (p1, e1)"
    by (cases "on_hash_rxq i (\<lambda>p. hash_rxq_mac_addr_del p m) (p, e)")
  with Suc.prems have "priv_mac_addr_add_rollback m i (p1, e1) = (p', e')" by simp
  from Suc.IH [OF this] on_hash_rxq_only [OF s] show ?case by (rule hash_rxqs_only_trans [rotated])
qed

lemma priv_mac_addr_add_loop_only:
  "priv_mac_addr_add_loop m is (p, e) = (ret, p', e') \<Longrightarrow> hash_rxqs_only p p'"
proof (induction "is" arbitrary: p e)
  case Nil then show ?case by simp
next
  case (Cons i "is")
  obtain r q e1 where a: "hash_rxq_mac_addr_add p m (hash_rxqs p ! i, e) = (r, q, e1)"
    by (cases "hash_rxq_mac_addr_add p m (hash_rxqs p ! i, e)")
  let ?p1 = "p\<lparr>hash_rxqs := (hash_rxqs p)[i := q]\<rparr>"
  have 1: "hash_rxqs_only p ?p1" by simp
  show ?case
  proof (cases "r = 0")
    case True
    with Cons.prems a have "priv_mac_addr_add_loop m is (?p1, e1) = (ret, p', e')" by simp
    from Cons.IH [OF this] 1 show ?thesis by (rule hash_rxqs_only_trans [rotated])
  next
    case False
    with Cons.prems a have "priv_mac_addr_add_rollback m i (?p1, e1) = (p', e')" by simp
    from priv_mac_addr_add_rollback_only [OF this] 1 show ?thesis by (rule hash_rxqs_only_trans [rotated])
  qed
qed

lemma configured_elsewhere_list_ex:
  "list_ex (\<lambda>j. j \<noteq> i \<and> j \<in> mac_configured priv \<and> mac priv ! j = a) [0..<length (mac priv)]
   \<longleftrightarrow> configured_elsewhere priv i a"
  by (auto simp: configured_elsewhere_def list_ex_iff)

lemma priv_mac_addr_add_unfold:
  assumes "\<not> configured_elsewhere p i a"
    and "(if i \<in> mac_configured p then priv_mac_addr_del i (p, e) else (p, e)) = (p1, e1)"
    and "p2 = p1\<lparr>mac := (mac p1)[i := a]\<rparr>"
  shows "priv_mac_addr_add i a (p, e) =
     (if \<not> started p2 then (0, p2\<lparr>mac_configured := insert i (mac_configured p2)\<rparr>, e1)
      else (case priv_mac_addr_add_loop i [0..<length (hash_rxqs p2)] (p2, e1) of
              (ret, priv3, e3) \<Rightarrow>
                 if ret \<noteq> 0 then (ret, priv3, e3)
                 else (0, priv3\<lparr>mac_configured := insert i (mac_configured priv3)\<rparr>, e3)))"
  using assms(1) unfolding priv_mac_addr_add_def configured_elsewhere_list_ex prod.case assms(2) assms(3) Let_def
  by simp

lemma priv_mac_addr_add_shadow:
  assumes "priv_mac_addr_add i a (p, e) = (ret, p', e')" and "\<not> configured_elsewhere p i a"
  shows "mac p' = (mac p)[i := a] \<and>
     mac_configured p' = (if ret = 0 then insert i (mac_configured p) else mac_configured p - {i})"
proof -
  obtain p1 e1 where d: "(if i \<in> mac_configured p then priv_mac_addr_del i (p, e) else (p, e)) = (p1, e1)"
    by (cases "(if i \<in> mac_configured p then priv_mac_addr_del i (p, e) else (p, e))")
  have p1: "mac p1 = mac p" "mac_configured p1 = mac_configured p - {i}" "started p1 = started p"
    using d priv_mac_addr_del_shadow [of i p e p1 e1] by (auto split: if_splits)
  define p2 where "p2 = p1\<lparr>mac := (mac p1)[i := a]\<rparr>"
  have p2: "mac p2 = (mac p)[i := a]" "mac_configured p2 = mac_configured p - {i}" "started p2 = started p"
    using p1 by (simp_all add: p2_def)
  note u = priv_mac_addr_add_unfold [OF assms(2) d p2_def]
  show ?thesis
  proof (cases "started p")
    case False
    with assms(1) u p2 have "ret = 0" "p' = p2\<lparr>mac_configured := insert i (mac_configured p2)\<rparr>"
      by simp_all
    with p2 show ?thesis by simp
  next
    case True
    obtain r p3 e3 where l: "priv_mac_addr_add_loop i [0..<length (hash_rxqs p2)] (p2, e1) = (r, p3, e3)"
      by (cases "priv_mac_addr_add_loop i [0..<length (hash_rxqs p2)] (p2, e1)")
    from priv_mac_addr_add_loop_only [OF l] have "hash_rxqs_only p2 p3" .
    from hash_rxqs_only_fields [OF this] have p3: "mac p3 = mac p2" "mac_configured p3 = mac_configured p2"
      by simp_all
    from assms(1) u True l p2 have "ret = r \<and> p' = (if r \<noteq> 0 then p3 else p3\<lparr>mac_configured := insert i (mac_configured p3)\<rparr>)"
      by (simp split: if_splits)
    with p3 p2 show ?thesis by auto
  qed
qed


lemma priv_mac_addr_add_stopped:
  assumes "priv_mac_addr_add i a (p, e) = (ret, p', e')" and "\<not> configured_elsewhere p i a"
    and "\<not> started p"
  shows "ret = 0"
proof -
  obtain p1 e1 where d: "(if i \<in> mac_configured p then priv_mac_addr_del i (p, e) else (p, e)) = (p1, e1)"
    by (cases "(if i \<in> mac_configured p then priv_mac_addr_del i (p, e) else (p, e))")
  have p1: "started p1 = started p"
    using d priv_mac_addr_del_shadow [of i p e p1 e1] by (auto split: if_splits)
  define p2 where "p2 = p1\<lparr>mac := (mac p1)[i := a]\<rparr>"
  have p2: "started p2 = started p"
    using p1 by (simp_all add: p2_def)
  note u = priv_mac_addr_add_unfold [OF assms(2) d p2_def]
  with assms(1,3) p2 show ?thesis by simp
qed

text \<open>
  Claim C2, as stated, fails: \<open>priv_mac_addr_add()\<close>, the only function of the add
  path that returns a status, does not look at the address at all. Given the broadcast
  address it returns 0 and configures the slot.
\<close>

theorem priv_mac_addr_add_broadcast_accepted:
  "priv_mac_addr_add 1 broadcast (priv_stopped, env_granting) =
     (0, priv_stopped\<lparr>mac := [addr_a, broadcast], mac_configured := {0, 1}\<rparr>, env_granting)"
  by (simp add: priv_mac_addr_add_def priv_stopped_def broadcast_def addr_a_def insert_commute)

text \<open>
  Claim C2, amended: the callback \<open>mlx5_mac_addr_add()\<close> refuses the broadcast address
  at every index and in every state by doing nothing: the device structure and the
  hardware are unchanged. The callback has no return value, so no error code is reported.
\<close>

theorem mlx5_mac_addr_add_broadcast:
  "mlx5_mac_addr_add broadcast i vmdq (priv, e) = (priv, e)"
  by (simp add: mlx5_mac_addr_add_def)

text \<open>The example device: slot 0 holds \<open>addr_a\<close>, slot 1 is free.\<close>

lemma configured_elsewhere_stopped_1: "configured_elsewhere priv_stopped 1 addr_a"
  unfolding configured_elsewhere_def by (rule exI [of _ 0]) (simp add: priv_stopped_def)

lemma not_configured_elsewhere_stopped_0: "\<not> configured_elsewhere priv_stopped 0 a"
  by (auto simp: configured_elsewhere_def priv_stopped_def)

lemma not_configured_elsewhere_stopped_b: "\<not> configured_elsewhere priv_stopped i addr_b"
  by (auto simp: configured_elsewhere_def priv_stopped_def addr_a_def addr_b_def less_Suc_eq)

text \<open>
  Claim C9, as stated, fails: \<open>priv_mac_addr_del()\<close> clears the configured bit only, the
  address bytes written by the add stay in the slot. On the example device, adding
  \<open>addr_b\<close> at the free slot 1 and removing it leaves \<open>addr_b\<close> where zeros were.
\<close>

theorem mac_add_del_not_restored:
  "\<not> (case priv_mac_addr_add 1 addr_b (priv_stopped, env_granting) of (ret, s) \<Rightarrow>
           (case priv_mac_addr_del 1 s of (priv', e') \<Rightarrow>
              mac priv' = mac priv_stopped \<and> mac_configured priv' = mac_configured priv_stopped))"
  by (simp add: priv_mac_addr_add_def priv_mac_addr_del_def priv_stopped_def addr_a_def addr_b_def)

text \<open>
  Claim C9, amended: for a valid index \<open>i\<close> and an address \<open>a\<close> not configured at any
  other slot, \<open>priv_mac_addr_add i a\<close> followed by \<open>priv_mac_addr_del i\<close> leaves the
  address bytes of every other slot as they were and slot \<open>i\<close> holding \<open>a\<close>, and leaves
  the configured flags as they were except that the one of slot \<open>i\<close> is clear (so they are
  restored exactly when slot \<open>i\<close> was not configured before).
\<close>

theorem mac_add_del_shadow:
  assumes "i < length (mac priv)" and "\<not> configured_elsewhere priv i a"
  shows "case priv_mac_addr_add i a (priv, e) of (ret, s) \<Rightarrow>
           (case priv_mac_addr_del i s of (priv', e') \<Rightarrow>
              mac priv' = (mac priv)[i := a] \<and> mac_configured priv' = mac_configured priv - {i})"
proof -
  obtain ret p1 e1 where a: "priv_mac_addr_add i a (priv, e) = (ret, p1, e1)"
    by (cases "priv_mac_addr_add i a (priv, e)")
  obtain p2 e2 where d: "priv_mac_addr_del i (p1, e1) = (p2, e2)"
    by (cases "priv_mac_addr_del i (p1, e1)")
  from priv_mac_addr_add_shadow [OF a assms(2)] priv_mac_addr_del_shadow [OF d]
  show ?thesis using a d by auto
qed

text \<open>Claim C9, amended, on the example device.\<close>

theorem mac_add_del_shadow_witness:
  "1 < length (mac priv_stopped) \<and> \<not> configured_elsewhere priv_stopped 1 addr_b \<and>
   (case priv_mac_addr_add 1 addr_b (priv_stopped, env_granting) of (ret, s) \<Rightarrow>
           (case priv_mac_addr_del 1 s of (priv', e') \<Rightarrow>
              mac priv' = (mac priv_stopped)[1 := addr_b] \<and>
              mac_configured priv' = mac_configured priv_stopped - {1}))"
proof -
  have l: "1 < length (mac priv_stopped)" by (simp add: priv_stopped_def)
  from mac_add_del_shadow [OF l not_configured_elsewhere_stopped_b, of env_granting]
    l not_configured_elsewhere_stopped_b [of 1]
  show ?thesis by simp
qed

section \<open>Properties of the construction of hash RX queues\<close>

subsection \<open>Powers of two and \<open>log2above\<close>\<close>



















subsection \<open>The array of work queues\<close>


subsection \<open>Requests and their outcomes\<close>

lemma granted_all_refl [simp]: "granted_all e e"
  by (simp add: granted_all_def)

lemma granted_all_same: "outcomes e' = outcomes e \<Longrightarrow> granted_all e e'"
  by (simp add: granted_all_def)

lemma granted_all_trans: "granted_all e e1 \<Longrightarrow> granted_all e1 e2 \<Longrightarrow> granted_all e e2"
proof -
  assume "granted_all e e1" "granted_all e1 e2"
  then obtain gs hs where "outcomes e = gs @ outcomes e1" "set gs \<subseteq> {Granted}"
    "outcomes e1 = hs @ outcomes e2" "set hs \<subseteq> {Granted}"
    by (auto simp: granted_all_def)
  then have "outcomes e = (gs @ hs) @ outcomes e2" "set (gs @ hs) \<subseteq> {Granted}" by auto
  then show ?thesis unfolding granted_all_def by blast
qed

lemma granted_refused_trans:
  "granted_all e e1 \<Longrightarrow> refused_first e1 e2 x \<Longrightarrow> refused_first e e2 x"
proof -
  assume "granted_all e e1" "refused_first e1 e2 x"
  then obtain gs hs where "outcomes e = gs @ outcomes e1" "set gs \<subseteq> {Granted}"
    "outcomes e1 = hs @ Refused x # outcomes e2" "set hs \<subseteq> {Granted}"
    by (auto simp: granted_all_def refused_first_def)
  then have "outcomes e = (gs @ hs) @ Refused x # outcomes e2" "set (gs @ hs) \<subseteq> {Granted}" by auto
  then show ?thesis unfolding refused_first_def by blast
qed

lemma refused_first_same:
  "refused_first e e1 x \<Longrightarrow> outcomes e2 = outcomes e1 \<Longrightarrow> refused_first e e2 x"
  by (simp add: refused_first_def)

lemma next_outcome_Granted:
  assumes "next_outcome e = (Granted, e')"
  shows "granted_all e e' \<and> e' = e\<lparr>outcomes := outcomes e'\<rparr>"
proof (cases "outcomes e")
  case Nil
  with assms show ?thesis by (simp add: next_outcome_def)
next
  case (Cons x xs)
  with assms have "x = Granted" "e' = e\<lparr>outcomes := xs\<rparr>" by (simp_all add: next_outcome_def)
  with Cons have "outcomes e = [Granted] @ outcomes e'" by simp
  then have "granted_all e e'" unfolding granted_all_def by (intro exI [of _ "[Granted]"]) simp
  with \<open>e' = e\<lparr>outcomes := xs\<rparr>\<close> show ?thesis by simp
qed

lemma next_outcome_Refused:
  assumes "next_outcome e = (Refused x, e')"
  shows "refused_first e e' x \<and> e' = e\<lparr>outcomes := outcomes e'\<rparr>"
proof (cases "outcomes e")
  case Nil
  with assms show ?thesis by (simp add: next_outcome_def)
next
  case (Cons y ys)
  with assms have "y = Refused x" "e' = e\<lparr>outcomes := ys\<rparr>" by (simp_all add: next_outcome_def)
  with Cons have "outcomes e = [] @ Refused x # outcomes e'" by simp
  then have "refused_first e e' x" unfolding refused_first_def by (intro exI [of _ "[]"]) simp
  with \<open>e' = e\<lparr>outcomes := ys\<rparr>\<close> show ?thesis by simp
qed

lemma rte_calloc_True:
  assumes "rte_calloc e = (True, e')"
  shows "granted_all e e' \<and> allocated e' = allocated e + 1 \<and> qps e' = qps e
         \<and> rwq_ind_tables e' = rwq_ind_tables e \<and> flows e' = flows e \<and> mp_free e' = mp_free e \<and> mbufs e' = mbufs e"
proof -
  obtain r e1 where n: "next_outcome e = (r, e1)" by (cases "next_outcome e")
  with assms have r: "r = Granted" and e': "e' = e1\<lparr>allocated := allocated e1 + 1\<rparr>"
    by (cases r; simp add: rte_calloc_def)+
  from next_outcome_Granted [OF n [unfolded r]] have g: "granted_all e e1" and e1: "e1 = e\<lparr>outcomes := outcomes e1\<rparr>"
    by simp_all
  have "outcomes e' = outcomes e1" using e' by simp
  with g have "granted_all e e'" by (simp add: granted_all_def)
  moreover have "allocated e1 = allocated e" "qps e1 = qps e" "rwq_ind_tables e1 = rwq_ind_tables e"
    "flows e1 = flows e" "mp_free e1 = mp_free e" "mbufs e1 = mbufs e"
    by (subst e1, simp)+
  ultimately show ?thesis using e' by simp
qed

lemma rte_calloc_False:
  assumes "rte_calloc e = (False, e')"
  shows "(\<exists>x. refused_first e e' x) \<and> allocated e' = allocated e \<and> qps e' = qps e
         \<and> rwq_ind_tables e' = rwq_ind_tables e \<and> flows e' = flows e \<and> mp_free e' = mp_free e \<and> mbufs e' = mbufs e"
proof -
  obtain r e1 where n: "next_outcome e = (r, e1)" by (cases "next_outcome e")
  with assms obtain x where r: "r = Refused x" and e': "e' = e1"
    by (cases r; simp add: rte_calloc_def)
  from next_outcome_Refused [OF n [unfolded r]] have g: "refused_first e e1 x" and e1: "e1 = e\<lparr>outcomes := outcomes e1\<rparr>"
    by simp_all
  have "allocated e1 = allocated e" "qps e1 = qps e" "rwq_ind_tables e1 = rwq_ind_tables e"
    "flows e1 = flows e" "mp_free e1 = mp_free e" "mbufs e1 = mbufs e"
    by (subst e1, simp)+
  with g e' show ?thesis by auto
qed





subsection \<open>The creation loops\<close>

lemma list_update_prefix_Some:
  "0 < k \<Longrightarrow> (map Some xs @ replicate k None)[length xs := Some t]
     = map Some (xs @ [t]) @ replicate (k - 1) None"
  by (cases k) (simp_all add: list_update_append)




subsection \<open>The error path\<close>

lemma fold_nth_index: "fold (\<lambda>i. g (xs ! i)) [0..<length xs] e = fold g xs e"
proof -
  have "fold (\<lambda>i. g (xs ! i)) [0..<length xs] e = fold g (map (nth xs) [0..<length xs]) e"
    by (simp add: fold_map comp_def)
  then show ?thesis by (simp add: map_nth)
qed



lemma fold_replicate_None:
  "fold (\<lambda>x e. case x of None \<Rightarrow> e | Some q \<Rightarrow> f q e) (replicate k None) e = e"
  by (induction k) simp_all

lemma fold_Some_None:
  "fold (\<lambda>x e. case x of None \<Rightarrow> e | Some q \<Rightarrow> f q e) (map Some qs @ replicate k None) e
     = fold (\<lambda>x e. case x of None \<Rightarrow> e | Some q \<Rightarrow> f q e) (map Some qs) e"
  by (simp only: fold_append o_apply fold_replicate_None)



lemma rte_free_fields [simp]:
  "qps (rte_free e) = qps e" "rwq_ind_tables (rte_free e) = rwq_ind_tables e"
  "outcomes (rte_free e) = outcomes e" "allocated (rte_free e) = allocated e - 1"
  "mp_free (rte_free e) = mp_free e" "mbufs (rte_free e) = mbufs e" "flows (rte_free e) = flows e"
  by (simp_all add: rte_free_def)





subsection \<open>The size and the contents of the indirection table\<close>






section \<open>Properties of the element allocators\<close>

subsection \<open>Obtaining and freeing buffers\<close>

lemma rxq_get_buf_None:
  assumes "rxq_get_buf d None e = (ob, pool', e')"
  shows "pool' = None \<and> allocated e' = allocated e \<and> outcomes e' = outcomes e
     \<and> (case ob of None \<Rightarrow> e' = e \<and> mp_free e = [] | Some b \<Rightarrow> mp_free e = b # mp_free e')"
proof (cases "mp_free e")
  case Nil
  with assms show ?thesis by (auto simp: rxq_get_buf_def rte_pktmbuf_alloc_def)
next
  case (Cons b bs)
  with assms show ?thesis by (auto simp: rxq_get_buf_def rte_pktmbuf_alloc_def)
qed

lemma fold_free_bufs:
  "mp_free (fold (\<lambda>x e. case x of None \<Rightarrow> e | Some b \<Rightarrow> rte_pktmbuf_free_seg b e)
              (map Some bs) e) = rev bs @ mp_free e
   \<and> allocated (fold (\<lambda>x e. case x of None \<Rightarrow> e | Some b \<Rightarrow> rte_pktmbuf_free_seg b e)
              (map Some bs) e) = allocated e
   \<and> outcomes (fold (\<lambda>x e. case x of None \<Rightarrow> e | Some b \<Rightarrow> rte_pktmbuf_free_seg b e)
              (map Some bs) e) = outcomes e"
proof (induction bs arbitrary: e)
  case Nil
  show ?case by simp
next
  case (Cons b bs)
  show ?case using Cons [of "rte_pktmbuf_free_seg b e"] by (simp add: rte_pktmbuf_free_seg_def)
qed

lemma rxq_elts_free_bufs_fold:
  "rxq_elts_free_bufs elts' e =
     fold (\<lambda>x e. case x of None \<Rightarrow> e | Some b \<Rightarrow> rte_pktmbuf_free_seg b e) (map buf elts') e"
proof -
  let ?g = "\<lambda>x e. case x of None \<Rightarrow> e | Some b \<Rightarrow> rte_pktmbuf_free_seg b e"
  have "rxq_elts_free_bufs elts' e = fold (\<lambda>i. ?g (map buf elts' ! i)) [0..<length (map buf elts')] e"
    unfolding rxq_elts_free_bufs_def by (rule fold_cong) simp_all
  also have "\<dots> = fold ?g (map buf elts') e" by (rule fold_nth_index)
  finally show ?thesis .
qed

lemma rxq_elts_free_bufs_spec:
  assumes "map buf elts' = map Some bs @ replicate k None"
  shows "mp_free (rxq_elts_free_bufs elts' e) = rev bs @ mp_free e
     \<and> allocated (rxq_elts_free_bufs elts' e) = allocated e
     \<and> outcomes (rxq_elts_free_bufs elts' e) = outcomes e"
  unfolding rxq_elts_free_bufs_fold assms fold_Some_None by (rule fold_free_bufs)

subsection \<open>The loop of \<open>rxq_alloc_elts\<close>\<close>

lemma rxq_alloc_elts_loop_spec:
  assumes "rxq_alloc_elts_loop d q [length bs0..<n] None (xs, e) = (ret, xs', e')"
    and "map buf xs = map Some bs0 @ replicate (n - length bs0) None"
  shows "\<exists>bs. map buf xs' = map Some (bs0 @ bs) @ replicate (n - length bs0 - length bs) None
     \<and> mp_free e = bs @ mp_free e' \<and> allocated e' = allocated e \<and> outcomes e' = outcomes e
     \<and> (if ret = 0 then length bs = n - length bs0 else ret = ENOMEM)"
  using assms
proof (induction "n - length bs0" arbitrary: bs0 xs e)
  case 0
  then have "[length bs0..<n] = []" by simp
  with "0.prems" have "ret = 0" "xs' = xs" "e' = e" by simp_all
  with "0.prems"(2) "0.hyps" show ?case by (intro exI [of _ "[]"]) simp
next
  case (Suc k)
  define l where "l = length bs0"
  have lm: "l < n" using Suc.hyps(2) by (simp add: l_def)
  then have upt: "[l..<n] = l # [Suc l..<n]" by (simp add: upt_conv_Cons)
  obtain ob pool' e1 where g: "rxq_get_buf d None e = (ob, pool', e1)"
    by (cases "rxq_get_buf d None e")
  note f = rxq_get_buf_None [OF g]
  show ?case
  proof (cases ob)
    case None
    with Suc.prems(1) g have r: "ret = ENOMEM" "xs' = xs" "e' = e1"
      unfolding l_def [symmetric] upt by simp_all
    have "ret \<noteq> 0" using r(1) by (simp add: ENOMEM_def)
    with r f None Suc.prems(2) show ?thesis by (intro exI [of _ "[]"]) simp
  next
    case (Some b)
    with f have f': "pool' = None" "allocated e1 = allocated e" "outcomes e1 = outcomes e"
      "mp_free e = b # mp_free e1" by simp_all
    define x where "x = \<lparr>sge = \<lparr>addr = buf_addr (mbufs e1 b) + unat (RTE_PKTMBUF_HEADROOM d),
                                     sge_length = ucast (buf_len (mbufs e1 b))
                                                  - ucast (RTE_PKTMBUF_HEADROOM d),
                                     lkey = mr_lkey (mr q)\<rparr>,
                             buf = Some b\<rparr>"
    have m2: "map buf (xs[l := x]) = map Some (bs0 @ [b]) @ replicate (n - length (bs0 @ [b])) None"
      using Suc.prems(2) list_update_prefix_Some [of "n - l" bs0 b] lm
      by (simp add: map_update l_def x_def)
    from Suc.prems(1) g Some f'(1) have
      "rxq_alloc_elts_loop d q [Suc l..<n] None (xs[l := x], e1) = (ret, xs', e')"
      unfolding l_def [symmetric] upt by (simp add: x_def)
    then have rec: "rxq_alloc_elts_loop d q [length (bs0 @ [b])..<n] None (xs[l := x], e1) = (ret, xs', e')"
      by (simp add: l_def)
    have "k = n - length (bs0 @ [b])" using Suc.hyps(2) by simp
    from Suc.hyps(1) [OF this rec m2] obtain bs where
      bs: "map buf xs' = map Some ((bs0 @ [b]) @ bs) @ replicate (n - length (bs0 @ [b]) - length bs) None"
        "mp_free e1 = bs @ mp_free e'" "allocated e' = allocated e1" "outcomes e' = outcomes e1"
        "if ret = 0 then length bs = n - length (bs0 @ [b]) else ret = ENOMEM"
      by blast
    have 1: "map buf xs' = map Some (bs0 @ (b # bs)) @ replicate (n - length bs0 - length (b # bs)) None"
      using bs(1) by simp
    have 2: "mp_free e = (b # bs) @ mp_free e'" "allocated e' = allocated e" "outcomes e' = outcomes e"
      using bs(2,3,4) f' by simp_all
    have 3: "if ret = 0 then length (b # bs) = n - length bs0 else ret = ENOMEM"
      using bs(5) lm by (auto simp: l_def)
    from 1 2 3 show ?thesis by blast
  qed
qed

lemma rxq_alloc_elts_spec:
  assumes "rxq_alloc_elts d q n None e = (ret, q', e')"
  shows "(ret \<noteq> 0 \<longrightarrow> ret = ENOMEM \<and> q' = q \<and> mset (mp_free e') = mset (mp_free e)
            \<and> allocated e' = allocated e)
     \<and> (ret = 0 \<longrightarrow> n \<le> length (mp_free e) \<and> granted_all e e')"
proof -
  have nz: "ENOMEM \<noteq> 0" by (simp add: ENOMEM_def)
  obtain b1 e1 where c1: "rte_calloc e = (b1, e1)" by (cases "rte_calloc e")
  show ?thesis
  proof (cases b1)
    case False
    with assms c1 have r: "ret = ENOMEM" "q' = q" "e' = e1" by (simp_all add: rxq_alloc_elts_def)
    from c1 False have "rte_calloc e = (False, e1)" by simp
    from rte_calloc_False [OF this] r nz show ?thesis by simp
  next
    case True
    from c1 True have "rte_calloc e = (True, e1)" by simp
    from rte_calloc_True [OF this]
    have f1: "granted_all e e1" "allocated e1 = allocated e + 1" "mp_free e1 = mp_free e" by simp_all
    obtain r xs e2 where l: "rxq_alloc_elts_loop d q [0..<n] None
                  (replicate n \<lparr>sge = sge_zero, buf = None\<rparr>, e1) = (r, xs, e2)"
      by (cases "rxq_alloc_elts_loop d q [0..<n] None (replicate n \<lparr>sge = sge_zero, buf = None\<rparr>, e1)")
    have "map buf (replicate n \<lparr>sge = sge_zero, buf = None\<rparr>) = map Some [] @ replicate (n - length []) None"
      by simp
    from rxq_alloc_elts_loop_spec [of d q "[]" n _ e1 r xs e2, OF _ this] l obtain bs where
      bs: "map buf xs = map Some bs @ replicate (n - length bs) None"
        "mp_free e1 = bs @ mp_free e2" "allocated e2 = allocated e1" "outcomes e2 = outcomes e1"
        "if r = 0 then length bs = n else r = ENOMEM"
      by auto
    show ?thesis
    proof (cases "r = 0")
      case True
      with assms c1 \<open>b1\<close> l have "ret = 0" "e' = e2" by (simp_all add: rxq_alloc_elts_def)
      moreover from bs(4) f1(1) have "granted_all e e2" by (simp add: granted_all_def)
      moreover from bs(2,5) True f1(3) have "n \<le> length (mp_free e)" by simp
      ultimately show ?thesis by simp
    next
      case False
      with assms c1 \<open>b1\<close> l have r: "ret = r" "q' = q" "e' = rte_free (rxq_elts_free_bufs xs e2)"
        by (simp_all add: rxq_alloc_elts_def)
      from rxq_elts_free_bufs_spec [OF bs(1), of e2] bs f1 False r show ?thesis by simp
    qed
  qed
qed

subsection \<open>The loops of \<open>rxq_alloc_elts_sp\<close>\<close>

lemma length_concat_uniform:
  "\<forall>r \<in> set rows. length r = N \<Longrightarrow> length (concat rows) = length rows * N"
  by (induction rows) simp_all

lemma concat_update_uniform:
  "\<forall>r \<in> set rows. length r = N \<Longrightarrow> i < length rows \<Longrightarrow> j < N \<Longrightarrow>
     concat (rows[i := (rows ! i)[j := x]]) = (concat rows)[i * N + j := x]"
proof (induction rows arbitrary: i)
  case Nil
  then show ?case by simp
next
  case (Cons r rows)
  show ?case
  proof (cases i)
    case 0
    with Cons.prems show ?thesis by (simp add: list_update_append1)
  next
    case (Suc i')
    with Cons.prems have "concat (rows[i' := (rows ! i')[j := x]]) = (concat rows)[i' * N + j := x]"
      by (intro Cons.IH) simp_all
    with Cons.prems Suc show ?thesis by (simp add: list_update_append)
  qed
qed

lemma rxq_alloc_elts_sp_segs_spec:
  assumes "rxq_alloc_elts_sp_segs d q i [j0..<N] None (xs, e) = (ret, pool', xs', e')"
    and "\<forall>x \<in> set xs. length (bufs x) = N" and "i < length xs" and "j0 \<le> N"
    and "concat (map bufs xs) = map Some bs0 @ replicate K None" and "length bs0 = i * N + j0"
  shows "\<exists>bs. concat (map bufs xs') = map Some (bs0 @ bs) @ replicate (K - length bs) None
     \<and> (\<forall>x \<in> set xs'. length (bufs x) = N) \<and> length xs' = length xs
     \<and> mp_free e = bs @ mp_free e' \<and> allocated e' = allocated e \<and> outcomes e' = outcomes e
     \<and> pool' = None
     \<and> (if ret = 0 then length bs = N - j0 else ret = ENOMEM)"
  using assms
proof (induction "N - j0" arbitrary: j0 bs0 K xs e)
  case 0
  then have "[j0..<N] = []" by simp
  with "0.prems" have "ret = 0" "xs' = xs" "e' = e" "pool' = None" by simp_all
  with "0.prems" "0.hyps" show ?case by (intro exI [of _ "[]"]) simp
next
  case (Suc k)
  have jN: "j0 < N" using Suc.hyps(2) by simp
  then have upt: "[j0..<N] = j0 # [Suc j0..<N]" by (simp add: upt_conv_Cons)
  obtain ob pl e1 where g: "rxq_get_buf d None e = (ob, pl, e1)"
    by (cases "rxq_get_buf d None e")
  note f = rxq_get_buf_None [OF g]
  show ?case
  proof (cases ob)
    case None
    with Suc.prems(1) g f have r: "ret = ENOMEM" "xs' = xs" "e' = e1" "pool' = None"
      unfolding upt by simp_all
    have "ret \<noteq> 0" using r(1) by (simp add: ENOMEM_def)
    with r f None Suc.prems show ?thesis by (intro exI [of _ "[]"]) simp
  next
    case (Some b)
    with f have f': "pl = None" "allocated e1 = allocated e" "outcomes e1 = outcomes e"
      "mp_free e = b # mp_free e1" by simp_all
    define m where "m = mbufs e1 b"
    define sge' where "sge' = (if j0 = 0
                          then \<lparr>addr = buf_addr m + unat (data_off m),
                                sge_length = ucast (buf_len m) - ucast (RTE_PKTMBUF_HEADROOM d),
                                lkey = mr_lkey (mr q)\<rparr>
                          else \<lparr>addr = buf_addr m, sge_length = ucast (buf_len m),
                                lkey = mr_lkey (mr q)\<rparr>)"
    define e2 where "e2 = (if j0 = 0 then e1 else e1\<lparr>mbufs := (mbufs e1)(b := m\<lparr>data_off := 0\<rparr>)\<rparr>)"
    define xs1 where "xs1 = xs[i := (xs ! i)\<lparr>sges := (sges (xs ! i))[j0 := sge'],
                                    bufs := (bufs (xs ! i))[j0 := Some b]\<rparr>]"
    have e2: "allocated e2 = allocated e" "outcomes e2 = outcomes e" "mp_free e = b # mp_free e2"
      using f' by (simp_all add: e2_def)
    have rows: "map bufs xs1 = (map bufs xs)[i := (map bufs xs ! i)[j0 := Some b]]"
      using Suc.prems(3) by (simp add: xs1_def map_update)
    have u: "\<forall>r \<in> set (map bufs xs). length r = N" using Suc.prems(2) by simp
    have len: "length (concat (map bufs xs)) = length xs * N"
      using length_concat_uniform [OF u] by simp
    have "i * N + j0 < Suc i * N" using jN by simp
    also have "\<dots> \<le> length xs * N" using Suc.prems(3) by (intro mult_le_mono1) simp
    finally have "length bs0 < length (concat (map bufs xs))" using len Suc.prems(6) by simp
    then have Kpos: "0 < K" using Suc.prems(5) by simp
    have c1: "concat (map bufs xs1) = map Some (bs0 @ [b]) @ replicate (K - 1) None"
      unfolding rows using concat_update_uniform [OF u, of i j0 "Some b"] Suc.prems(3,5,6) jN
        list_update_prefix_Some [OF Kpos, of bs0 b]
      by simp
    have u1: "\<forall>x \<in> set xs1. length (bufs x) = N"
    proof
      fix x assume "x \<in> set xs1"
      then have "x \<in> insert ((xs ! i)\<lparr>sges := (sges (xs ! i))[j0 := sge'],
                                    bufs := (bufs (xs ! i))[j0 := Some b]\<rparr>) (set xs)"
        unfolding xs1_def using set_update_subset_insert by fastforce
      with Suc.prems(2,3) show "length (bufs x) = N" by auto
    qed
    have l1: "length xs1 = length xs" by (simp add: xs1_def)
    from Suc.prems(1) g Some f'(1) have
      rec: "rxq_alloc_elts_sp_segs d q i [Suc j0..<N] None (xs1, e2) = (ret, pool', xs', e')"
      unfolding upt by (cases "j0 = 0") (simp_all add: Let_def xs1_def e2_def sge'_def m_def)
    have "k = N - Suc j0" using Suc.hyps(2) by simp
    from Suc.hyps(1) [OF this rec u1 _ _ c1] Suc.prems(3,6) jN l1 obtain bs where
      bs: "concat (map bufs xs') = map Some ((bs0 @ [b]) @ bs) @ replicate (K - 1 - length bs) None"
        "\<forall>x \<in> set xs'. length (bufs x) = N" "length xs' = length xs1"
        "mp_free e2 = bs @ mp_free e'" "allocated e' = allocated e2" "outcomes e' = outcomes e2"
        "pool' = None" "if ret = 0 then length bs = N - Suc j0 else ret = ENOMEM"
      by auto
    have 1: "concat (map bufs xs') = map Some (bs0 @ (b # bs)) @ replicate (K - length (b # bs)) None"
      using bs(1) by simp
    have 2: "mp_free e = (b # bs) @ mp_free e'" "allocated e' = allocated e" "outcomes e' = outcomes e"
      using bs(4,5,6) e2 by simp_all
    have 3: "if ret = 0 then length (b # bs) = N - j0 else ret = ENOMEM"
      using bs(8) jN by auto
    from 1 2 3 bs(2,3,7) l1 show ?thesis by metis
  qed
qed


lemma rxq_alloc_elts_sp_loop_spec:
  assumes "rxq_alloc_elts_sp_loop d q [i0..<n] None (xs, e) = (ret, xs', e')"
    and "\<forall>x \<in> set xs. length (bufs x) = MLX5_PMD_SGE_WR_N d" and "length xs = n" and "i0 \<le> n"
    and "concat (map bufs xs) = map Some bs0 @ replicate K None"
    and "length bs0 = i0 * MLX5_PMD_SGE_WR_N d"
  shows "\<exists>bs. concat (map bufs xs') = map Some (bs0 @ bs) @ replicate (K - length bs) None
     \<and> mp_free e = bs @ mp_free e' \<and> allocated e' = allocated e \<and> outcomes e' = outcomes e
     \<and> (if ret = 0 then length bs = (n - i0) * MLX5_PMD_SGE_WR_N d else ret = ENOMEM)"
  using assms
proof (induction "n - i0" arbitrary: i0 bs0 K xs e)
  case 0
  then have "[i0..<n] = []" by simp
  with "0.prems" have "ret = 0" "xs' = xs" "e' = e" by simp_all
  with "0.prems" "0.hyps" show ?case by (intro exI [of _ "[]"]) simp
next
  case (Suc k)
  define N where "N = MLX5_PMD_SGE_WR_N d"
  have iN: "i0 < n" using Suc.hyps(2) by simp
  then have upt: "[i0..<n] = i0 # [Suc i0..<n]" by (simp add: upt_conv_Cons)
  obtain r pl xs1 e1 where sg: "rxq_alloc_elts_sp_segs d q i0 [0..<N] None (xs, e) = (r, pl, xs1, e1)"
    by (cases "rxq_alloc_elts_sp_segs d q i0 [0..<N] None (xs, e)")
  from rxq_alloc_elts_sp_segs_spec [OF sg, of bs0 K] Suc.prems(2,3,5,6) iN obtain bs1 where
    b1: "concat (map bufs xs1) = map Some (bs0 @ bs1) @ replicate (K - length bs1) None"
      "\<forall>x \<in> set xs1. length (bufs x) = N" "length xs1 = length xs"
      "mp_free e = bs1 @ mp_free e1" "allocated e1 = allocated e" "outcomes e1 = outcomes e"
      "pl = None" "if r = 0 then length bs1 = N - 0 else r = ENOMEM"
    unfolding N_def [symmetric] by auto
  show ?case
  proof (cases "r = 0")
    case False
    with Suc.prems(1) sg [unfolded N_def] have "ret = r" "xs' = xs1" "e' = e1"
      unfolding upt by simp_all
    with b1 False show ?thesis by (intro exI [of _ bs1]) simp
  next
    case True
    with b1(8) have lb: "length bs1 = N" by simp
    from Suc.prems(1) sg [unfolded N_def] True b1(7) have
      rec: "rxq_alloc_elts_sp_loop d q [Suc i0..<n] None (xs1, e1) = (ret, xs', e')"
      unfolding upt by simp
    have "k = n - Suc i0" using Suc.hyps(2) by simp
    moreover have "length (bs0 @ bs1) = Suc i0 * MLX5_PMD_SGE_WR_N d"
      using Suc.prems(6) lb by (simp add: N_def)
    moreover have "\<forall>x \<in> set xs1. length (bufs x) = MLX5_PMD_SGE_WR_N d" using b1(2) by (simp add: N_def)
    moreover have "length xs1 = n" "Suc i0 \<le> n" using b1(3) Suc.prems(3) iN by simp_all
    ultimately obtain bs where
      bs: "concat (map bufs xs') = map Some ((bs0 @ bs1) @ bs) @ replicate (K - length bs1 - length bs) None"
        "mp_free e1 = bs @ mp_free e'" "allocated e' = allocated e1" "outcomes e' = outcomes e1"
        "if ret = 0 then length bs = (n - Suc i0) * MLX5_PMD_SGE_WR_N d else ret = ENOMEM"
      using Suc.hyps(1) [OF _ rec _ _ _ b1(1)] by blast
    have 1: "concat (map bufs xs') = map Some (bs0 @ (bs1 @ bs)) @ replicate (K - length (bs1 @ bs)) None"
      using bs(1) by simp
    have 2: "mp_free e = (bs1 @ bs) @ mp_free e'" "allocated e' = allocated e" "outcomes e' = outcomes e"
      using bs(2,3,4) b1(4,5,6) by simp_all
    have "n - i0 = Suc (n - Suc i0)" using iN by simp
    then have "(n - i0) * N = N + (n - Suc i0) * N" by (simp only: mult_Suc)
    then have 3: "if ret = 0 then length (bs1 @ bs) = (n - i0) * MLX5_PMD_SGE_WR_N d else ret = ENOMEM"
      using bs(5) lb by (simp add: N_def)
    from 1 2 3 show ?thesis by blast
  qed
qed

lemma rxq_elts_sp_free_bufs_fold:
  "rxq_elts_sp_free_bufs xs e =
     fold (\<lambda>x e. case x of None \<Rightarrow> e | Some b \<Rightarrow> rte_pktmbuf_free_seg b e)
       (concat (map bufs xs)) e"
proof -
  let ?g = "\<lambda>x e. case x of None \<Rightarrow> e | Some b \<Rightarrow> rte_pktmbuf_free_seg b e"
  have "rxq_elts_sp_free_bufs xs e
      = fold (\<lambda>i. fold ?g (map bufs xs ! i)) [0..<length (map bufs xs)] e"
    unfolding rxq_elts_sp_free_bufs_def
  proof (rule fold_cong)
    fix i assume "i \<in> set [0..<length xs]"
    then have i: "i < length xs" by simp
    have "fold (\<lambda>j. ?g (bufs (xs ! i) ! j)) [0..<length (bufs (xs ! i))] = fold ?g (bufs (xs ! i))"
      by (rule ext) (rule fold_nth_index)
    with i show "fold (\<lambda>j e. case bufs (xs ! i) ! j of None \<Rightarrow> e
                          | Some b \<Rightarrow> rte_pktmbuf_free_seg b e)
               [0..<length (bufs (xs ! i))] = fold ?g (map bufs xs ! i)"
      by simp
  qed simp_all
  also have "\<dots> = fold (fold ?g) (map bufs xs) e" by (rule fold_nth_index)
  also have "\<dots> = fold ?g (concat (map bufs xs)) e"
    by (induction xs arbitrary: e) simp_all
  finally show ?thesis .
qed

lemma rxq_elts_sp_free_bufs_spec:
  assumes "concat (map bufs xs) = map Some bs @ replicate k None"
  shows "mp_free (rxq_elts_sp_free_bufs xs e) = rev bs @ mp_free e
     \<and> allocated (rxq_elts_sp_free_bufs xs e) = allocated e
     \<and> outcomes (rxq_elts_sp_free_bufs xs e) = outcomes e"
  unfolding rxq_elts_sp_free_bufs_fold assms fold_Some_None by (rule fold_free_bufs)

lemma rxq_alloc_elts_sp_spec:
  assumes "rxq_alloc_elts_sp d q n None e = (ret, q', e')"
  shows "(ret \<noteq> 0 \<longrightarrow> ret = ENOMEM \<and> q' = q \<and> mset (mp_free e') = mset (mp_free e)
            \<and> allocated e' = allocated e)
     \<and> (ret = 0 \<longrightarrow> n * MLX5_PMD_SGE_WR_N d \<le> length (mp_free e) \<and> granted_all e e')"
proof -
  define N where "N = MLX5_PMD_SGE_WR_N d"
  define z where "z = \<lparr>sges = replicate N sge_zero, bufs = replicate N (None :: nat option)\<rparr>"
  have nz: "ENOMEM \<noteq> 0" by (simp add: ENOMEM_def)
  obtain b1 e1 where c1: "rte_calloc e = (b1, e1)" by (cases "rte_calloc e")
  show ?thesis
  proof (cases b1)
    case False
    with assms c1 have r: "ret = ENOMEM" "q' = q" "e' = e1" by (simp_all add: rxq_alloc_elts_sp_def)
    from c1 False have "rte_calloc e = (False, e1)" by simp
    from rte_calloc_False [OF this] r nz show ?thesis by simp
  next
    case True
    from c1 True have "rte_calloc e = (True, e1)" by simp
    from rte_calloc_True [OF this]
    have f1: "granted_all e e1" "allocated e1 = allocated e + 1" "mp_free e1 = mp_free e" by simp_all
    obtain r xs e2 where l: "rxq_alloc_elts_sp_loop d q [0..<n] None (replicate n z, e1) = (r, xs, e2)"
      by (cases "rxq_alloc_elts_sp_loop d q [0..<n] None (replicate n z, e1)")
    have c0: "concat (map bufs (replicate n z)) = map Some [] @ replicate (n * N) None"
      by (induction n) (simp_all add: z_def replicate_add)
    have "\<forall>x \<in> set (replicate n z). length (bufs x) = MLX5_PMD_SGE_WR_N d"
      by (simp add: z_def N_def)
    from rxq_alloc_elts_sp_loop_spec [OF l this _ _ c0] obtain bs where
      bs: "concat (map bufs xs) = map Some bs @ replicate (n * N - length bs) None"
        "mp_free e1 = bs @ mp_free e2" "allocated e2 = allocated e1" "outcomes e2 = outcomes e1"
        "if r = 0 then length bs = n * N else r = ENOMEM"
      by (auto simp: N_def)
    show ?thesis
    proof (cases "r = 0")
      case True
      with assms c1 \<open>b1\<close> l have "ret = 0" "e' = e2"
        by (simp_all add: rxq_alloc_elts_sp_def z_def N_def)
      moreover from bs(4) f1(1) have "granted_all e e2" by (simp add: granted_all_def)
      moreover from bs(2,5) True f1(3) have "n * N \<le> length (mp_free e)" by simp
      ultimately show ?thesis by (simp add: N_def)
    next
      case False
      with assms c1 \<open>b1\<close> l have r: "ret = r" "q' = q" "e' = rte_free (rxq_elts_sp_free_bufs xs e2)"
        by (simp_all add: rxq_alloc_elts_sp_def z_def N_def)
      from rxq_elts_sp_free_bufs_spec [OF bs(1), of e2] bs f1 False r show ?thesis by simp
    qed
  qed
qed

text \<open>
  Claim C8: for both allocators, called without a pool array: when the mempool has fewer
  free buffers than the batch needs (so that obtaining a buffer fails partway), the call
  fails; and whenever it fails it reports \<open>ENOMEM\<close> (out of buffers), the free buffers of
  the mempool are again those from before the call (every buffer attached in this batch
  was freed exactly once), the array of elements is freed, and the queue is returned as
  it was: ring pointer and element count are not installed.
\<close>

theorem rxq_alloc_elts_out_of_buffers:
  assumes "rxq_alloc_elts d rxq' n None e = (ret, rxq'', e') \<and> need = n
     \<or> rxq_alloc_elts_sp d rxq' n None e = (ret, rxq'', e') \<and> need = n * MLX5_PMD_SGE_WR_N d"
  shows "(length (mp_free e) < need \<longrightarrow> ret \<noteq> 0)
     \<and> (ret \<noteq> 0 \<longrightarrow> ret = ENOMEM \<and> rxq'' = rxq' \<and> mset (mp_free e') = mset (mp_free e)
            \<and> allocated e' = allocated e)"
  using assms
proof
  assume "rxq_alloc_elts d rxq' n None e = (ret, rxq'', e') \<and> need = n"
  with rxq_alloc_elts_spec [of d rxq' n e ret rxq'' e'] show ?thesis by auto
next
  assume "rxq_alloc_elts_sp d rxq' n None e = (ret, rxq'', e') \<and> need = n * MLX5_PMD_SGE_WR_N d"
  with rxq_alloc_elts_sp_spec [of d rxq' n e ret rxq'' e'] show ?thesis by auto
qed

text \<open>
  Claim C8 with three free buffers: a batch of four single-segment work requests, and a
  batch of one work request of four segments.
\<close>

theorem rxq_alloc_elts_out_of_buffers_witness:
  "length (mp_free env_three_bufs) < 4 \<and>
   fst (rxq_alloc_elts defs_std (rxq_on 11) 4 None env_three_bufs) = ENOMEM \<and>
   fst (snd (rxq_alloc_elts defs_std (rxq_on 11) 4 None env_three_bufs)) = rxq_on 11 \<and>
   mset (mp_free (snd (snd (rxq_alloc_elts defs_std (rxq_on 11) 4 None env_three_bufs))))
     = mset (mp_free env_three_bufs) \<and>
   length (mp_free env_three_bufs) < 1 * MLX5_PMD_SGE_WR_N defs_std \<and>
   fst (rxq_alloc_elts_sp defs_std (rxq_on 11) 1 None env_three_bufs) = ENOMEM \<and>
   fst (snd (rxq_alloc_elts_sp defs_std (rxq_on 11) 1 None env_three_bufs)) = rxq_on 11 \<and>
   mset (mp_free (snd (snd (rxq_alloc_elts_sp defs_std (rxq_on 11) 1 None env_three_bufs))))
     = mset (mp_free env_three_bufs)"
proof -
  have l: "length (mp_free env_three_bufs) < 4"
    "length (mp_free env_three_bufs) < 1 * MLX5_PMD_SGE_WR_N defs_std"
    by (simp_all add: env_three_bufs_def defs_std_def)
  have 1: "rxq_alloc_elts defs_std (rxq_on 11) 4 None env_three_bufs
      = (fst (rxq_alloc_elts defs_std (rxq_on 11) 4 None env_three_bufs),
         fst (snd (rxq_alloc_elts defs_std (rxq_on 11) 4 None env_three_bufs)),
         snd (snd (rxq_alloc_elts defs_std (rxq_on 11) 4 None env_three_bufs))) \<and> 4 = (4::nat)"
    by simp
  have 2: "rxq_alloc_elts_sp defs_std (rxq_on 11) 1 None env_three_bufs
      = (fst (rxq_alloc_elts_sp defs_std (rxq_on 11) 1 None env_three_bufs),
         fst (snd (rxq_alloc_elts_sp defs_std (rxq_on 11) 1 None env_three_bufs)),
         snd (snd (rxq_alloc_elts_sp defs_std (rxq_on 11) 1 None env_three_bufs)))
       \<and> 1 * MLX5_PMD_SGE_WR_N defs_std = 1 * MLX5_PMD_SGE_WR_N defs_std"
    by simp
  from rxq_alloc_elts_out_of_buffers [OF disjI1, OF 1]
    rxq_alloc_elts_out_of_buffers [OF disjI2, OF 2] l
  show ?thesis by simp
qed

section \<open>Properties of rehashing\<close>

lemma rehash_csum_fields [simp]:
  "sp (rehash_csum priv conf q) = sp q" "elts (rehash_csum priv conf q) = elts q"
  "elts_n (rehash_csum priv conf q) = elts_n q" "wq (rehash_csum priv conf q) = wq q"
  "cq (rehash_csum priv conf q) = cq q" "mr (rehash_csum priv conf q) = mr q"
  "mb_len (rehash_csum priv conf q) = mb_len q" "elts_head (rehash_csum priv conf q) = elts_head q"
  by (simp_all add: rehash_csum_def Let_def)

lemma next_outcome_Cons [simp]: "outcomes e = x # xs \<Longrightarrow> next_outcome e = (x, e\<lparr>outcomes := xs\<rparr>)"
  by (simp add: next_outcome_def)

text \<open>
  Claim C4 at a failing input. The description of \<open>rxq_rehash()\<close> promises that in case
  of failure the queue is left untouched. On the device with checksum offload, for the
  queue with a ring of four work requests and a configuration that asks for checksums and
  for scattered packets, the hardware grants the reset of the work queue and the resize of
  the completion queue and the allocation of the pool array is refused: the function
  returns \<open>ENOBUFS\<close>, but the checksum flag of the queue has been set, the work queue is
  in the reset state instead of the ready state, and the completion queue has been resized
  from 0 to 1 entries.
\<close>

theorem rxq_rehash_failure_mutates:
  "fst (rxq_rehash defs_std priv_csum conf_jumbo (rxq_live, env_third_refused)) = ENOBUFS \<and>
   fst (snd (rxq_rehash defs_std priv_csum conf_jumbo (rxq_live, env_third_refused))) \<noteq> rxq_live \<and>
   \<not> csum rxq_live \<and>
   csum (fst (snd (rxq_rehash defs_std priv_csum conf_jumbo (rxq_live, env_third_refused)))) \<and>
   wq_state env_third_refused (wq rxq_live) = IBV_EXP_WQS_RDY \<and>
   wq_state (snd (snd (rxq_rehash defs_std priv_csum conf_jumbo (rxq_live, env_third_refused))))
     (wq rxq_live) = IBV_EXP_WQS_RESET \<and>
   cq_size env_third_refused (cq rxq_live) = 0 \<and>
   cq_size (snd (snd (rxq_rehash defs_std priv_csum conf_jumbo (rxq_live, env_third_refused))))
     (cq rxq_live) = 1"
  by code_simp

text \<open>
  What a refused reallocation does leave as it was. When the scatter mode changes and,
  after the reset of the work queue and the resize of the completion queue, the
  allocation of the pool array or of the new ring is refused, \<open>rxq_rehash()\<close> fails with
  \<open>ENOBUFS\<close> or \<open>ENOMEM\<close>; the ring pointer, the element count, the scatter flag and every
  other field of the queue but the checksum flags are as before, the mbufs and the mempool
  are untouched and the arrays are freed. The work queue stays in the reset state and the
  completion queue resized to the new number of descriptors.
\<close>

lemma rxq_rehash_realloc_failure:
  assumes "rehash_sp d conf rxq' \<noteq> sp rxq'"
    and "outcomes e = Granted # Granted # Refused x # rest
         \<or> outcomes e = Granted # Granted # Granted # Refused x # rest"
  shows "\<exists>ret e'. rxq_rehash d priv conf (rxq', e) = (ret, rehash_csum priv conf rxq', e')
     \<and> (ret = ENOBUFS \<or> ret = ENOMEM)
     \<and> elts (rehash_csum priv conf rxq') = elts rxq'
     \<and> elts_n (rehash_csum priv conf rxq') = elts_n rxq'
     \<and> sp (rehash_csum priv conf rxq') = sp rxq'
     \<and> mbufs e' = mbufs e \<and> mp_free e' = mp_free e \<and> allocated e' = allocated e
     \<and> wq_state e' (wq rxq') = IBV_EXP_WQS_RESET
     \<and> cq_size e' (cq rxq') =
          (let n = unat ((of_nat (elts_n rxq') :: 32 word)
                          * (if sp rxq' then of_nat (MLX5_PMD_SGE_WR_N d) else 1))
           in if rehash_sp d conf rxq' then n div MLX5_PMD_SGE_WR_N d else n)"
  using assms(2)
proof
  assume o: "outcomes e = Granted # Granted # Refused x # rest"
  with assms(1) show ?thesis
    by (simp add: rxq_rehash_def Let_def ibv_exp_modify_wq_def ibv_resize_cq_def rte_calloc_def)
next
  assume o: "outcomes e = Granted # Granted # Granted # Refused x # rest"
  have nz: "ENOMEM \<noteq> 0" by (simp add: ENOMEM_def)
  show ?thesis
  proof (cases "rehash_sp d conf rxq'")
    case True
    with assms(1) o nz show ?thesis
      by (simp add: rxq_rehash_def Let_def ibv_exp_modify_wq_def ibv_resize_cq_def rte_calloc_def
          rxq_alloc_elts_sp_def rte_free_def)
  next
    case False
    with assms(1) o nz show ?thesis
      by (simp add: rxq_rehash_def Let_def ibv_exp_modify_wq_def ibv_resize_cq_def rte_calloc_def
          rxq_alloc_elts_def rte_free_def)
  qed
qed

section \<open>Properties of the promiscuous and all-multicast modes\<close>

subsection \<open>MAC flow operations change MAC flows only\<close>

lemma mac_only_refl [simp]: "mac_only q q"
  by (simp add: mac_only_def)

lemma mac_only_trans: "mac_only q q1 \<Longrightarrow> mac_only q1 q2 \<Longrightarrow> mac_only q q2"
  by (cases q; cases q1; cases q2) (simp add: mac_only_def)

lemma mac_only_fields:
  "mac_only q q' \<Longrightarrow> promisc_flow q' = promisc_flow q \<and> allmulti_flow q' = allmulti_flow q
     \<and> qp q' = qp q \<and> type q' = type q"
  by (cases q; cases q') (simp add: mac_only_def)

lemma hash_rxq_del_flow_frame:
  assumes "hash_rxq_del_flow m v (q, e) = (q', e')"
  shows "mac_only q q' \<and> outcomes e' = outcomes e \<and> next_handle e' = next_handle e
     \<and> rxq_mac_configured q' = rxq_mac_configured q"
  using assms
  by (cases "mac_flow q (m, v)")
     (auto simp: hash_rxq_del_flow_def mac_only_def ibv_exp_destroy_flow_def)

lemma hash_rxq_mac_addr_del_vlans_frame:
  assumes "hash_rxq_mac_addr_del_vlans priv m vs n (q, e) = (n', q', e')"
  shows "mac_only q q' \<and> outcomes e' = outcomes e \<and> next_handle e' = next_handle e
     \<and> rxq_mac_configured q' = rxq_mac_configured q"
  using assms
proof (induction vs arbitrary: n q e)
  case Nil
  then show ?case by simp
next
  case (Cons v vs)
  show ?case
  proof (cases "enabled (vlan_filter priv ! v)")
    case False
    with Cons show ?thesis by simp
  next
    case True
    obtain q1 e1 where d: "hash_rxq_del_flow m v (q, e) = (q1, e1)"
      by (cases "hash_rxq_del_flow m v (q, e)")
    with Cons.prems True have "hash_rxq_mac_addr_del_vlans priv m vs (n + 1) (q1, e1) = (n', q', e')"
      by simp
    from Cons.IH [OF this] hash_rxq_del_flow_frame [OF d] show ?thesis
      by (auto intro: mac_only_trans)
  qed
qed

lemma hash_rxq_mac_addr_del_frame:
  assumes "hash_rxq_mac_addr_del priv m (q, e) = (q', e')"
  shows "mac_only q q' \<and> outcomes e' = outcomes e \<and> next_handle e' = next_handle e"
proof (cases "m \<in> rxq_mac_configured q")
  case False
  with assms show ?thesis by (simp add: hash_rxq_mac_addr_del_def)
next
  case True
  obtain n q1 e1 where l: "hash_rxq_mac_addr_del_vlans priv m [0..<length (vlan_filter priv)] 0 (q, e)
      = (n, q1, e1)"
    by (cases "hash_rxq_mac_addr_del_vlans priv m [0..<length (vlan_filter priv)] 0 (q, e)")
  obtain q2 e2 where d: "(if n = 0 then hash_rxq_del_flow m 0 (q1, e1) else (q1, e1)) = (q2, e2)"
    by (cases "if n = 0 then hash_rxq_del_flow m 0 (q1, e1) else (q1, e1)")
  have 1: "mac_only q q1 \<and> outcomes e1 = outcomes e \<and> next_handle e1 = next_handle e"
    using hash_rxq_mac_addr_del_vlans_frame [OF l] by simp
  have 2: "mac_only q1 q2 \<and> outcomes e2 = outcomes e1 \<and> next_handle e2 = next_handle e1"
    using d hash_rxq_del_flow_frame [of m 0 q1 e1 q2 e2] by (cases "n = 0") auto
  have "q' = q2\<lparr>rxq_mac_configured := rxq_mac_configured q2 - {m}\<rparr>" "e' = e2"
    using assms True l d by (simp_all add: hash_rxq_mac_addr_del_def)
  moreover have "mac_only q2 (q2\<lparr>rxq_mac_configured := rxq_mac_configured q2 - {m}\<rparr>)"
    by (simp add: mac_only_def)
  ultimately show ?thesis using 1 2 by (auto intro: mac_only_trans)
qed

lemma hash_rxq_mac_addrs_del_frame_gen:
  assumes "fold (\<lambda>i. hash_rxq_mac_addr_del priv i) ms (q, e) = (q', e')"
  shows "mac_only q q' \<and> outcomes e' = outcomes e \<and> next_handle e' = next_handle e"
  using assms
proof (induction ms arbitrary: q e)
  case Nil
  then show ?case by simp
next
  case (Cons m ms)
  obtain q1 e1 where d: "hash_rxq_mac_addr_del priv m (q, e) = (q1, e1)"
    by (cases "hash_rxq_mac_addr_del priv m (q, e)")
  with Cons.prems have "fold (\<lambda>i. hash_rxq_mac_addr_del priv i) ms (q1, e1) = (q', e')" by simp
  from Cons.IH [OF this] hash_rxq_mac_addr_del_frame [OF d] show ?case
    by (auto intro: mac_only_trans)
qed

lemma hash_rxq_mac_addrs_del_frame:
  assumes "hash_rxq_mac_addrs_del priv (q, e) = (q', e')"
  shows "mac_only q q' \<and> outcomes e' = outcomes e \<and> next_handle e' = next_handle e"
  using assms unfolding hash_rxq_mac_addrs_del_def by (rule hash_rxq_mac_addrs_del_frame_gen)

lemma hash_rxq_add_flow_frame:
  assumes "hash_rxq_add_flow priv m v (q, e) = (ret, q', e')"
  shows "mac_only q q'"
proof -
  obtain o' er e1 where c: "ibv_exp_create_flow (qp q) (mac_flow_attr priv (type q) m v) e = (o', er, e1)"
    by (cases "ibv_exp_create_flow (qp q) (mac_flow_attr priv (type q) m v) e")
  with assms show ?thesis by (cases o') (auto simp: hash_rxq_add_flow_def mac_only_def)
qed

lemma hash_rxq_mac_addr_add_rollback_frame:
  assumes "hash_rxq_mac_addr_add_rollback priv m i (q, e) = (q', e')"
  shows "mac_only q q'"
  using assms
proof (induction i arbitrary: q e)
  case 0
  then show ?case by simp
next
  case (Suc i)
  obtain q1 e1 where d: "(if enabled (vlan_filter priv ! i) then hash_rxq_del_flow m i (q, e) else (q, e)) = (q1, e1)"
    by (cases "if enabled (vlan_filter priv ! i) then hash_rxq_del_flow m i (q, e) else (q, e)")
  have "mac_only q q1" using d hash_rxq_del_flow_frame [of m i q e q1 e1]
    by (cases "enabled (vlan_filter priv ! i)") auto
  moreover from Suc.prems d have "hash_rxq_mac_addr_add_rollback priv m i (q1, e1) = (q', e')" by simp
  ultimately show ?case using Suc.IH by (auto intro: mac_only_trans)
qed

lemma hash_rxq_mac_addr_add_vlans_frame:
  assumes "hash_rxq_mac_addr_add_vlans priv m vs n (q, e) = (ret, n', q', e')"
  shows "mac_only q q'"
  using assms
proof (induction vs arbitrary: n q e)
  case Nil
  then show ?case by simp
next
  case (Cons v vs)
  show ?case
  proof (cases "enabled (vlan_filter priv ! v)")
    case False
    with Cons show ?thesis by simp
  next
    case True
    obtain r q1 e1 where a: "hash_rxq_add_flow priv m (Some v) (q, e) = (r, q1, e1)"
      by (cases "hash_rxq_add_flow priv m (Some v) (q, e)")
    note f = hash_rxq_add_flow_frame [OF a]
    show ?thesis
    proof (cases "r = 0")
      case True
      with Cons.prems \<open>enabled (vlan_filter priv ! v)\<close> a
      have "hash_rxq_mac_addr_add_vlans priv m vs (n + 1) (q1, e1) = (ret, n', q', e')" by simp
      from Cons.IH [OF this] f show ?thesis by (auto intro: mac_only_trans)
    next
      case False
      with Cons.prems \<open>enabled (vlan_filter priv ! v)\<close> a
      have "hash_rxq_mac_addr_add_rollback priv m v (q1, e1) = (q', e')" by simp
      from hash_rxq_mac_addr_add_rollback_frame [OF this] f show ?thesis by (auto intro: mac_only_trans)
    qed
  qed
qed

lemma hash_rxq_mac_addr_add_frame:
  assumes "hash_rxq_mac_addr_add priv m (q, e) = (ret, q', e')"
  shows "mac_only q q'"
proof -
  obtain q1 e1 where d: "(if m \<in> rxq_mac_configured q then hash_rxq_mac_addr_del priv m (q, e) else (q, e)) = (q1, e1)"
    by (cases "if m \<in> rxq_mac_configured q then hash_rxq_mac_addr_del priv m (q, e) else (q, e)")
  have 1: "mac_only q q1" using d hash_rxq_mac_addr_del_frame [of priv m q e q1 e1]
    by (cases "m \<in> rxq_mac_configured q") auto
  obtain r n q2 e2 where l: "hash_rxq_mac_addr_add_vlans priv m [0..<length (vlan_filter priv)] 0 (q1, e1) = (r, n, q2, e2)"
    by (cases "hash_rxq_mac_addr_add_vlans priv m [0..<length (vlan_filter priv)] 0 (q1, e1)")
  note 2 = hash_rxq_mac_addr_add_vlans_frame [OF l]
  obtain r' q3 e3 where a: "(if n = 0 then hash_rxq_add_flow priv m None (q2, e2) else (0, q2, e2)) = (r', q3, e3)"
    by (cases "if n = 0 then hash_rxq_add_flow priv m None (q2, e2) else (0, q2, e2)")
  have 3: "mac_only q2 q3" using a hash_rxq_add_flow_frame [of priv m None q2 e2 r' q3 e3]
    by (cases "n = 0") auto
  have "q' = q2 \<or> q' = q3 \<or> q' = q3\<lparr>rxq_mac_configured := insert m (rxq_mac_configured q3)\<rparr>"
    using assms d l a by (auto simp: hash_rxq_mac_addr_add_def Let_def split: if_splits)
  moreover have "mac_only q3 (q3\<lparr>rxq_mac_configured := insert m (rxq_mac_configured q3)\<rparr>)"
    by (simp add: mac_only_def)
  ultimately show ?thesis using 1 2 3 by (auto intro: mac_only_trans)
qed

lemma hash_rxq_mac_addrs_add_rollback_frame:
  assumes "hash_rxq_mac_addrs_add_rollback priv i (q, e) = (q', e')"
  shows "mac_only q q'"
  using assms
proof (induction i arbitrary: q e)
  case 0
  then show ?case by simp
next
  case (Suc i)
  obtain q1 e1 where d: "hash_rxq_mac_addr_del priv i (q, e) = (q1, e1)"
    by (cases "hash_rxq_mac_addr_del priv i (q, e)")
  with Suc.prems have "hash_rxq_mac_addrs_add_rollback priv i (q1, e1) = (q', e')" by simp
  from Suc.IH [OF this] hash_rxq_mac_addr_del_frame [OF d] show ?case by (auto intro: mac_only_trans)
qed

lemma hash_rxq_mac_addrs_add_loop_frame:
  assumes "hash_rxq_mac_addrs_add_loop priv ms (q, e) = (ret, q', e')"
  shows "mac_only q q'"
  using assms
proof (induction ms arbitrary: q e)
  case Nil
  then show ?case by simp
next
  case (Cons m ms)
  show ?case
  proof (cases "m \<in> mac_configured priv")
    case False
    with Cons show ?thesis by simp
  next
    case True
    obtain r q1 e1 where a: "hash_rxq_mac_addr_add priv m (q, e) = (r, q1, e1)"
      by (cases "hash_rxq_mac_addr_add priv m (q, e)")
    note f = hash_rxq_mac_addr_add_frame [OF a]
    show ?thesis
    proof (cases "r = 0")
      case True
      with Cons.prems \<open>m \<in> mac_configured priv\<close> a
      have "hash_rxq_mac_addrs_add_loop priv ms (q1, e1) = (ret, q', e')" by simp
      from Cons.IH [OF this] f show ?thesis by (auto intro: mac_only_trans)
    next
      case False
      with Cons.prems \<open>m \<in> mac_configured priv\<close> a
      have "hash_rxq_mac_addrs_add_rollback priv m (q1, e1) = (q', e')" by simp
      from hash_rxq_mac_addrs_add_rollback_frame [OF this] f show ?thesis by (auto intro: mac_only_trans)
    qed
  qed
qed

lemma restore_mac_flows_frame:
  assumes "restore_mac_flows priv (q, e) = (q', e')"
  shows "mac_only q q'"
proof (cases "started priv")
  case False
  with assms show ?thesis by (simp add: restore_mac_flows_def)
next
  case True
  obtain r q1 e1 where a: "hash_rxq_mac_addrs_add_loop priv [0..<length (mac priv)] (q, e) = (r, q1, e1)"
    by (cases "hash_rxq_mac_addrs_add_loop priv [0..<length (mac priv)] (q, e)")
  with assms True have "q' = q1" by (simp add: restore_mac_flows_def hash_rxq_mac_addrs_add_def)
  with hash_rxq_mac_addrs_add_loop_frame [OF a] show ?thesis by simp
qed

subsection \<open>Promiscuous mode on one queue\<close>

lemma on_hash_rxq_result:
  assumes "on_hash_rxq i f (p, e) = (p', e')"
  shows "\<exists>q'. f p (hash_rxqs p ! i, e) = (q', e') \<and> p' = p\<lparr>hash_rxqs := (hash_rxqs p)[i := q']\<rparr>"
  using assms by (cases "f p (hash_rxqs p ! i, e)") (simp add: on_hash_rxq_def)

lemma hash_rxq_promiscuous_enable_vf:
  "vf priv \<Longrightarrow> hash_rxq_promiscuous_enable priv (q, e) = (0, q, e)"
  by (simp add: hash_rxq_promiscuous_enable_def)

lemma hash_rxq_promiscuous_disable_vf:
  "vf priv \<Longrightarrow> hash_rxq_promiscuous_disable priv (q, e) = (q, e)"
  by (simp add: hash_rxq_promiscuous_disable_def)



subsection \<open>The rollback and the loop of \<open>priv_promiscuous_enable\<close>\<close>




subsection \<open>All-multicast mode\<close>









subsection \<open>Virtual functions\<close>

lemma map_update_same:
  "f y = f (xs ! i) \<Longrightarrow> map f (xs[i := y]) = map f xs"
  by (metis list_update_id map_update)

lemma on_hash_rxq_mac_only:
  assumes "on_hash_rxq i f (p, e) = (p', e')"
    and "\<And>q' e'. f p (hash_rxqs p ! i, e) = (q', e') \<Longrightarrow> promisc_flow q' = promisc_flow (hash_rxqs p ! i)"
  shows "hash_rxqs_only p p' \<and> map promisc_flow (hash_rxqs p') = map promisc_flow (hash_rxqs p)"
proof -
  from on_hash_rxq_result [OF assms(1)] obtain q' where
    q: "f p (hash_rxqs p ! i, e) = (q', e')" "p' = p\<lparr>hash_rxqs := (hash_rxqs p)[i := q']\<rparr>" by blast
  from assms(2) [OF q(1)] q(2) show ?thesis by (simp add: hash_rxqs_only_def map_update_same)
qed

lemma promisc_loop_vf:
  assumes "priv_promiscuous_enable_loop is (p, e) = (ret, p', e')" and "vf p"
  shows "ret = 0 \<and> hash_rxqs_only p p'
     \<and> map promisc_flow (hash_rxqs p') = map promisc_flow (hash_rxqs p)
     \<and> outcomes e' = outcomes e \<and> next_handle e' = next_handle e"
  using assms
proof (induction "is" arbitrary: p e)
  case Nil
  then show ?case by simp
next
  case (Cons i "is")
  obtain p1 e1 where s1: "on_hash_rxq i hash_rxq_mac_addrs_del (p, e) = (p1, e1)"
    by (cases "on_hash_rxq i hash_rxq_mac_addrs_del (p, e)")
  from on_hash_rxq_result [OF s1] obtain q1 where
    q1: "hash_rxq_mac_addrs_del p (hash_rxqs p ! i, e) = (q1, e1)"
      "p1 = p\<lparr>hash_rxqs := (hash_rxqs p)[i := q1]\<rparr>" by blast
  from hash_rxq_mac_addrs_del_frame [OF q1(1)] have
    fr: "mac_only (hash_rxqs p ! i) q1" "outcomes e1 = outcomes e" "next_handle e1 = next_handle e"
    by simp_all
  have pf: "promisc_flow q1 = promisc_flow (hash_rxqs p ! i)" using fr(1) mac_only_fields by blast
  have h1: "hash_rxqs_only p p1" "vf p1"
    "map promisc_flow (hash_rxqs p1) = map promisc_flow (hash_rxqs p)"
    using q1(2) pf Cons.prems(2) by (simp_all add: hash_rxqs_only_def map_update_same)
  have same: "p1\<lparr>hash_rxqs := (hash_rxqs p1)[i := hash_rxqs p1 ! i]\<rparr> = p1" by simp
  from Cons.prems(1) s1 h1(2) have "priv_promiscuous_enable_loop is (p1, e1) = (ret, p', e')"
    by (simp add: hash_rxq_promiscuous_enable_vf same)
  from Cons.IH [OF this h1(2)] h1 fr show ?case by (auto intro: hash_rxqs_only_trans)
qed

lemma promisc_disable_fold_vf:
  assumes "fold (\<lambda>i s. on_hash_rxq i restore_mac_flows
                          (on_hash_rxq i hash_rxq_promiscuous_disable s)) is (p, e) = (p', e')"
    and "vf p"
  shows "hash_rxqs_only p p' \<and> map promisc_flow (hash_rxqs p') = map promisc_flow (hash_rxqs p)"
  using assms
proof (induction "is" arbitrary: p e)
  case Nil
  then show ?case by simp
next
  case (Cons i "is")
  have d: "on_hash_rxq i hash_rxq_promiscuous_disable (p, e) = (p, e)"
    using Cons.prems(2) by (simp add: on_hash_rxq_def hash_rxq_promiscuous_disable_vf)
  obtain p1 e1 where s1: "on_hash_rxq i restore_mac_flows (p, e) = (p1, e1)"
    by (cases "on_hash_rxq i restore_mac_flows (p, e)")
  have h1: "hash_rxqs_only p p1 \<and> map promisc_flow (hash_rxqs p1) = map promisc_flow (hash_rxqs p)"
  proof (rule on_hash_rxq_mac_only [OF s1])
    fix q' e'' assume "restore_mac_flows p (hash_rxqs p ! i, e) = (q', e'')"
    from restore_mac_flows_frame [OF this] show "promisc_flow q' = promisc_flow (hash_rxqs p ! i)"
      using mac_only_fields by blast
  qed
  then have vf1: "vf p1" using hash_rxqs_only_fields [of p p1] Cons.prems(2) by simp
  from Cons.prems(1) d s1 have "fold (\<lambda>i s. on_hash_rxq i restore_mac_flows
                          (on_hash_rxq i hash_rxq_promiscuous_disable s)) is (p1, e1) = (p', e')"
    by simp
  from Cons.IH [OF this vf1] h1 show ?case by (auto intro: hash_rxqs_only_trans)
qed

text \<open>
  Claim C10. On a virtual function the two per-queue operations return at once, the first
  with 0, and leave the queue and the device as they are. So \<open>priv_promiscuous_enable\<close>
  returns 0 and sets \<open>priv->promisc\<close> while no queue gets a promiscuous flow and the device
  is asked for no flow at all (no request is consumed and no handle is handed out), and
  \<open>priv_promiscuous_disable\<close> clears the flag and leaves the promiscuous flow of every
  queue as it is.
\<close>

theorem promiscuous_vf_noop:
  assumes "vf p"
  shows "hash_rxq_promiscuous_enable p (q, e) = (0, q, e)
       \<and> hash_rxq_promiscuous_disable p (q, e) = (q, e)
       \<and> (\<not> promisc p \<longrightarrow>
            (case priv_promiscuous_enable (p, e) of
               (ret, p', e') \<Rightarrow>
                 ret = 0 \<and> promisc p'
                 \<and> map promisc_flow (hash_rxqs p') = map promisc_flow (hash_rxqs p)
                 \<and> outcomes e' = outcomes e \<and> next_handle e' = next_handle e))
       \<and> (case priv_promiscuous_disable (p, e) of
            (p', e') \<Rightarrow>
              \<not> promisc p'
              \<and> map promisc_flow (hash_rxqs p') = map promisc_flow (hash_rxqs p))"
proof (intro conjI impI)
  show "hash_rxq_promiscuous_enable p (q, e) = (0, q, e)"
    using assms by (simp add: hash_rxq_promiscuous_enable_def)
  show "hash_rxq_promiscuous_disable p (q, e) = (q, e)"
    using assms by (simp add: hash_rxq_promiscuous_disable_def)
next
  assume np: "\<not> promisc p"
  obtain r p1 e1 where l: "priv_promiscuous_enable_loop [0..<length (hash_rxqs p)] (p, e) = (r, p1, e1)"
    by (cases "priv_promiscuous_enable_loop [0..<length (hash_rxqs p)] (p, e)")
  from promisc_loop_vf [OF l assms] have
    s: "r = 0" "map promisc_flow (hash_rxqs p1) = map promisc_flow (hash_rxqs p)"
      "outcomes e1 = outcomes e" "next_handle e1 = next_handle e" by simp_all
  from np l s(1) have "priv_promiscuous_enable (p, e) = (0, p1\<lparr>promisc := True\<rparr>, e1)"
    by (simp add: priv_promiscuous_enable_def)
  with s show "case priv_promiscuous_enable (p, e) of
               (ret, p', e') \<Rightarrow>
                 ret = 0 \<and> promisc p'
                 \<and> map promisc_flow (hash_rxqs p') = map promisc_flow (hash_rxqs p)
                 \<and> outcomes e' = outcomes e \<and> next_handle e' = next_handle e"
    by simp
next
  show "case priv_promiscuous_disable (p, e) of
            (p', e') \<Rightarrow>
              \<not> promisc p'
              \<and> map promisc_flow (hash_rxqs p') = map promisc_flow (hash_rxqs p)"
  proof (cases "promisc p")
    case False
    then show ?thesis by (simp add: priv_promiscuous_disable_def)
  next
    case True
    obtain p1 e1 where f: "fold (\<lambda>i s. on_hash_rxq i restore_mac_flows
                          (on_hash_rxq i hash_rxq_promiscuous_disable s))
                     [0..<length (hash_rxqs p)] (p, e) = (p1, e1)"
      by (cases "fold (\<lambda>i s. on_hash_rxq i restore_mac_flows
                          (on_hash_rxq i hash_rxq_promiscuous_disable s))
                     [0..<length (hash_rxqs p)] (p, e)")
    from True f have "priv_promiscuous_disable (p, e) = (p1\<lparr>promisc := False\<rparr>, e1)"
      by (simp add: priv_promiscuous_disable_def)
    with promisc_disable_fold_vf [OF f assms] show ?thesis by simp
  qed
qed

text \<open>
  Claim C10 on the virtual function with two hash RX queues: promiscuous mode is reported
  as enabled, no queue has a promiscuous flow and the next free handle is still 1.
\<close>

theorem promiscuous_vf_noop_witness:
  "vf priv_vf \<and> \<not> promisc priv_vf \<and>
   fst (priv_promiscuous_enable (priv_vf, env_granting)) = 0 \<and>
   promisc (fst (snd (priv_promiscuous_enable (priv_vf, env_granting)))) \<and>
   map promisc_flow (hash_rxqs (fst (snd (priv_promiscuous_enable (priv_vf, env_granting)))))
     = [None, None] \<and>
   next_handle (snd (snd (priv_promiscuous_enable (priv_vf, env_granting)))) = 1"
proof -
  have v: "vf priv_vf" "\<not> promisc priv_vf"
    by (simp_all add: priv_vf_def priv_two_queues_def priv_stopped_def)
  have m: "map promisc_flow (hash_rxqs priv_vf) = [None, None]"
    by (simp add: priv_vf_def priv_two_queues_def hash_rxq_on_def hash_rxq_zero_def)
  have n: "next_handle env_granting = 1" by (simp add: env_granting_def)
  from promiscuous_vf_noop [OF v(1), of hash_rxq_zero env_granting] v m n
  show ?thesis by (simp add: case_prod_beta)
qed

section \<open>Properties of the MAC rules under promiscuous mode\<close>

subsection \<open>The rules do not depend on the hash RX queues of the device\<close>

lemma no_vlan_cong:
  "vlan_filter p' = vlan_filter p \<Longrightarrow> no_vlan p' = no_vlan p"
  by (simp add: no_vlan_def)

lemma vlan_slot_cong:
  "vlan_filter p' = vlan_filter p \<Longrightarrow> vlan_slot p' = vlan_slot p"
  by (simp add: vlan_slot_def fun_eq_iff no_vlan_def)

lemma priv_populate_flow_attr_cong:
  "port p' = port p \<Longrightarrow> priv_populate_flow_attr p' = priv_populate_flow_attr p"
  by (simp add: priv_populate_flow_attr_def fun_eq_iff)

lemma mac_flow_attr_cong:
  "mac p' = mac p \<Longrightarrow> vlan_filter p' = vlan_filter p \<Longrightarrow> port p' = port p \<Longrightarrow>
     mac_flow_attr p' = mac_flow_attr p"
  by (simp add: mac_flow_attr_def fun_eq_iff priv_populate_flow_attr_cong [of p' p]
        split: option.splits)

lemma mac_rule_cong:
  "mac p' = mac p \<Longrightarrow> mac_configured p' = mac_configured p \<Longrightarrow>
     vlan_filter p' = vlan_filter p \<Longrightarrow> port p' = port p \<Longrightarrow> mac_rule p' = mac_rule p"
  by (simp add: mac_rule_def fun_eq_iff mac_flow_attr_cong [of p' p] vlan_slot_cong [of p' p]
        no_vlan_cong [of p' p])

lemma flows_marked_cong:
  "mac p' = mac p \<Longrightarrow> vlan_filter p' = vlan_filter p \<Longrightarrow> flows_marked p' = flows_marked p"
  by (simp add: flows_marked_def fun_eq_iff vlan_slot_cong [of p' p])

subsection \<open>Deleting the MAC flows of a queue\<close>

lemma hash_rxq_del_flow_exact:
  assumes "hash_rxq_del_flow m v (q, e) = (q', e')"
  shows "mac_flow q' = (mac_flow q)((m, v) := None)"
  using assms
  by (cases "mac_flow q (m, v)") (auto simp: hash_rxq_del_flow_def fun_eq_iff)

lemma hash_rxq_mac_addr_del_vlans_exact:
  assumes "hash_rxq_mac_addr_del_vlans p m vs n (q, e) = (n', q', e')"
  shows "mac_flow q' = (\<lambda>(m', v'). if m' = m \<and> v' \<in> set vs \<and> enabled (vlan_filter p ! v')
                                    then None else mac_flow q (m', v'))
     \<and> n' = n + length (filter (\<lambda>i. enabled (vlan_filter p ! i)) vs)"
  using assms
proof (induction vs arbitrary: n q e)
  case Nil
  then show ?case by simp
next
  case (Cons i vs)
  show ?case
  proof (cases "enabled (vlan_filter p ! i)")
    case False
    with Cons.prems have "hash_rxq_mac_addr_del_vlans p m vs n (q, e) = (n', q', e')" by simp
    from Cons.IH [OF this] False show ?thesis by (auto simp: fun_eq_iff)
  next
    case True
    obtain q1 e1 where d: "hash_rxq_del_flow m i (q, e) = (q1, e1)"
      by (cases "hash_rxq_del_flow m i (q, e)")
    from hash_rxq_del_flow_exact [OF d] have m1: "mac_flow q1 = (mac_flow q)((m, i) := None)" .
    from Cons.prems True d have "hash_rxq_mac_addr_del_vlans p m vs (n + 1) (q1, e1) = (n', q', e')"
      by simp
    from Cons.IH [OF this] m1 True show ?thesis by (auto simp: fun_eq_iff)
  qed
qed

lemma no_vlan_count:
  "length (filter (\<lambda>i. enabled (vlan_filter p ! i)) [0..<length (vlan_filter p)]) = 0
     \<longleftrightarrow> no_vlan p"
  by (auto simp: no_vlan_def list_all_length filter_empty_conv)

lemma hash_rxq_mac_addr_del_exact:
  assumes "hash_rxq_mac_addr_del p m (q, e) = (q', e')"
  shows "if m \<in> rxq_mac_configured q
         then mac_flow q' = (\<lambda>(m', v'). if m' = m \<and> vlan_slot p v' then None
                                          else mac_flow q (m', v'))
            \<and> rxq_mac_configured q' = rxq_mac_configured q - {m}
         else q' = q"
proof (cases "m \<in> rxq_mac_configured q")
  case False
  with assms show ?thesis by (simp add: hash_rxq_mac_addr_del_def)
next
  case True
  obtain n1 q1 e1 where
    v: "hash_rxq_mac_addr_del_vlans p m [0..<length (vlan_filter p)] 0 (q, e) = (n1, q1, e1)"
    by (cases "hash_rxq_mac_addr_del_vlans p m [0..<length (vlan_filter p)] 0 (q, e)")
  from hash_rxq_mac_addr_del_vlans_exact [OF v] have
    x: "mac_flow q1 = (\<lambda>(m', v'). if m' = m \<and> v' \<in> set [0..<length (vlan_filter p)]
                                      \<and> enabled (vlan_filter p ! v')
                                    then None else mac_flow q (m', v'))"
      "n1 = length (filter (\<lambda>i. enabled (vlan_filter p ! i)) [0..<length (vlan_filter p)])"
    by simp_all
  from hash_rxq_mac_addr_del_vlans_frame [OF v] have c1: "rxq_mac_configured q1 = rxq_mac_configured q"
    by simp
  from x(2) no_vlan_count [of p] have n1: "n1 = 0 \<longleftrightarrow> no_vlan p" by simp
  show ?thesis
  proof (cases "no_vlan p")
    case nv: True
    obtain q2 e2 where d: "hash_rxq_del_flow m 0 (q1, e1) = (q2, e2)"
      by (cases "hash_rxq_del_flow m 0 (q1, e1)")
    from hash_rxq_del_flow_exact [OF d] have m2: "mac_flow q2 = (mac_flow q1)((m, 0) := None)" .
    from hash_rxq_del_flow_frame [OF d] have c2: "rxq_mac_configured q2 = rxq_mac_configured q1"
      by simp
    from assms True v n1 nv d have
      "q' = q2\<lparr>rxq_mac_configured := rxq_mac_configured q2 - {m}\<rparr>"
      by (simp add: hash_rxq_mac_addr_del_def)
    moreover have "\<And>v'. v' < length (vlan_filter p) \<Longrightarrow> \<not> enabled (vlan_filter p ! v')"
      using nv by (simp add: no_vlan_def list_all_length)
    ultimately show ?thesis using True m2 x(1) c1 c2 nv
      by (auto simp: fun_eq_iff vlan_slot_def)
  next
    case nv: False
    from assms True v n1 nv have
      "q' = q1\<lparr>rxq_mac_configured := rxq_mac_configured q1 - {m}\<rparr>"
      by (simp add: hash_rxq_mac_addr_del_def)
    then show ?thesis using True x(1) c1 nv by (auto simp: fun_eq_iff vlan_slot_def)
  qed
qed

lemma hash_rxq_mac_addr_del_marked:
  assumes "hash_rxq_mac_addr_del p k (q, e) = (q', e')" and "flows_marked p k q"
  shows "flows_marked p (Suc k) q'"
proof (cases "k \<in> rxq_mac_configured q")
  case False
  with hash_rxq_mac_addr_del_exact [OF assms(1)] have "q' = q" by simp
  with assms(2) False show ?thesis
    unfolding flows_marked_def by (metis Suc_leI le_neq_implies_less)
next
  case True
  with hash_rxq_mac_addr_del_exact [OF assms(1)] have
    x: "mac_flow q' = (\<lambda>(m', v'). if m' = k \<and> vlan_slot p v' then None else mac_flow q (m', v'))"
      "rxq_mac_configured q' = rxq_mac_configured q - {k}" by simp_all
  show ?thesis
    unfolding flows_marked_def
  proof (intro allI impI)
    fix m v assume a: "mac_flow q' (m, v) \<noteq> None"
    with x(1) have b: "mac_flow q (m, v) \<noteq> None" "\<not> (m = k \<and> vlan_slot p v)"
      by (auto split: if_splits)
    from assms(2) b(1) have c: "k \<le> m" "m < length (mac p)" "m \<in> rxq_mac_configured q"
      "vlan_slot p v" unfolding flows_marked_def by blast+
    with b(2) have "m \<noteq> k" by simp
    with c x(2) show "Suc k \<le> m \<and> m < length (mac p) \<and> m \<in> rxq_mac_configured q' \<and> vlan_slot p v"
      by simp
  qed
qed

lemma hash_rxq_mac_addrs_del_marked:
  assumes "fold (\<lambda>i. hash_rxq_mac_addr_del p i) [0..<k] (q, e) = (q', e')"
    and "flows_marked p 0 q"
  shows "flows_marked p k q'"
  using assms
proof (induction k arbitrary: q' e')
  case 0
  then show ?case by simp
next
  case (Suc k)
  obtain q1 e1 where f: "fold (\<lambda>i. hash_rxq_mac_addr_del p i) [0..<k] (q, e) = (q1, e1)"
    by (cases "fold (\<lambda>i. hash_rxq_mac_addr_del p i) [0..<k] (q, e)")
  from Suc.prems(1) f have "hash_rxq_mac_addr_del p k (q1, e1) = (q', e')" by simp
  from hash_rxq_mac_addr_del_marked [OF this Suc.IH [OF f Suc.prems(2)]] show ?case .
qed

lemma hash_rxq_mac_addrs_del_exact:
  assumes "hash_rxq_mac_addrs_del p (q, e) = (q', e')" and "flows_marked p 0 q"
  shows "mac_flow q' = (\<lambda>_. None)"
proof -
  from assms(1) have "fold (\<lambda>i. hash_rxq_mac_addr_del p i) [0..<length (mac p)] (q, e) = (q', e')"
    by (simp add: hash_rxq_mac_addrs_del_def)
  from hash_rxq_mac_addrs_del_marked [OF this assms(2)] have "flows_marked p (length (mac p)) q'" .
  then have "\<And>m v. mac_flow q' (m, v) = None"
    unfolding flows_marked_def by (meson not_le)
  then show ?thesis by (auto simp: fun_eq_iff)
qed

lemma mac_flows_in_place_marked:
  assumes "mac_flows_in_place p q"
  shows "flows_marked p 0 q"
  unfolding flows_marked_def
proof (intro allI impI)
  fix m v assume "mac_flow q (m, v) \<noteq> None"
  then have "rules_of q (m, v) \<noteq> None" by (simp add: rules_of_def)
  with assms have "mac_rule p q (m, v) \<noteq> None" by (simp add: mac_flows_in_place_def)
  then have "m < length (mac p) \<and> m \<in> mac_configured p \<and> vlan_slot p v"
    by (simp add: mac_rule_def split: if_splits)
  with assms show "0 \<le> m \<and> m < length (mac p) \<and> m \<in> rxq_mac_configured q \<and> vlan_slot p v"
    by (simp add: mac_flows_in_place_def)
qed

subsection \<open>Adding the MAC flows of a queue when every request is granted\<close>

lemma ibv_exp_create_flow_granting:
  assumes "set (outcomes e) \<subseteq> {Granted}"
  shows "\<exists>f e'. ibv_exp_create_flow qp' attr e = (Some f, 0, e')
            \<and> flow_qp f = qp' \<and> flow_attr f = attr \<and> set (outcomes e') \<subseteq> {Granted}"
proof (cases "outcomes e")
  case Nil
  then show ?thesis by (simp add: ibv_exp_create_flow_def next_outcome_def Let_def)
next
  case (Cons x xs)
  with assms have "x = Granted" "set xs \<subseteq> {Granted}" by auto
  with Cons show ?thesis by (simp add: ibv_exp_create_flow_def next_outcome_def Let_def)
qed

lemma rules_of_upd:
  "rules_of (q\<lparr>mac_flow := (mac_flow q)(mv \<mapsto> f)\<rparr>)
     = (rules_of q)(mv \<mapsto> (flow_qp f, flow_attr f))"
  by (simp add: rules_of_def fun_eq_iff)

lemma rules_of_None:
  "mac_flow q = (\<lambda>_. None) \<Longrightarrow> rules_of q = (\<lambda>_. None)"
  by (simp add: rules_of_def)

lemma hash_rxq_add_flow_granting:
  assumes "hash_rxq_add_flow p m vi (q, e) = (ret, q', e')" and "set (outcomes e) \<subseteq> {Granted}"
  shows "ret = 0 \<and> mac_only q q' \<and> rxq_mac_configured q' = rxq_mac_configured q
     \<and> rules_of q' = (rules_of q)((m, case vi of None \<Rightarrow> 0 | Some i \<Rightarrow> i)
                          \<mapsto> (qp q, mac_flow_attr p (type q) m vi))
     \<and> set (outcomes e') \<subseteq> {Granted}"
proof -
  from ibv_exp_create_flow_granting [OF assms(2), of "qp q" "mac_flow_attr p (type q) m vi"]
  obtain f e1 where
    c: "ibv_exp_create_flow (qp q) (mac_flow_attr p (type q) m vi) e = (Some f, 0, e1)"
      "flow_qp f = qp q" "flow_attr f = mac_flow_attr p (type q) m vi"
      "set (outcomes e1) \<subseteq> {Granted}" by blast
  from assms(1) c(1) have r: "ret = 0" "e' = e1"
    "q' = q\<lparr>mac_flow := (mac_flow q)((m, case vi of None \<Rightarrow> 0 | Some i \<Rightarrow> i) \<mapsto> f)\<rparr>"
    by (simp_all add: hash_rxq_add_flow_def)
  have "mac_only q q'" using r(3) by (simp add: mac_only_def)
  moreover have "rules_of q' = (rules_of q)((m, case vi of None \<Rightarrow> 0 | Some i \<Rightarrow> i)
                          \<mapsto> (qp q, mac_flow_attr p (type q) m vi))"
    unfolding r(3) rules_of_upd c(2,3) ..
  ultimately show ?thesis using r c(4) by simp
qed

lemma hash_rxq_mac_addr_add_vlans_granting:
  assumes "hash_rxq_mac_addr_add_vlans p m vs n (q, e) = (ret, n', q', e')"
    and "set (outcomes e) \<subseteq> {Granted}"
  shows "ret = 0 \<and> mac_only q q' \<and> rxq_mac_configured q' = rxq_mac_configured q
     \<and> rules_of q' = (\<lambda>(m', v'). if m' = m \<and> v' \<in> set vs \<and> enabled (vlan_filter p ! v')
                                   then Some (qp q, mac_flow_attr p (type q) m (Some v'))
                                   else rules_of q (m', v'))
     \<and> n' = n + length (filter (\<lambda>i. enabled (vlan_filter p ! i)) vs)
     \<and> set (outcomes e') \<subseteq> {Granted}"
  using assms
proof (induction vs arbitrary: n q e)
  case Nil
  then show ?case by simp
next
  case (Cons i vs)
  show ?case
  proof (cases "enabled (vlan_filter p ! i)")
    case False
    with Cons.prems have "hash_rxq_mac_addr_add_vlans p m vs n (q, e) = (ret, n', q', e')" by simp
    from Cons.IH [OF this Cons.prems(2)] False show ?thesis by (auto simp: fun_eq_iff)
  next
    case True
    obtain r1 q1 e1 where a: "hash_rxq_add_flow p m (Some i) (q, e) = (r1, q1, e1)"
      by (cases "hash_rxq_add_flow p m (Some i) (q, e)")
    from hash_rxq_add_flow_granting [OF a Cons.prems(2)] have
      s: "r1 = 0" "mac_only q q1" "rxq_mac_configured q1 = rxq_mac_configured q"
        "rules_of q1 = (rules_of q)((m, i) \<mapsto> (qp q, mac_flow_attr p (type q) m (Some i)))"
        "set (outcomes e1) \<subseteq> {Granted}" by simp_all
    from mac_only_fields [OF s(2)] have qt: "qp q1 = qp q" "type q1 = type q" by simp_all
    from Cons.prems(1) True a s(1) have
      "hash_rxq_mac_addr_add_vlans p m vs (n + 1) (q1, e1) = (ret, n', q', e')" by simp
    from Cons.IH [OF this s(5)] have
      t: "ret = 0" "mac_only q1 q'" "rxq_mac_configured q' = rxq_mac_configured q1"
        "rules_of q' = (\<lambda>(m', v'). if m' = m \<and> v' \<in> set vs \<and> enabled (vlan_filter p ! v')
                                   then Some (qp q1, mac_flow_attr p (type q1) m (Some v'))
                                   else rules_of q1 (m', v'))"
        "n' = n + 1 + length (filter (\<lambda>i. enabled (vlan_filter p ! i)) vs)"
        "set (outcomes e') \<subseteq> {Granted}" by simp_all
    have "rules_of q' = (\<lambda>(m', v'). if m' = m \<and> v' \<in> set (i # vs) \<and> enabled (vlan_filter p ! v')
                                   then Some (qp q, mac_flow_attr p (type q) m (Some v'))
                                   else rules_of q (m', v'))"
      unfolding t(4) s(4) qt using True by (auto simp: fun_eq_iff)
    with t s True show ?thesis by (auto intro: mac_only_trans)
  qed
qed

lemma rules_of_del:
  "mac_flow q' = (\<lambda>(m', v'). if m' = m \<and> vlan_slot p v' then None else mac_flow q (m', v'))
     \<Longrightarrow> rules_of q' = (\<lambda>(m', v'). if m' = m \<and> vlan_slot p v' then None else rules_of q (m', v'))"
  by (auto simp: rules_of_def fun_eq_iff)

lemma hash_rxq_mac_addr_add_granting:
  assumes "hash_rxq_mac_addr_add p m (q, e) = (ret, q', e')"
    and "set (outcomes e) \<subseteq> {Granted}"
  shows "ret = 0 \<and> mac_only q q' \<and> rxq_mac_configured q' = insert m (rxq_mac_configured q)
     \<and> rules_of q' = (\<lambda>(m', v'). if m' = m \<and> vlan_slot p v'
                                   then Some (qp q, mac_flow_attr p (type q) m
                                                (if no_vlan p then None else Some v'))
                                   else rules_of q (m', v'))
     \<and> set (outcomes e') \<subseteq> {Granted}"
proof -
  obtain q0 e0 where
    s1: "(if m \<in> rxq_mac_configured q then hash_rxq_mac_addr_del p m (q, e) else (q, e)) = (q0, e0)"
    by (cases "if m \<in> rxq_mac_configured q then hash_rxq_mac_addr_del p m (q, e) else (q, e)")
  have q0: "mac_only q q0" "set (outcomes e0) \<subseteq> {Granted}"
    "insert m (rxq_mac_configured q0) = insert m (rxq_mac_configured q)"
    "\<And>m' v'. \<not> (m' = m \<and> vlan_slot p v') \<Longrightarrow> rules_of q0 (m', v') = rules_of q (m', v')"
  proof -
    show "mac_only q q0"
    proof (cases "m \<in> rxq_mac_configured q")
      case True
      with s1 have "hash_rxq_mac_addr_del p m (q, e) = (q0, e0)" by simp
      from hash_rxq_mac_addr_del_frame [OF this] show ?thesis by simp
    next
      case False
      with s1 show ?thesis by simp
    qed
    show "set (outcomes e0) \<subseteq> {Granted}"
    proof (cases "m \<in> rxq_mac_configured q")
      case True
      with s1 have "hash_rxq_mac_addr_del p m (q, e) = (q0, e0)" by simp
      from hash_rxq_mac_addr_del_frame [OF this] assms(2) show ?thesis by simp
    next
      case False
      with s1 assms(2) show ?thesis by simp
    qed
    show "insert m (rxq_mac_configured q0) = insert m (rxq_mac_configured q)"
    proof (cases "m \<in> rxq_mac_configured q")
      case True
      with s1 have "hash_rxq_mac_addr_del p m (q, e) = (q0, e0)" by simp
      from hash_rxq_mac_addr_del_exact [OF this] True show ?thesis by auto
    next
      case False
      with s1 show ?thesis by simp
    qed
    fix m' v' assume n: "\<not> (m' = m \<and> vlan_slot p v')"
    show "rules_of q0 (m', v') = rules_of q (m', v')"
    proof (cases "m \<in> rxq_mac_configured q")
      case True
      with s1 have "hash_rxq_mac_addr_del p m (q, e) = (q0, e0)" by simp
      from hash_rxq_mac_addr_del_exact [OF this] True have
        "mac_flow q0 = (\<lambda>(m', v'). if m' = m \<and> vlan_slot p v' then None else mac_flow q (m', v'))"
        by simp
      from rules_of_del [OF this] n show ?thesis by auto
    next
      case False
      with s1 show ?thesis by simp
    qed
  qed
  from mac_only_fields [OF q0(1)] have qt0: "qp q0 = qp q" "type q0 = type q" by simp_all
  obtain r1 n1 q1 e1 where
    v: "hash_rxq_mac_addr_add_vlans p m [0..<length (vlan_filter p)] 0 (q0, e0) = (r1, n1, q1, e1)"
    by (cases "hash_rxq_mac_addr_add_vlans p m [0..<length (vlan_filter p)] 0 (q0, e0)") auto
  from hash_rxq_mac_addr_add_vlans_granting [OF v q0(2)] have
    s: "r1 = 0" "mac_only q0 q1" "rxq_mac_configured q1 = rxq_mac_configured q0"
      "rules_of q1 = (\<lambda>(m', v'). if m' = m \<and> v' \<in> set [0..<length (vlan_filter p)]
                                      \<and> enabled (vlan_filter p ! v')
                                   then Some (qp q0, mac_flow_attr p (type q0) m (Some v'))
                                   else rules_of q0 (m', v'))"
      "n1 = length (filter (\<lambda>i. enabled (vlan_filter p ! i)) [0..<length (vlan_filter p)])"
      "set (outcomes e1) \<subseteq> {Granted}" by simp_all
  from mac_only_fields [OF s(2)] qt0 have qt1: "qp q1 = qp q" "type q1 = type q" by simp_all
  from s(5) no_vlan_count [of p] have n1: "n1 = 0 \<longleftrightarrow> no_vlan p" by simp
  from assms(1) s1 v s(1) have
    rest: "(case (if n1 = 0 then hash_rxq_add_flow p m None (q1, e1) else (0, q1, e1)) of
             (ret', hash_rxq, e) \<Rightarrow>
               if ret' \<noteq> 0 then (ret', hash_rxq, e)
               else (0, hash_rxq\<lparr>rxq_mac_configured := insert m (rxq_mac_configured hash_rxq)\<rparr>, e))
           = (ret, q', e')"
    by (simp add: hash_rxq_mac_addr_add_def Let_def)
  show ?thesis
  proof (cases "no_vlan p")
    case nv: False
    with rest n1 have r: "ret = 0" "e' = e1"
      "q' = q1\<lparr>rxq_mac_configured := insert m (rxq_mac_configured q1)\<rparr>" by auto
    have mo: "mac_only q1 q'" using r(3) by (simp add: mac_only_def)
    have ru: "rules_of q' = rules_of q1" using r(3) by (simp add: rules_of_def)
    have "rules_of q' = (\<lambda>(m', v'). if m' = m \<and> vlan_slot p v'
                                   then Some (qp q, mac_flow_attr p (type q) m
                                                (if no_vlan p then None else Some v'))
                                   else rules_of q (m', v'))"
      unfolding ru s(4) qt0 using nv q0(4) by (auto simp: fun_eq_iff vlan_slot_def)
    moreover have "mac_only q q'" using q0(1) s(2) mo by (blast intro: mac_only_trans)
    moreover have "rxq_mac_configured q' = insert m (rxq_mac_configured q)"
      using r(3) s(3) q0(3) by simp
    ultimately show ?thesis using r s(6) by simp
  next
    case nv: True
    have none: "\<And>v'. v' < length (vlan_filter p) \<Longrightarrow> \<not> enabled (vlan_filter p ! v')"
      using nv by (simp add: no_vlan_def list_all_length)
    obtain r2 q2 e2 where a: "hash_rxq_add_flow p m None (q1, e1) = (r2, q2, e2)"
      by (cases "hash_rxq_add_flow p m None (q1, e1)")
    from hash_rxq_add_flow_granting [OF a s(6)] have
      t: "r2 = 0" "mac_only q1 q2" "rxq_mac_configured q2 = rxq_mac_configured q1"
        "rules_of q2 = (rules_of q1)((m, 0) \<mapsto> (qp q1, mac_flow_attr p (type q1) m None))"
        "set (outcomes e2) \<subseteq> {Granted}" by simp_all
    from rest n1 nv a t(1) have r: "ret = 0" "e' = e2"
      "q' = q2\<lparr>rxq_mac_configured := insert m (rxq_mac_configured q2)\<rparr>" by auto
    have mo: "mac_only q2 q'" using r(3) by (simp add: mac_only_def)
    have ru: "rules_of q' = rules_of q2" using r(3) by (simp add: rules_of_def)
    have "rules_of q' = (\<lambda>(m', v'). if m' = m \<and> vlan_slot p v'
                                   then Some (qp q, mac_flow_attr p (type q) m
                                                (if no_vlan p then None else Some v'))
                                   else rules_of q (m', v'))"
      unfolding ru t(4) s(4) qt0 qt1 using nv q0(4) none by (auto simp: fun_eq_iff vlan_slot_def)
    moreover have "mac_only q q'" using q0(1) s(2) t(2) mo by (blast intro: mac_only_trans)
    moreover have "rxq_mac_configured q' = insert m (rxq_mac_configured q)"
      using r(3) t(3) s(3) q0(3) by simp
    ultimately show ?thesis using r t(5) by simp
  qed
qed

lemma hash_rxq_mac_addrs_add_loop_granting:
  assumes "hash_rxq_mac_addrs_add_loop p ms (q, e) = (ret, q', e')"
    and "set (outcomes e) \<subseteq> {Granted}"
  shows "ret = 0 \<and> mac_only q q'
     \<and> rules_of q' = (\<lambda>(m, v). if m \<in> set ms \<and> m \<in> mac_configured p \<and> vlan_slot p v
                                 then Some (qp q, mac_flow_attr p (type q) m
                                              (if no_vlan p then None else Some v))
                                 else rules_of q (m, v))
     \<and> set (outcomes e') \<subseteq> {Granted}"
  using assms
proof (induction ms arbitrary: q e)
  case Nil
  then show ?case by simp
next
  case (Cons i ms)
  show ?case
  proof (cases "i \<in> mac_configured p")
    case False
    with Cons.prems have "hash_rxq_mac_addrs_add_loop p ms (q, e) = (ret, q', e')" by simp
    from Cons.IH [OF this Cons.prems(2)] False show ?thesis by (auto simp: fun_eq_iff)
  next
    case True
    obtain r1 q1 e1 where a: "hash_rxq_mac_addr_add p i (q, e) = (r1, q1, e1)"
      by (cases "hash_rxq_mac_addr_add p i (q, e)")
    from hash_rxq_mac_addr_add_granting [OF a Cons.prems(2)] have
      s: "r1 = 0" "mac_only q q1"
        "rules_of q1 = (\<lambda>(m', v'). if m' = i \<and> vlan_slot p v'
                                   then Some (qp q, mac_flow_attr p (type q) i
                                                (if no_vlan p then None else Some v'))
                                   else rules_of q (m', v'))"
        "set (outcomes e1) \<subseteq> {Granted}" by simp_all
    from mac_only_fields [OF s(2)] have qt: "qp q1 = qp q" "type q1 = type q" by simp_all
    from Cons.prems(1) True a s(1) have
      "hash_rxq_mac_addrs_add_loop p ms (q1, e1) = (ret, q', e')" by simp
    from Cons.IH [OF this s(4)] have
      t: "ret = 0" "mac_only q1 q'"
        "rules_of q' = (\<lambda>(m, v). if m \<in> set ms \<and> m \<in> mac_configured p \<and> vlan_slot p v
                                 then Some (qp q1, mac_flow_attr p (type q1) m
                                              (if no_vlan p then None else Some v))
                                 else rules_of q1 (m, v))"
        "set (outcomes e') \<subseteq> {Granted}" by simp_all
    have "rules_of q' = (\<lambda>(m, v). if m \<in> set (i # ms) \<and> m \<in> mac_configured p \<and> vlan_slot p v
                                 then Some (qp q, mac_flow_attr p (type q) m
                                              (if no_vlan p then None else Some v))
                                 else rules_of q (m, v))"
      unfolding t(3) s(3) qt using True by (auto simp: fun_eq_iff)
    with t s show ?thesis by (auto intro: mac_only_trans)
  qed
qed

lemma restore_mac_flows_granting:
  assumes "restore_mac_flows p (q, e) = (q', e')" and "set (outcomes e) \<subseteq> {Granted}"
    and "mac_flow q = (\<lambda>_. None)"
  shows "mac_only q q' \<and> set (outcomes e') \<subseteq> {Granted}
     \<and> rules_of q' = (if started p then mac_rule p q else (\<lambda>_. None))"
proof (cases "started p")
  case False
  with assms show ?thesis by (simp add: restore_mac_flows_def rules_of_None)
next
  case True
  obtain r1 q1 e1 where
    a: "hash_rxq_mac_addrs_add_loop p [0..<length (mac p)] (q, e) = (r1, q1, e1)"
    by (cases "hash_rxq_mac_addrs_add_loop p [0..<length (mac p)] (q, e)")
  with assms(1) True have r: "q' = q1" "e' = e1"
    by (simp_all add: restore_mac_flows_def hash_rxq_mac_addrs_add_def)
  from hash_rxq_mac_addrs_add_loop_granting [OF a assms(2)] have
    s: "mac_only q q1"
      "rules_of q1 = (\<lambda>(m, v). if m \<in> set [0..<length (mac p)] \<and> m \<in> mac_configured p \<and> vlan_slot p v
                                 then Some (qp q, mac_flow_attr p (type q) m
                                              (if no_vlan p then None else Some v))
                                 else rules_of q (m, v))"
      "set (outcomes e1) \<subseteq> {Granted}" by simp_all
  have "rules_of q1 = mac_rule p q"
    unfolding s(2) rules_of_None [OF assms(3)] by (auto simp: mac_rule_def fun_eq_iff)
  with r s True show ?thesis by simp
qed

subsection \<open>Promiscuous mode on every queue when every request is granted\<close>

lemma mac_rule_queue_cong:
  "qp q' = qp q \<Longrightarrow> type q' = type q \<Longrightarrow> mac_rule p q' = mac_rule p q"
  by (simp add: mac_rule_def fun_eq_iff)

lemma hash_rxq_promiscuous_enable_granting:
  assumes "hash_rxq_promiscuous_enable p (q, e) = (ret, q', e')" and "\<not> vf p"
    and "promisc_flow q = None" and "set (outcomes e) \<subseteq> {Granted}"
  shows "ret = 0 \<and> set (outcomes e') \<subseteq> {Granted}
     \<and> (\<exists>f. q' = q\<lparr>promisc_flow := Some f\<rparr> \<and> flow_qp f = qp q
            \<and> flow_attr f = priv_populate_flow_attr p (type q))"
proof -
  from ibv_exp_create_flow_granting [OF assms(4), of "qp q" "priv_populate_flow_attr p (type q)"]
  obtain f e1 where
    c: "ibv_exp_create_flow (qp q) (priv_populate_flow_attr p (type q)) e = (Some f, 0, e1)"
      "flow_qp f = qp q" "flow_attr f = priv_populate_flow_attr p (type q)"
      "set (outcomes e1) \<subseteq> {Granted}" by blast
  from assms(1,2,3) c(1) have "ret = 0" "e' = e1" "q' = q\<lparr>promisc_flow := Some f\<rparr>"
    by (simp_all add: hash_rxq_promiscuous_enable_def)
  with c show ?thesis by auto
qed

lemma hash_rxq_promiscuous_disable_exact:
  assumes "hash_rxq_promiscuous_disable p (q, e) = (q', e')" and "\<not> vf p"
  shows "q' = q\<lparr>promisc_flow := None\<rparr> \<and> outcomes e' = outcomes e"
  using assms
  by (cases "promisc_flow q")
     (auto simp: hash_rxq_promiscuous_disable_def ibv_exp_destroy_flow_def)

lemma promisc_loop_granting:
  assumes "priv_promiscuous_enable_loop [i0..<n] (p, e) = (ret, p', e')"
    and "n = length (hash_rxqs p)" and "\<not> vf p" and "set (outcomes e) \<subseteq> {Granted}"
    and "\<forall>j. i0 \<le> j \<and> j < n \<longrightarrow>
           flows_marked p 0 (hash_rxqs p ! j) \<and> promisc_flow (hash_rxqs p ! j) = None"
  shows "ret = 0 \<and> hash_rxqs_only p p' \<and> length (hash_rxqs p') = n
     \<and> set (outcomes e') \<subseteq> {Granted}
     \<and> (\<forall>j<i0. hash_rxqs p' ! j = hash_rxqs p ! j)
     \<and> (\<forall>j. i0 \<le> j \<and> j < n \<longrightarrow>
           mac_flow (hash_rxqs p' ! j) = (\<lambda>_. None)
           \<and> qp (hash_rxqs p' ! j) = qp (hash_rxqs p ! j)
           \<and> type (hash_rxqs p' ! j) = type (hash_rxqs p ! j)
           \<and> (\<exists>f. promisc_flow (hash_rxqs p' ! j) = Some f \<and> flow_qp f = qp (hash_rxqs p ! j)
                  \<and> flow_attr f = priv_populate_flow_attr p (type (hash_rxqs p ! j))))"
  using assms
proof (induction "n - i0" arbitrary: i0 p e)
  case 0
  then have emp: "[i0..<n] = []" by simp
  from "0.prems"(1) have "ret = 0" "p' = p" "e' = e" unfolding emp by simp_all
  with "0.prems"(2,4) "0.hyps" show ?case by auto
next
  case (Suc d)
  have lt: "i0 < n" using Suc.hyps(2) by simp
  then have upt: "[i0..<n] = i0 # [Suc i0..<n]" by (simp add: upt_conv_Cons)
  let ?q = "hash_rxqs p ! i0"
  from Suc.prems(5) lt have q0: "flows_marked p 0 ?q" "promisc_flow ?q = None" by simp_all
  obtain p1 e1 where s1: "on_hash_rxq i0 hash_rxq_mac_addrs_del (p, e) = (p1, e1)"
    by (cases "on_hash_rxq i0 hash_rxq_mac_addrs_del (p, e)")
  from on_hash_rxq_result [OF s1] obtain q1 where
    q1: "hash_rxq_mac_addrs_del p (?q, e) = (q1, e1)"
      "p1 = p\<lparr>hash_rxqs := (hash_rxqs p)[i0 := q1]\<rparr>" by blast
  from hash_rxq_mac_addrs_del_frame [OF q1(1)] have
    fr: "mac_only ?q q1" "outcomes e1 = outcomes e" by simp_all
  from mac_only_fields [OF fr(1)] q0(2) have
    f1: "promisc_flow q1 = None" "qp q1 = qp ?q" "type q1 = type ?q" by simp_all
  from hash_rxq_mac_addrs_del_exact [OF q1(1) q0(1)] have m1: "mac_flow q1 = (\<lambda>_. None)" .
  have h1: "hash_rxqs p1 ! i0 = q1" "\<not> vf p1" "port p1 = port p"
    using q1(2) lt Suc.prems(2,3) by simp_all
  obtain r q2 e2 where en: "hash_rxq_promiscuous_enable p1 (q1, e1) = (r, q2, e2)"
    by (cases "hash_rxq_promiscuous_enable p1 (q1, e1)")
  from hash_rxq_promiscuous_enable_granting [OF en h1(2) f1(1)] fr(2) Suc.prems(4)
  obtain f where
    g: "r = 0" "set (outcomes e2) \<subseteq> {Granted}" "q2 = q1\<lparr>promisc_flow := Some f\<rparr>"
      "flow_qp f = qp q1" "flow_attr f = priv_populate_flow_attr p1 (type q1)" by auto
  have attr: "flow_attr f = priv_populate_flow_attr p (type ?q)"
    using g(5) f1(3) priv_populate_flow_attr_cong [OF h1(3)] by simp
  define p2 where "p2 = p1\<lparr>hash_rxqs := (hash_rxqs p1)[i0 := q2]\<rparr>"
  have p2: "p2 = p\<lparr>hash_rxqs := (hash_rxqs p)[i0 := q2]\<rparr>" using q1(2) by (simp add: p2_def)
  have h2: "hash_rxqs_only p p2" "length (hash_rxqs p2) = n" "\<not> vf p2" "port p2 = port p"
    "mac p2 = mac p" "vlan_filter p2 = vlan_filter p"
    "hash_rxqs p2 ! i0 = q2" "\<forall>j. j \<noteq> i0 \<longrightarrow> hash_rxqs p2 ! j = hash_rxqs p ! j"
    using p2 lt Suc.prems(2,3) by (simp_all add: hash_rxqs_only_def)
  from Suc.prems(1) s1 en g(1) have
    rec: "priv_promiscuous_enable_loop [Suc i0..<n] (p2, e2) = (ret, p', e')"
    unfolding upt by (simp add: h1 p2_def)
  have pre: "\<forall>j. Suc i0 \<le> j \<and> j < n \<longrightarrow>
           flows_marked p2 0 (hash_rxqs p2 ! j) \<and> promisc_flow (hash_rxqs p2 ! j) = None"
    using Suc.prems(5) h2(8) flows_marked_cong [OF h2(5,6)] by simp
  have "d = n - Suc i0" using Suc.hyps(2) by simp
  from Suc.hyps(1) [OF this rec _ h2(3) g(2) pre] h2(2) have
    IH: "ret = 0" "hash_rxqs_only p2 p'" "length (hash_rxqs p') = n"
      "set (outcomes e') \<subseteq> {Granted}"
      "\<forall>j<Suc i0. hash_rxqs p' ! j = hash_rxqs p2 ! j"
      "\<forall>j. Suc i0 \<le> j \<and> j < n \<longrightarrow>
           mac_flow (hash_rxqs p' ! j) = (\<lambda>_. None)
           \<and> qp (hash_rxqs p' ! j) = qp (hash_rxqs p2 ! j)
           \<and> type (hash_rxqs p' ! j) = type (hash_rxqs p2 ! j)
           \<and> (\<exists>f. promisc_flow (hash_rxqs p' ! j) = Some f \<and> flow_qp f = qp (hash_rxqs p2 ! j)
                  \<and> flow_attr f = priv_populate_flow_attr p2 (type (hash_rxqs p2 ! j)))"
    by simp_all
  have A: "\<forall>j<i0. hash_rxqs p' ! j = hash_rxqs p ! j"
    using IH(5) h2(8) by simp
  have B: "\<forall>j. i0 \<le> j \<and> j < n \<longrightarrow>
           mac_flow (hash_rxqs p' ! j) = (\<lambda>_. None)
           \<and> qp (hash_rxqs p' ! j) = qp (hash_rxqs p ! j)
           \<and> type (hash_rxqs p' ! j) = type (hash_rxqs p ! j)
           \<and> (\<exists>f. promisc_flow (hash_rxqs p' ! j) = Some f \<and> flow_qp f = qp (hash_rxqs p ! j)
                  \<and> flow_attr f = priv_populate_flow_attr p (type (hash_rxqs p ! j)))"
  proof (intro allI impI)
    fix j assume j: "i0 \<le> j \<and> j < n"
    show "mac_flow (hash_rxqs p' ! j) = (\<lambda>_. None)
           \<and> qp (hash_rxqs p' ! j) = qp (hash_rxqs p ! j)
           \<and> type (hash_rxqs p' ! j) = type (hash_rxqs p ! j)
           \<and> (\<exists>f. promisc_flow (hash_rxqs p' ! j) = Some f \<and> flow_qp f = qp (hash_rxqs p ! j)
                  \<and> flow_attr f = priv_populate_flow_attr p (type (hash_rxqs p ! j)))"
    proof (cases "j = i0")
      case True
      from IH(5) have "hash_rxqs p' ! i0 = q2" using h2(7) by simp
      with True g(3,4) attr m1 f1 show ?thesis by simp
    next
      case False
      with j have j': "Suc i0 \<le> j \<and> j < n" by simp
      from False h2(8) have same: "hash_rxqs p2 ! j = hash_rxqs p ! j" by simp
      from IH(6) [rule_format, OF j'] show ?thesis
        unfolding same priv_populate_flow_attr_cong [OF h2(4)] by simp
    qed
  qed
  from IH(1,2,3,4) h2(1) A B show ?case by (auto intro: hash_rxqs_only_trans)
qed

lemma promisc_disable_fold_granting:
  assumes "fold (\<lambda>i s. on_hash_rxq i restore_mac_flows
                          (on_hash_rxq i hash_rxq_promiscuous_disable s)) [i0..<n] (p, e) = (p', e')"
    and "n = length (hash_rxqs p)" and "\<not> vf p" and "set (outcomes e) \<subseteq> {Granted}"
    and "\<forall>j. i0 \<le> j \<and> j < n \<longrightarrow> mac_flow (hash_rxqs p ! j) = (\<lambda>_. None)"
  shows "hash_rxqs_only p p' \<and> length (hash_rxqs p') = n
     \<and> set (outcomes e') \<subseteq> {Granted}
     \<and> (\<forall>j<i0. hash_rxqs p' ! j = hash_rxqs p ! j)
     \<and> (\<forall>j. i0 \<le> j \<and> j < n \<longrightarrow>
           promisc_flow (hash_rxqs p' ! j) = None
           \<and> rules_of (hash_rxqs p' ! j)
               = (if started p then mac_rule p (hash_rxqs p ! j) else (\<lambda>_. None)))"
  using assms
proof (induction "n - i0" arbitrary: i0 p e)
  case 0
  then have emp: "[i0..<n] = []" by simp
  from "0.prems"(1) have "p' = p" "e' = e" unfolding emp by simp_all
  with "0.prems"(2,4) "0.hyps" show ?case by (auto simp: hash_rxqs_only_def)
next
  case (Suc d)
  have lt: "i0 < n" using Suc.hyps(2) by simp
  then have upt: "[i0..<n] = i0 # [Suc i0..<n]" by (simp add: upt_conv_Cons)
  let ?q = "hash_rxqs p ! i0"
  from Suc.prems(5) lt have q0: "mac_flow ?q = (\<lambda>_. None)" by simp
  obtain p1 e1 where s1: "on_hash_rxq i0 hash_rxq_promiscuous_disable (p, e) = (p1, e1)"
    by (cases "on_hash_rxq i0 hash_rxq_promiscuous_disable (p, e)")
  from on_hash_rxq_result [OF s1] obtain q1 where
    q1: "hash_rxq_promiscuous_disable p (?q, e) = (q1, e1)"
      "p1 = p\<lparr>hash_rxqs := (hash_rxqs p)[i0 := q1]\<rparr>" by blast
  from hash_rxq_promiscuous_disable_exact [OF q1(1) Suc.prems(3)] have
    d1: "q1 = ?q\<lparr>promisc_flow := None\<rparr>" "outcomes e1 = outcomes e" by simp_all
  have f1: "promisc_flow q1 = None" "mac_flow q1 = (\<lambda>_. None)" "qp q1 = qp ?q" "type q1 = type ?q"
    using d1(1) q0 by simp_all
  have h1: "hash_rxqs p1 ! i0 = q1" "started p1 = started p" "mac p1 = mac p"
    "mac_configured p1 = mac_configured p" "vlan_filter p1 = vlan_filter p" "port p1 = port p"
    using q1(2) lt Suc.prems(2) by simp_all
  obtain p2 e2 where s2: "on_hash_rxq i0 restore_mac_flows (p1, e1) = (p2, e2)"
    by (cases "on_hash_rxq i0 restore_mac_flows (p1, e1)")
  from on_hash_rxq_result [OF s2] h1(1) obtain q2 where
    q2: "restore_mac_flows p1 (q1, e1) = (q2, e2)"
      "p2 = p1\<lparr>hash_rxqs := (hash_rxqs p1)[i0 := q2]\<rparr>" by auto
  from restore_mac_flows_granting [OF q2(1) _ f1(2)] d1(2) Suc.prems(4) have
    r: "mac_only q1 q2" "set (outcomes e2) \<subseteq> {Granted}"
      "rules_of q2 = (if started p1 then mac_rule p1 q1 else (\<lambda>_. None))" by simp_all
  have mr: "mac_rule p1 q1 = mac_rule p ?q"
    using mac_rule_cong [OF h1(3,4,5,6)] mac_rule_queue_cong [OF f1(3,4)] by simp
  have f2: "promisc_flow q2 = None" using mac_only_fields [OF r(1)] f1(1) by simp
  have p2: "p2 = p\<lparr>hash_rxqs := (hash_rxqs p)[i0 := q2]\<rparr>" using q1(2) q2(2) by simp
  have h2: "hash_rxqs_only p p2" "length (hash_rxqs p2) = n" "\<not> vf p2" "port p2 = port p"
    "mac p2 = mac p" "vlan_filter p2 = vlan_filter p" "mac_configured p2 = mac_configured p"
    "started p2 = started p"
    "hash_rxqs p2 ! i0 = q2" "\<forall>j. j \<noteq> i0 \<longrightarrow> hash_rxqs p2 ! j = hash_rxqs p ! j"
    using p2 lt Suc.prems(2,3) by (simp_all add: hash_rxqs_only_def)
  from Suc.prems(1) s1 s2 have
    rec: "fold (\<lambda>i s. on_hash_rxq i restore_mac_flows
                          (on_hash_rxq i hash_rxq_promiscuous_disable s)) [Suc i0..<n] (p2, e2) = (p', e')"
    unfolding upt by simp
  have pre: "\<forall>j. Suc i0 \<le> j \<and> j < n \<longrightarrow> mac_flow (hash_rxqs p2 ! j) = (\<lambda>_. None)"
    using Suc.prems(5) h2(10) by simp
  have "d = n - Suc i0" using Suc.hyps(2) by simp
  from Suc.hyps(1) [OF this rec _ h2(3) r(2) pre] h2(2) have
    IH: "hash_rxqs_only p2 p'" "length (hash_rxqs p') = n"
      "set (outcomes e') \<subseteq> {Granted}"
      "\<forall>j<Suc i0. hash_rxqs p' ! j = hash_rxqs p2 ! j"
      "\<forall>j. Suc i0 \<le> j \<and> j < n \<longrightarrow>
           promisc_flow (hash_rxqs p' ! j) = None
           \<and> rules_of (hash_rxqs p' ! j)
               = (if started p2 then mac_rule p2 (hash_rxqs p2 ! j) else (\<lambda>_. None))"
    by simp_all
  have A: "\<forall>j<i0. hash_rxqs p' ! j = hash_rxqs p ! j"
    using IH(4) h2(10) by simp
  have B: "\<forall>j. i0 \<le> j \<and> j < n \<longrightarrow>
           promisc_flow (hash_rxqs p' ! j) = None
           \<and> rules_of (hash_rxqs p' ! j)
               = (if started p then mac_rule p (hash_rxqs p ! j) else (\<lambda>_. None))"
  proof (intro allI impI)
    fix j assume j: "i0 \<le> j \<and> j < n"
    show "promisc_flow (hash_rxqs p' ! j) = None
           \<and> rules_of (hash_rxqs p' ! j)
               = (if started p then mac_rule p (hash_rxqs p ! j) else (\<lambda>_. None))"
    proof (cases "j = i0")
      case True
      from IH(4) have "hash_rxqs p' ! i0 = q2" using h2(9) by simp
      with True f2 r(3) mr h1(2) show ?thesis by simp
    next
      case False
      with j have j': "Suc i0 \<le> j \<and> j < n" by simp
      from False h2(10) have same: "hash_rxqs p2 ! j = hash_rxqs p ! j" by simp
      from IH(5) [rule_format, OF j'] show ?thesis
        unfolding same mac_rule_cong [OF h2(5,7,6,4)] h2(8) by simp
    qed
  qed
  from IH(1,2,3) h2(1) A B show ?case by (auto intro: hash_rxqs_only_trans)
qed

subsection \<open>Enabling and disabling promiscuous mode\<close>

text \<open>
  Claim C5 does not hold on a virtual function. On the started virtual function whose queue
  holds the flow of the configured address, \<open>priv_promiscuous_enable\<close> returns 0 and sets
  \<open>priv->promisc\<close>; the flow of the address is destroyed, but the queue gets no
  promiscuous flow, and the hardware is left without any flow.
\<close>

theorem promiscuous_enable_vf_no_broad_rule:
  "0 \<in> mac_configured priv_started_vf \<and> started priv_started_vf \<and>
   mac_flow (hash_rxqs priv_started_vf ! 0) (0, 0) = Some flow_a \<and>
   fst (priv_promiscuous_enable (priv_started_vf, env_one_flow)) = 0 \<and>
   promisc (fst (snd (priv_promiscuous_enable (priv_started_vf, env_one_flow)))) \<and>
   map promisc_flow
     (hash_rxqs (fst (snd (priv_promiscuous_enable (priv_started_vf, env_one_flow))))) = [None] \<and>
   map (\<lambda>q. mac_flow q (0, 0))
     (hash_rxqs (fst (snd (priv_promiscuous_enable (priv_started_vf, env_one_flow))))) = [None] \<and>
   flows (snd (snd (priv_promiscuous_enable (priv_started_vf, env_one_flow)))) = []"
  by code_simp

text \<open>
  The queues after enabling and after disabling promiscuous mode, when the device is not a
  virtual function and the hardware grants every request.
\<close>

lemma promisc_round_trip_queues:
  assumes "\<not> vf p" and "\<not> promisc p" and "set (outcomes e) \<subseteq> {Granted}"
    and "\<forall>q\<in>set (hash_rxqs p). mac_flows_in_place p q \<and> promisc_flow q = None"
  shows "case priv_promiscuous_enable (p, e) of
           (ret, p1, e1) \<Rightarrow>
             ret = 0 \<and> promisc p1 \<and> length (hash_rxqs p1) = length (hash_rxqs p)
             \<and> (\<forall>j<length (hash_rxqs p).
                   mac_flow (hash_rxqs p1 ! j) = (\<lambda>_. None)
                   \<and> (\<exists>f. promisc_flow (hash_rxqs p1 ! j) = Some f
                          \<and> flow_qp f = qp (hash_rxqs p ! j)
                          \<and> flow_attr f = priv_populate_flow_attr p (type (hash_rxqs p ! j))))
             \<and> (case priv_promiscuous_disable (p1, e1) of
                  (p2, e2) \<Rightarrow>
                    \<not> promisc p2 \<and> length (hash_rxqs p2) = length (hash_rxqs p)
                    \<and> (\<forall>j<length (hash_rxqs p).
                          promisc_flow (hash_rxqs p2 ! j) = None
                          \<and> rules_of (hash_rxqs p2 ! j)
                              = (if started p then rules_of (hash_rxqs p ! j) else (\<lambda>_. None))))"
proof -
  let ?n = "length (hash_rxqs p)"
  obtain r pl el where l: "priv_promiscuous_enable_loop [0..<?n] (p, e) = (r, pl, el)"
    by (cases "priv_promiscuous_enable_loop [0..<?n] (p, e)")
  have pre: "\<forall>j. 0 \<le> j \<and> j < ?n \<longrightarrow>
           flows_marked p 0 (hash_rxqs p ! j) \<and> promisc_flow (hash_rxqs p ! j) = None"
    using assms(4) by (auto intro: mac_flows_in_place_marked)
  from promisc_loop_granting [OF l refl assms(1,3) pre] have
    s: "r = 0" "hash_rxqs_only p pl" "length (hash_rxqs pl) = ?n" "set (outcomes el) \<subseteq> {Granted}"
      "\<forall>j. j < ?n \<longrightarrow>
           mac_flow (hash_rxqs pl ! j) = (\<lambda>_. None)
           \<and> qp (hash_rxqs pl ! j) = qp (hash_rxqs p ! j)
           \<and> type (hash_rxqs pl ! j) = type (hash_rxqs p ! j)
           \<and> (\<exists>f. promisc_flow (hash_rxqs pl ! j) = Some f \<and> flow_qp f = qp (hash_rxqs p ! j)
                  \<and> flow_attr f = priv_populate_flow_attr p (type (hash_rxqs p ! j)))"
    by simp_all
  define p1 where "p1 = pl\<lparr>promisc := True\<rparr>"
  from assms(2) l s(1) have en: "priv_promiscuous_enable (p, e) = (0, p1, el)"
    by (simp add: priv_promiscuous_enable_def p1_def)
  have "port pl = port p" using s(2) by (cases p; cases pl) (simp add: hash_rxqs_only_def)
  with hash_rxqs_only_fields [OF s(2)] have
    f1: "hash_rxqs p1 = hash_rxqs pl" "promisc p1" "\<not> vf p1" "started p1 = started p"
      "mac p1 = mac p" "mac_configured p1 = mac_configured p" "vlan_filter p1 = vlan_filter p"
      "port p1 = port p"
    using assms(1) by (simp_all add: p1_def)
  obtain pd ed where
    d: "fold (\<lambda>i s. on_hash_rxq i restore_mac_flows
                       (on_hash_rxq i hash_rxq_promiscuous_disable s))
             [0..<length (hash_rxqs p1)] (p1, el) = (pd, ed)"
    by (cases "fold (\<lambda>i s. on_hash_rxq i restore_mac_flows
                       (on_hash_rxq i hash_rxq_promiscuous_disable s))
             [0..<length (hash_rxqs p1)] (p1, el)")
  have pre2: "\<forall>j. 0 \<le> j \<and> j < length (hash_rxqs p1) \<longrightarrow> mac_flow (hash_rxqs p1 ! j) = (\<lambda>_. None)"
    using s(3,5) f1(1) by simp
  from promisc_disable_fold_granting [OF d refl f1(3) s(4) pre2] f1(1) s(3) have
    t: "length (hash_rxqs pd) = ?n"
      "\<forall>j. j < ?n \<longrightarrow>
           promisc_flow (hash_rxqs pd ! j) = None
           \<and> rules_of (hash_rxqs pd ! j)
               = (if started p1 then mac_rule p1 (hash_rxqs p1 ! j) else (\<lambda>_. None))"
    by simp_all
  from f1(2) d have dis: "priv_promiscuous_disable (p1, el) = (pd\<lparr>promisc := False\<rparr>, ed)"
    by (simp add: priv_promiscuous_disable_def)
  have restored: "\<forall>j<?n. promisc_flow (hash_rxqs pd ! j) = None
       \<and> rules_of (hash_rxqs pd ! j) = (if started p then rules_of (hash_rxqs p ! j) else (\<lambda>_. None))"
  proof (intro allI impI)
    fix j assume j: "j < ?n"
    from s(5) j f1(1) have qt: "qp (hash_rxqs p1 ! j) = qp (hash_rxqs p ! j)"
      "type (hash_rxqs p1 ! j) = type (hash_rxqs p ! j)" by simp_all
    have "mac_rule p1 (hash_rxqs p1 ! j) = mac_rule p (hash_rxqs p ! j)"
      using mac_rule_cong [OF f1(5,6,7,8)] mac_rule_queue_cong [OF qt] by simp
    moreover from assms(4) j have "rules_of (hash_rxqs p ! j) = mac_rule p (hash_rxqs p ! j)"
      by (simp add: mac_flows_in_place_def)
    ultimately show "promisc_flow (hash_rxqs pd ! j) = None
       \<and> rules_of (hash_rxqs pd ! j) = (if started p then rules_of (hash_rxqs p ! j) else (\<lambda>_. None))"
      using t(2) j f1(4) by simp
  qed
  from s(3,5) f1(1,2) t(1) restored show ?thesis
    unfolding en dis prod.case by simp
qed

section \<open>The status of the requests for flows\<close>

lemma request_status_granted: "granted_all e e' \<Longrightarrow> request_status e e' 0"
  by (simp add: request_status_def)

lemma request_status_same: "outcomes e' = outcomes e \<Longrightarrow> request_status e e' 0"
  by (simp add: request_status_def granted_all_same)

lemma request_status_trans:
  "granted_all e e1 \<Longrightarrow> request_status e1 e2 r \<Longrightarrow> request_status e e2 r"
  unfolding request_status_def
  by (auto intro: granted_all_trans granted_refused_trans split: if_splits)

lemma request_status_after:
  "outcomes e1 = outcomes e \<Longrightarrow> request_status e1 e2 r \<Longrightarrow> request_status e e2 r"
  by (rule request_status_trans [OF granted_all_same])

lemma request_status_then_same:
  "request_status e e1 r \<Longrightarrow> outcomes e2 = outcomes e1 \<Longrightarrow> request_status e e2 r"
  unfolding request_status_def
  by (auto intro: refused_first_same granted_all_trans granted_all_same split: if_splits)

lemma request_status_0D: "request_status e e' 0 \<Longrightarrow> granted_all e e'"
  by (simp add: request_status_def)

lemma refused_first_neq: "refused_first e e' x \<Longrightarrow> outcomes e' \<noteq> outcomes e"
proof
  assume "refused_first e e' x" and eq: "outcomes e' = outcomes e"
  then obtain gs where "outcomes e = gs @ Refused x # outcomes e'"
    by (auto simp: refused_first_def)
  then have "length (outcomes e) = length gs + 1 + length (outcomes e')"
    by simp
  with eq show False by simp
qed

lemma request_status_failed_neq:
  "request_status e e' r \<Longrightarrow> r \<noteq> 0 \<Longrightarrow> outcomes e' \<noteq> outcomes e"
  by (auto simp: request_status_def dest: refused_first_neq)

lemma ibv_exp_create_flow_status:
  assumes "ibv_exp_create_flow qp' attr e = (fo, err, e')"
  shows "case fo of
           Some f \<Rightarrow> granted_all e e' \<and> flows e' = flows e @ [f]
                      \<and> flow_qp f = qp' \<and> flow_attr f = attr
         | None \<Rightarrow> refused_first e e' err \<and> flows e' = flows e"
proof (cases "next_outcome e")
  case (Pair out e1)
  show ?thesis
  proof (cases out)
    case Granted
    with Pair next_outcome_Granted [of e e1] have g: "granted_all e e1" "e1 = e\<lparr>outcomes := outcomes e1\<rparr>"
      by simp_all
    have fl: "flows e1 = flows e" by (subst g(2)) simp
    from assms Pair Granted have
      r: "fo = Some \<lparr>handle = next_handle e1, flow_qp = qp', flow_attr = attr\<rparr>"
        "e' = e1\<lparr>next_handle := next_handle e1 + 1,
                  flows := flows e1 @ [\<lparr>handle = next_handle e1, flow_qp = qp', flow_attr = attr\<rparr>]\<rparr>"
      by (simp_all add: ibv_exp_create_flow_def Let_def)
    have "granted_all e e'" using g(1) r(2) by (simp add: granted_all_def)
    with r fl show ?thesis by simp
  next
    case (Refused x)
    with Pair next_outcome_Refused [of e x e1] have g: "refused_first e e1 x" "e1 = e\<lparr>outcomes := outcomes e1\<rparr>"
      by simp_all
    have fl: "flows e1 = flows e" by (subst g(2)) simp
    from assms Pair Refused have "fo = None" "err = x" "e' = e1"
      by (simp_all add: ibv_exp_create_flow_def)
    with g fl show ?thesis by simp
  qed
qed

lemma hash_rxq_add_flow_full:
  assumes "hash_rxq_add_flow p m vi (q, e) = (ret, q', e')"
  shows "request_status e e' ret
     \<and> (if ret = 0
         then \<exists>f. q' = q\<lparr>mac_flow := (mac_flow q)((m, case vi of None \<Rightarrow> 0 | Some i \<Rightarrow> i) \<mapsto> f)\<rparr>
                \<and> flows e' = flows e @ [f] \<and> flow_qp f = qp q
                \<and> flow_attr f = mac_flow_attr p (type q) m vi
         else q' = q \<and> flows e' = flows e)"
proof -
  obtain fo err e1 where
    c: "ibv_exp_create_flow (qp q) (mac_flow_attr p (type q) m vi) e = (fo, err, e1)"
    by (cases "ibv_exp_create_flow (qp q) (mac_flow_attr p (type q) m vi) e")
  note s = ibv_exp_create_flow_status [OF c]
  show ?thesis
  proof (cases fo)
    case None
    with assms c have r: "ret = (if err \<noteq> 0 then err else EINVAL)" "q' = q" "e' = e1"
      by (simp_all add: hash_rxq_add_flow_def)
    have "ret \<noteq> 0" using r(1) by (simp add: EINVAL_def)
    with s None r show ?thesis by (auto simp: request_status_def)
  next
    case (Some f)
    with assms c have r: "ret = 0" "e' = e1"
      "q' = q\<lparr>mac_flow := (mac_flow q)((m, case vi of None \<Rightarrow> 0 | Some i \<Rightarrow> i) \<mapsto> f)\<rparr>"
      by (simp_all add: hash_rxq_add_flow_def)
    with s Some show ?thesis by (auto simp: request_status_def)
  qed
qed

lemma hash_rxq_mac_addr_add_rollback_outcomes:
  assumes "hash_rxq_mac_addr_add_rollback p m i (q, e) = (q', e')"
  shows "outcomes e' = outcomes e \<and> rxq_mac_configured q' = rxq_mac_configured q"
  using assms
proof (induction i arbitrary: q e)
  case 0
  then show ?case by simp
next
  case (Suc i)
  obtain q1 e1 where
    d: "(if enabled (vlan_filter p ! i) then hash_rxq_del_flow m i (q, e) else (q, e)) = (q1, e1)"
    by (cases "if enabled (vlan_filter p ! i) then hash_rxq_del_flow m i (q, e) else (q, e)")
  have 1: "outcomes e1 = outcomes e \<and> rxq_mac_configured q1 = rxq_mac_configured q"
    using d hash_rxq_del_flow_frame [of m i q e q1 e1] by (auto split: if_splits)
  from Suc.prems d have "hash_rxq_mac_addr_add_rollback p m i (q1, e1) = (q', e')" by simp
  from Suc.IH [OF this] 1 show ?case by simp
qed

lemma hash_rxq_mac_addr_add_vlans_status:
  assumes "hash_rxq_mac_addr_add_vlans p m vs n (q, e) = (ret, n', q', e')"
  shows "request_status e e' ret"
  using assms
proof (induction vs arbitrary: n q e)
  case Nil
  then show ?case by (simp add: request_status_same)
next
  case (Cons i vs)
  show ?case
  proof (cases "enabled (vlan_filter p ! i)")
    case False
    with Cons.prems have "hash_rxq_mac_addr_add_vlans p m vs n (q, e) = (ret, n', q', e')" by simp
    from Cons.IH [OF this] show ?thesis .
  next
    case True
    obtain r1 q1 e1 where a: "hash_rxq_add_flow p m (Some i) (q, e) = (r1, q1, e1)"
      by (cases "hash_rxq_add_flow p m (Some i) (q, e)")
    from hash_rxq_add_flow_full [OF a] have s: "request_status e e1 r1" by simp
    show ?thesis
    proof (cases "r1 = 0")
      case r0: True
      with Cons.prems True a have
        "hash_rxq_mac_addr_add_vlans p m vs (n + 1) (q1, e1) = (ret, n', q', e')" by simp
      from Cons.IH [OF this] s r0 show ?thesis
        by (auto intro: request_status_trans request_status_0D)
    next
      case r0: False
      with Cons.prems True a have r: "ret = r1"
        "hash_rxq_mac_addr_add_rollback p m i (q1, e1) = (q', e')" by simp_all
      from hash_rxq_mac_addr_add_rollback_outcomes [OF r(2)] s r(1) show ?thesis
        by (auto intro: request_status_then_same)
    qed
  qed
qed

lemma hash_rxq_mac_addr_add_status:
  assumes "hash_rxq_mac_addr_add p m (q, e) = (ret, q', e')"
  shows "request_status e e' ret"
proof -
  obtain q0 e0 where
    s1: "(if m \<in> rxq_mac_configured q then hash_rxq_mac_addr_del p m (q, e) else (q, e)) = (q0, e0)"
    by (cases "if m \<in> rxq_mac_configured q then hash_rxq_mac_addr_del p m (q, e) else (q, e)")
  have o0: "outcomes e0 = outcomes e"
    using s1 hash_rxq_mac_addr_del_frame [of p m q e q0 e0] by (auto split: if_splits)
  obtain r1 n1 q1 e1 where
    v: "hash_rxq_mac_addr_add_vlans p m [0..<length (vlan_filter p)] 0 (q0, e0) = (r1, n1, q1, e1)"
    by (cases "hash_rxq_mac_addr_add_vlans p m [0..<length (vlan_filter p)] 0 (q0, e0)") auto
  from hash_rxq_mac_addr_add_vlans_status [OF v] o0 have s: "request_status e e1 r1"
    by (auto intro: request_status_after)
  show ?thesis
  proof (cases "r1 = 0")
    case False
    with assms s1 v have "ret = r1" "e' = e1" by (simp_all add: hash_rxq_mac_addr_add_def Let_def)
    with s show ?thesis by simp
  next
    case True
    obtain r2 q2 e2 where
      a: "(if n1 = 0 then hash_rxq_add_flow p m None (q1, e1) else (0, q1, e1)) = (r2, q2, e2)"
      by (cases "if n1 = 0 then hash_rxq_add_flow p m None (q1, e1) else (0, q1, e1)")
    have s2: "request_status e1 e2 r2"
      using a hash_rxq_add_flow_full [of p m None q1 e1 r2 q2 e2]
      by (auto simp: request_status_same split: if_splits)
    from assms s1 v True a have "ret = r2" "e' = e2"
      by (auto simp: hash_rxq_mac_addr_add_def Let_def split: if_splits)
    with s s2 True show ?thesis by (auto intro: request_status_trans request_status_0D)
  qed
qed

lemma on_hash_rxq_del_outcomes:
  assumes "on_hash_rxq i (\<lambda>p. hash_rxq_mac_addr_del p m) (p, e) = (p', e')"
  shows "outcomes e' = outcomes e"
proof -
  from on_hash_rxq_result [OF assms] obtain q' where
    "hash_rxq_mac_addr_del p m (hash_rxqs p ! i, e) = (q', e')" by blast
  from hash_rxq_mac_addr_del_frame [OF this] show ?thesis by simp
qed

lemma priv_mac_addr_add_rollback_outcomes:
  assumes "priv_mac_addr_add_rollback m i (p, e) = (p', e')"
  shows "outcomes e' = outcomes e"
  using assms
proof (induction i arbitrary: p e)
  case 0
  then show ?case by simp
next
  case (Suc i)
  obtain p1 e1 where s: "on_hash_rxq i (\<lambda>p. hash_rxq_mac_addr_del p m) (p, e) = (p1, e1)"
    by (cases "on_hash_rxq i (\<lambda>p. hash_rxq_mac_addr_del p m) (p, e)")
  with Suc.prems have "priv_mac_addr_add_rollback m i (p1, e1) = (p', e')" by simp
  from Suc.IH [OF this] on_hash_rxq_del_outcomes [OF s] show ?case by simp
qed

lemma priv_mac_addr_add_loop_status:
  assumes "priv_mac_addr_add_loop m is (p, e) = (ret, p', e')"
  shows "request_status e e' ret"
  using assms
proof (induction "is" arbitrary: p e)
  case Nil
  then show ?case by (simp add: request_status_same)
next
  case (Cons i "is")
  obtain r q e1 where a: "hash_rxq_mac_addr_add p m (hash_rxqs p ! i, e) = (r, q, e1)"
    by (cases "hash_rxq_mac_addr_add p m (hash_rxqs p ! i, e)")
  note s = hash_rxq_mac_addr_add_status [OF a]
  let ?p1 = "p\<lparr>hash_rxqs := (hash_rxqs p)[i := q]\<rparr>"
  show ?case
  proof (cases "r = 0")
    case True
    with Cons.prems a have "priv_mac_addr_add_loop m is (?p1, e1) = (ret, p', e')" by simp
    from Cons.IH [OF this] s True show ?thesis
      by (auto intro: request_status_trans request_status_0D)
  next
    case False
    with Cons.prems a have r: "ret = r" "priv_mac_addr_add_rollback m i (?p1, e1) = (p', e')"
      by simp_all
    from priv_mac_addr_add_rollback_outcomes [OF r(2)] s r(1) show ?thesis
      by (auto intro: request_status_then_same)
  qed
qed

lemma fold_on_hash_rxq_del_outcomes:
  assumes "fold (\<lambda>i'. on_hash_rxq i' (\<lambda>p. hash_rxq_mac_addr_del p m)) is (p, e) = (p', e')"
  shows "outcomes e' = outcomes e"
  using assms
proof (induction "is" arbitrary: p e)
  case Nil
  then show ?case by simp
next
  case (Cons i "is")
  obtain p1 e1 where s: "on_hash_rxq i (\<lambda>p. hash_rxq_mac_addr_del p m) (p, e) = (p1, e1)"
    by (cases "on_hash_rxq i (\<lambda>p. hash_rxq_mac_addr_del p m) (p, e)")
  with Cons.prems have
    "fold (\<lambda>i'. on_hash_rxq i' (\<lambda>p. hash_rxq_mac_addr_del p m)) is (p1, e1) = (p', e')" by simp
  from Cons.IH [OF this] on_hash_rxq_del_outcomes [OF s] show ?case by simp
qed

lemma priv_mac_addr_del_outcomes:
  assumes "priv_mac_addr_del i (p, e) = (p', e')"
  shows "outcomes e' = outcomes e"
proof (cases "i \<in> mac_configured p")
  case False
  with assms show ?thesis by (simp add: priv_mac_addr_del_def)
next
  case True
  obtain p1 e1 where f: "fold (\<lambda>i'. on_hash_rxq i' (\<lambda>p. hash_rxq_mac_addr_del p i))
                  [0..<length (hash_rxqs p)] (p, e) = (p1, e1)"
    by (cases "fold (\<lambda>i'. on_hash_rxq i' (\<lambda>p. hash_rxq_mac_addr_del p i))
                  [0..<length (hash_rxqs p)] (p, e)")
  from assms True f have "e' = e1" unfolding priv_mac_addr_del_def prod.case by simp
  with fold_on_hash_rxq_del_outcomes [OF f] show ?thesis by simp
qed

lemma priv_mac_addr_add_status:
  assumes "priv_mac_addr_add i a (p, e) = (ret, p', e')" and "\<not> configured_elsewhere p i a"
  shows "request_status e e' ret \<and> (ret \<noteq> 0 \<longrightarrow> started p)"
proof -
  obtain p1 e1 where d: "(if i \<in> mac_configured p then priv_mac_addr_del i (p, e) else (p, e)) = (p1, e1)"
    by (cases "(if i \<in> mac_configured p then priv_mac_addr_del i (p, e) else (p, e))")
  have o1: "outcomes e1 = outcomes e"
    using d priv_mac_addr_del_outcomes [of i p e p1 e1] by (auto split: if_splits)
  have st: "started p1 = started p"
    using d priv_mac_addr_del_shadow [of i p e p1 e1] by (auto split: if_splits)
  define p2 where "p2 = p1\<lparr>mac := (mac p1)[i := a]\<rparr>"
  have p2: "started p2 = started p" using st by (simp add: p2_def)
  note u = priv_mac_addr_add_unfold [OF assms(2) d p2_def]
  show ?thesis
  proof (cases "started p")
    case False
    with assms(1) u p2 have "ret = 0" "e' = e1" by simp_all
    with o1 show ?thesis by (simp add: request_status_same)
  next
    case True
    obtain r p3 e3 where l: "priv_mac_addr_add_loop i [0..<length (hash_rxqs p2)] (p2, e1) = (r, p3, e3)"
      by (cases "priv_mac_addr_add_loop i [0..<length (hash_rxqs p2)] (p2, e1)")
    from assms(1) u True l p2 have "ret = r" "e' = e3" by (simp_all split: if_splits)
    with priv_mac_addr_add_loop_status [OF l] o1 True show ?thesis
      by (auto intro: request_status_after)
  qed
qed

section \<open>The flows of the device and the flows the queues point to\<close>

subsection \<open>The flows a queue points to\<close>

lemma vlan_slots_set: "set (vlan_slots p) = {v. vlan_slot p v}"
  by (auto simp: vlan_slots_def vlan_slot_def)

lemma vlan_slots_distinct: "distinct (vlan_slots p)"
  by (simp add: vlan_slots_def)

lemma grid_distinct: "distinct (List.product [0..<length (mac p)] (vlan_slots p))"
  by (simp add: distinct_product vlan_slots_distinct)

lemma grid_set:
  "(m, v) \<in> set (List.product [0..<length (mac p)] (vlan_slots p))
     \<longleftrightarrow> m < length (mac p) \<and> vlan_slot p v"
  by (simp add: vlan_slots_set)

lemma map_filter_agree:
  "(\<forall>z\<in>set xs. g z = f z) \<Longrightarrow> List.map_filter g xs = List.map_filter f xs"
  by (induction xs) (simp_all add: List.map_filter_simps split: option.splits)

lemma mset_map_filter_del_gen:
  "distinct xs \<Longrightarrow> x \<in> set xs \<Longrightarrow> f x = Some a \<Longrightarrow> g x = None \<Longrightarrow> (\<forall>z. z \<noteq> x \<longrightarrow> g z = f z) \<Longrightarrow>
     mset (List.map_filter g xs) + {#a#} = mset (List.map_filter f xs)"
proof (induction xs)
  case Nil
  then show ?case by simp
next
  case (Cons z xs)
  show ?case
  proof (cases "z = x")
    case True
    with Cons.prems have "\<forall>z\<in>set xs. g z = f z" by auto
    from map_filter_agree [OF this] True Cons.prems(3,4) show ?thesis
      by (simp add: List.map_filter_simps)
  next
    case False
    with Cons.prems have "distinct xs" "x \<in> set xs" "g z = f z" by simp_all
    from Cons.IH [OF this(1,2) Cons.prems(3,4,5)] this(3) show ?thesis
      by (cases "f z") (simp_all add: List.map_filter_simps)
  qed
qed

lemma mset_map_filter_add_gen:
  "distinct xs \<Longrightarrow> x \<in> set xs \<Longrightarrow> f x = None \<Longrightarrow> g x = Some a \<Longrightarrow> (\<forall>z. z \<noteq> x \<longrightarrow> g z = f z) \<Longrightarrow>
     mset (List.map_filter g xs) = mset (List.map_filter f xs) + {#a#}"
proof (induction xs)
  case Nil
  then show ?case by simp
next
  case (Cons z xs)
  show ?case
  proof (cases "z = x")
    case True
    with Cons.prems have "\<forall>z\<in>set xs. g z = f z" by auto
    from map_filter_agree [OF this] True Cons.prems(3,4) show ?thesis
      by (simp add: List.map_filter_simps)
  next
    case False
    with Cons.prems have "distinct xs" "x \<in> set xs" "g z = f z" by simp_all
    from Cons.IH [OF this(1,2) Cons.prems(3,4,5)] this(3) show ?thesis
      by (cases "f z") (simp_all add: List.map_filter_simps)
  qed
qed

lemma mac_flows_del:
  assumes "flows_in_grid p q" and "mac_flow q (m, v) = Some a"
  shows "mset (mac_flows p (q\<lparr>mac_flow := (mac_flow q)((m, v) := None)\<rparr>)) + {#a#}
       = mset (mac_flows p q)"
proof -
  from assms have "(m, v) \<in> set (List.product [0..<length (mac p)] (vlan_slots p))"
    unfolding grid_set flows_in_grid_def by blast
  from mset_map_filter_del_gen [where f = "mac_flow q" and g = "(mac_flow q)((m, v) := None)",
      OF grid_distinct this assms(2)]
  show ?thesis by (simp add: mac_flows_def)
qed

lemma mac_flows_add:
  assumes "mac_flow q (m, v) = None" and "m < length (mac p)" and "vlan_slot p v"
  shows "mset (mac_flows p (q\<lparr>mac_flow := (mac_flow q)((m, v) \<mapsto> a)\<rparr>))
       = mset (mac_flows p q) + {#a#}"
proof -
  from assms have "(m, v) \<in> set (List.product [0..<length (mac p)] (vlan_slots p))"
    unfolding grid_set by simp
  from mset_map_filter_add_gen [where f = "mac_flow q" and g = "(mac_flow q)((m, v) \<mapsto> a)",
      OF grid_distinct this assms(1)]
  show ?thesis by (simp add: mac_flows_def)
qed

lemma mac_flows_None: "mac_flow q = (\<lambda>_. None) \<Longrightarrow> mac_flows p q = []"
  by (simp add: mac_flows_def List.map_filter_def)

lemma queue_flows_cong:
  "mac p' = mac p \<Longrightarrow> vlan_filter p' = vlan_filter p \<Longrightarrow> queue_flows p' = queue_flows p"
  by (simp add: queue_flows_def mac_flows_def vlan_slots_def no_vlan_def fun_eq_iff)

lemma flows_in_grid_cong:
  "mac p' = mac p \<Longrightarrow> vlan_filter p' = vlan_filter p \<Longrightarrow> flows_in_grid p' = flows_in_grid p"
  by (simp add: flows_in_grid_def fun_eq_iff vlan_slot_cong [of p' p])

lemma flows_marked_iff:
  "flows_marked p 0 q \<longleftrightarrow>
     flows_in_grid p q \<and> (\<forall>m v. mac_flow q (m, v) \<noteq> None \<longrightarrow> m \<in> rxq_mac_configured q)"
  unfolding flows_marked_def flows_in_grid_def by blast

subsection \<open>Deleting and adding one flow\<close>

lemma hash_rxq_del_flow_step:
  assumes "hash_rxq_del_flow m v (q, e) = (q', e')" and "queue_in_step p q e R"
  shows "queue_in_step p q' e' R"
proof (cases "mac_flow q (m, v)")
  case None
  with assms show ?thesis by (simp add: hash_rxq_del_flow_def)
next
  case (Some a)
  with assms(1) have r: "q' = q\<lparr>mac_flow := (mac_flow q)((m, v) := None)\<rparr>"
    "flows e' = remove1 a (flows e)"
    by (auto simp: hash_rxq_del_flow_def ibv_exp_destroy_flow_def)
  from assms(2) have g: "flows_in_grid p q" and s: "mset (flows e) = mset (queue_flows p q) + R"
    by (simp_all add: queue_in_step_def)
  from mac_flows_del [OF g Some] have
    m: "mset (mac_flows p q) = mset (mac_flows p q') + {#a#}" by (simp add: r(1))
  have qf: "mset (queue_flows p q) = mset (queue_flows p q') + {#a#}"
    using m by (simp add: queue_flows_def r(1))
  have "mset (flows e') = mset (flows e) - {#a#}" by (simp add: r(2))
  also have "\<dots> = mset (queue_flows p q') + R" unfolding s qf by simp
  finally have "mset (flows e') = mset (queue_flows p q') + R" .
  moreover have "flows_in_grid p q'" using g by (auto simp: flows_in_grid_def r(1))
  ultimately show ?thesis by (simp add: queue_in_step_def)
qed

lemma hash_rxq_add_flow_step:
  assumes "hash_rxq_add_flow p m vi (q, e) = (ret, q', e')" and "queue_in_step p q e R"
    and "mac_flow q (m, case vi of None \<Rightarrow> 0 | Some i \<Rightarrow> i) = None"
    and "m < length (mac p)" and "vlan_slot p (case vi of None \<Rightarrow> 0 | Some i \<Rightarrow> i)"
  shows "queue_in_step p q' e' R"
proof (cases "ret = 0")
  case False
  with hash_rxq_add_flow_full [OF assms(1)] have "q' = q" "flows e' = flows e" by simp_all
  with assms(2) show ?thesis by (simp add: queue_in_step_def)
next
  case True
  let ?ix = "(m, case vi of None \<Rightarrow> 0 | Some i \<Rightarrow> i)"
  from hash_rxq_add_flow_full [OF assms(1)] True obtain f where
    r: "q' = q\<lparr>mac_flow := (mac_flow q)(?ix \<mapsto> f)\<rparr>" "flows e' = flows e @ [f]" by auto
  from assms(2) have g: "flows_in_grid p q" and s: "mset (flows e) = mset (queue_flows p q) + R"
    by (simp_all add: queue_in_step_def)
  from mac_flows_add [OF assms(3,4,5)] have
    m: "mset (mac_flows p q') = mset (mac_flows p q) + {#f#}" by (simp add: r(1))
  have qf: "mset (queue_flows p q') = mset (queue_flows p q) + {#f#}"
    using m by (simp add: queue_flows_def r(1))
  have "mset (flows e') = mset (queue_flows p q') + R" unfolding qf by (simp add: r(2) s)
  moreover have "flows_in_grid p q'" using g assms(4,5) by (auto simp: flows_in_grid_def r(1))
  ultimately show ?thesis by (simp add: queue_in_step_def)
qed

lemma queue_in_step_bits [simp]:
  "queue_in_step p (q\<lparr>rxq_mac_configured := b\<rparr>) e R = queue_in_step p q e R"
  by (simp add: queue_in_step_def flows_in_grid_def queue_flows_def mac_flows_def)

subsection \<open>Deleting the flows of an address\<close>

lemma hash_rxq_mac_addr_del_vlans_step:
  assumes "hash_rxq_mac_addr_del_vlans p m vs n (q, e) = (n', q', e')"
    and "queue_in_step p q e R"
  shows "queue_in_step p q' e' R"
  using assms
proof (induction vs arbitrary: n q e)
  case Nil
  then show ?case by simp
next
  case (Cons i vs)
  show ?case
  proof (cases "enabled (vlan_filter p ! i)")
    case False
    with Cons.prems have "hash_rxq_mac_addr_del_vlans p m vs n (q, e) = (n', q', e')" by simp
    from Cons.IH [OF this Cons.prems(2)] show ?thesis .
  next
    case True
    obtain q1 e1 where d: "hash_rxq_del_flow m i (q, e) = (q1, e1)"
      by (cases "hash_rxq_del_flow m i (q, e)")
    from Cons.prems True d have "hash_rxq_mac_addr_del_vlans p m vs (n + 1) (q1, e1) = (n', q', e')"
      by simp
    from Cons.IH [OF this hash_rxq_del_flow_step [OF d Cons.prems(2)]] show ?thesis .
  qed
qed

lemma hash_rxq_mac_addr_del_step:
  assumes "hash_rxq_mac_addr_del p m (q, e) = (q', e')" and "queue_in_step p q e R"
  shows "queue_in_step p q' e' R"
proof (cases "m \<in> rxq_mac_configured q")
  case False
  with assms show ?thesis by (simp add: hash_rxq_mac_addr_del_def)
next
  case True
  obtain n1 q1 e1 where
    v: "hash_rxq_mac_addr_del_vlans p m [0..<length (vlan_filter p)] 0 (q, e) = (n1, q1, e1)"
    by (cases "hash_rxq_mac_addr_del_vlans p m [0..<length (vlan_filter p)] 0 (q, e)")
  note s1 = hash_rxq_mac_addr_del_vlans_step [OF v assms(2)]
  obtain q2 e2 where
    d: "(if n1 = 0 then hash_rxq_del_flow m 0 (q1, e1) else (q1, e1)) = (q2, e2)"
    by (cases "if n1 = 0 then hash_rxq_del_flow m 0 (q1, e1) else (q1, e1)")
  have s2: "queue_in_step p q2 e2 R"
    using d s1 hash_rxq_del_flow_step [of m 0 q1 e1 q2 e2 p R] by (auto split: if_splits)
  from assms(1) True v d have
    "q' = q2\<lparr>rxq_mac_configured := rxq_mac_configured q2 - {m}\<rparr>" "e' = e2"
    by (simp_all add: hash_rxq_mac_addr_del_def)
  with s2 show ?thesis by simp
qed

lemma hash_rxq_mac_addr_del_marked0:
  assumes "hash_rxq_mac_addr_del p m (q, e) = (q', e')" and "flows_marked p 0 q"
  shows "flows_marked p 0 q' \<and> (\<forall>v. mac_flow q' (m, v) = None)
     \<and> (\<forall>m' v'. m' \<noteq> m \<longrightarrow> mac_flow q' (m', v') = mac_flow q (m', v'))
     \<and> rxq_mac_configured q' = rxq_mac_configured q - {m}"
proof (cases "m \<in> rxq_mac_configured q")
  case False
  with hash_rxq_mac_addr_del_exact [OF assms(1)] have q: "q' = q" by simp
  have "\<forall>v. mac_flow q (m, v) = None"
  proof (intro allI, rule ccontr)
    fix v assume "mac_flow q (m, v) \<noteq> None"
    with assms(2) have "m \<in> rxq_mac_configured q" unfolding flows_marked_def by blast
    with False show False by simp
  qed
  with assms(2) False q show ?thesis by simp
next
  case True
  with hash_rxq_mac_addr_del_exact [OF assms(1)] have
    x: "mac_flow q' = (\<lambda>(m', v'). if m' = m \<and> vlan_slot p v' then None else mac_flow q (m', v'))"
      "rxq_mac_configured q' = rxq_mac_configured q - {m}" by simp_all
  have row: "\<forall>v. mac_flow q' (m, v) = None"
  proof (intro allI, rule ccontr)
    fix v assume a: "mac_flow q' (m, v) \<noteq> None"
    with x(1) have "mac_flow q (m, v) \<noteq> None" "\<not> vlan_slot p v" by (auto split: if_splits)
    with assms(2) show False unfolding flows_marked_def by blast
  qed
  have "flows_marked p 0 q'"
    unfolding flows_marked_def
  proof (intro allI impI)
    fix m' v' assume a: "mac_flow q' (m', v') \<noteq> None"
    with row have ne: "m' \<noteq> m" by auto
    with a x(1) have "mac_flow q (m', v') \<noteq> None" by simp
    with assms(2) ne x(2)
    show "0 \<le> m' \<and> m' < length (mac p) \<and> m' \<in> rxq_mac_configured q' \<and> vlan_slot p v'"
      by (simp add: flows_marked_def)
  qed
  with row x show ?thesis by simp
qed

subsection \<open>Adding the flows of an address\<close>

lemma hash_rxq_mac_addr_add_rollback_exact:
  assumes "hash_rxq_mac_addr_add_rollback p m i (q, e) = (q', e')"
  shows "mac_flow q' = (\<lambda>(m', v'). if m' = m \<and> v' < i \<and> enabled (vlan_filter p ! v')
                                    then None else mac_flow q (m', v'))"
  using assms
proof (induction i arbitrary: q e)
  case 0
  then show ?case by (simp add: fun_eq_iff)
next
  case (Suc i)
  obtain q1 e1 where
    d: "(if enabled (vlan_filter p ! i) then hash_rxq_del_flow m i (q, e) else (q, e)) = (q1, e1)"
    by (cases "if enabled (vlan_filter p ! i) then hash_rxq_del_flow m i (q, e) else (q, e)")
  have 1: "mac_flow q1 = (if enabled (vlan_filter p ! i) then (mac_flow q)((m, i) := None)
                          else mac_flow q)"
    using d hash_rxq_del_flow_exact [of m i q e q1 e1] by (auto split: if_splits)
  from Suc.prems d have "hash_rxq_mac_addr_add_rollback p m i (q1, e1) = (q', e')" by simp
  from Suc.IH [OF this] 1 show ?case by (auto simp: fun_eq_iff less_Suc_eq)
qed

lemma hash_rxq_mac_addr_add_rollback_step:
  assumes "hash_rxq_mac_addr_add_rollback p m i (q, e) = (q', e')" and "queue_in_step p q e R"
  shows "queue_in_step p q' e' R"
  using assms
proof (induction i arbitrary: q e)
  case 0
  then show ?case by simp
next
  case (Suc i)
  obtain q1 e1 where
    d: "(if enabled (vlan_filter p ! i) then hash_rxq_del_flow m i (q, e) else (q, e)) = (q1, e1)"
    by (cases "if enabled (vlan_filter p ! i) then hash_rxq_del_flow m i (q, e) else (q, e)")
  have 1: "queue_in_step p q1 e1 R"
    using d Suc.prems(2) hash_rxq_del_flow_step [of m i q e q1 e1 p R] by (auto split: if_splits)
  from Suc.prems d have "hash_rxq_mac_addr_add_rollback p m i (q1, e1) = (q', e')" by simp
  from Suc.IH [OF this 1] show ?case .
qed

lemma enabled_not_no_vlan:
  "i < length (vlan_filter p) \<Longrightarrow> enabled (vlan_filter p ! i) \<Longrightarrow> \<not> no_vlan p"
  by (auto simp: no_vlan_def list_all_length)

lemma hash_rxq_mac_addr_add_vlans_step:
  assumes "hash_rxq_mac_addr_add_vlans p m [i0..<V] n (q, e) = (ret, n', q', e')"
    and "V = length (vlan_filter p)" and "queue_in_step p q e R" and "m < length (mac p)"
    and "\<forall>v. i0 \<le> v \<longrightarrow> mac_flow q (m, v) = None"
  shows "queue_in_step p q' e' R \<and> rxq_mac_configured q' = rxq_mac_configured q
     \<and> (\<forall>m' v'. m' \<noteq> m \<longrightarrow> mac_flow q' (m', v') = mac_flow q (m', v'))
     \<and> (ret \<noteq> 0 \<longrightarrow> (\<forall>v. mac_flow q' (m, v) = None))
     \<and> (ret = 0 \<longrightarrow> n' = n + length (filter (\<lambda>i. enabled (vlan_filter p ! i)) [i0..<V])
            \<and> (\<forall>v. \<not> (i0 \<le> v \<and> v < V \<and> enabled (vlan_filter p ! v)) \<longrightarrow>
                   mac_flow q' (m, v) = mac_flow q (m, v)))"
  using assms
proof (induction "V - i0" arbitrary: i0 n q e)
  case 0
  then have emp: "[i0..<V] = []" by simp
  from "0.prems"(1) have "ret = 0" "n' = n" "q' = q" "e' = e" unfolding emp by simp_all
  moreover have "filter (\<lambda>i. enabled (vlan_filter p ! i)) [i0..<V] = []" unfolding emp by simp
  ultimately show ?case using "0.prems"(3) by simp
next
  case (Suc d)
  have lt: "i0 < V" using Suc.hyps(2) by simp
  then have upt: "[i0..<V] = i0 # [Suc i0..<V]" by (simp add: upt_conv_Cons)
  have dd: "d = V - Suc i0" using Suc.hyps(2) by simp
  show ?case
  proof (cases "enabled (vlan_filter p ! i0)")
    case False
    with Suc.prems(1) have
      rec: "hash_rxq_mac_addr_add_vlans p m [Suc i0..<V] n (q, e) = (ret, n', q', e')"
      unfolding upt by simp
    have pre: "\<forall>v. Suc i0 \<le> v \<longrightarrow> mac_flow q (m, v) = None" using Suc.prems(5) by simp
    from Suc.hyps(1) [OF dd rec Suc.prems(2,3,4) pre] False show ?thesis
      unfolding upt by (auto simp: le_Suc_eq)
  next
    case True
    have nv: "\<not> no_vlan p"
      using enabled_not_no_vlan [of i0 p] True lt Suc.prems(2) by simp
    with True lt Suc.prems(2) have slot: "vlan_slot p i0" by (simp add: vlan_slot_def)
    obtain r1 q1 e1 where a: "hash_rxq_add_flow p m (Some i0) (q, e) = (r1, q1, e1)"
      by (cases "hash_rxq_add_flow p m (Some i0) (q, e)")
    have empty0: "mac_flow q (m, i0) = None" using Suc.prems(5) by simp
    from hash_rxq_add_flow_step [OF a Suc.prems(3) _ Suc.prems(4)] empty0 slot have
      s1: "queue_in_step p q1 e1 R" by simp
    note f = hash_rxq_add_flow_full [OF a]
    show ?thesis
    proof (cases "r1 = 0")
      case r0: True
      with f obtain fl where q1: "q1 = q\<lparr>mac_flow := (mac_flow q)((m, i0) \<mapsto> fl)\<rparr>" by auto
      from Suc.prems(1) True a r0 have
        rec: "hash_rxq_mac_addr_add_vlans p m [Suc i0..<V] (n + 1) (q1, e1) = (ret, n', q', e')"
        unfolding upt by simp
      have pre: "\<forall>v. Suc i0 \<le> v \<longrightarrow> mac_flow q1 (m, v) = None"
        using Suc.prems(5) q1 by simp
      from Suc.hyps(1) [OF dd rec Suc.prems(2) s1 Suc.prems(4) pre] have
        IH: "queue_in_step p q' e' R" "rxq_mac_configured q' = rxq_mac_configured q1"
          "\<forall>m' v'. m' \<noteq> m \<longrightarrow> mac_flow q' (m', v') = mac_flow q1 (m', v')"
          "ret \<noteq> 0 \<longrightarrow> (\<forall>v. mac_flow q' (m, v) = None)"
          "ret = 0 \<longrightarrow> n' = n + 1 + length (filter (\<lambda>i. enabled (vlan_filter p ! i)) [Suc i0..<V])
            \<and> (\<forall>v. \<not> (Suc i0 \<le> v \<and> v < V \<and> enabled (vlan_filter p ! v)) \<longrightarrow>
                   mac_flow q' (m, v) = mac_flow q1 (m, v))"
        by simp_all
      have A: "\<forall>m' v'. m' \<noteq> m \<longrightarrow> mac_flow q' (m', v') = mac_flow q (m', v')"
        using IH(3) q1 by simp
      have B: "ret = 0 \<longrightarrow> n' = n + length (filter (\<lambda>i. enabled (vlan_filter p ! i)) [i0..<V])
            \<and> (\<forall>v. \<not> (i0 \<le> v \<and> v < V \<and> enabled (vlan_filter p ! v)) \<longrightarrow>
                   mac_flow q' (m, v) = mac_flow q (m, v))"
      proof (intro impI conjI allI)
        assume "ret = 0"
        with IH(5) True show "n' = n + length (filter (\<lambda>i. enabled (vlan_filter p ! i)) [i0..<V])"
          unfolding upt by simp
      next
        fix v assume r: "ret = 0" and v: "\<not> (i0 \<le> v \<and> v < V \<and> enabled (vlan_filter p ! v))"
        with True lt have ne: "v \<noteq> i0" by auto
        from v have "\<not> (Suc i0 \<le> v \<and> v < V \<and> enabled (vlan_filter p ! v))" by auto
        with IH(5) r have "mac_flow q' (m, v) = mac_flow q1 (m, v)" by simp
        with q1 ne show "mac_flow q' (m, v) = mac_flow q (m, v)" by simp
      qed
      from IH(1,2,4) A B q1 show ?thesis by simp
    next
      case r0: False
      with f have same: "q1 = q" by simp
      from Suc.prems(1) True a r0 have r: "ret = r1"
        "hash_rxq_mac_addr_add_rollback p m i0 (q1, e1) = (q', e')"
        unfolding upt by simp_all
      note x = hash_rxq_mac_addr_add_rollback_exact [OF r(2)]
      note o = hash_rxq_mac_addr_add_rollback_outcomes [OF r(2)]
      note s2 = hash_rxq_mac_addr_add_rollback_step [OF r(2) s1]
      from Suc.prems(3) have g: "flows_in_grid p q" by (simp add: queue_in_step_def)
      have row: "\<forall>v. mac_flow q' (m, v) = None"
      proof (intro allI, rule ccontr)
        fix v assume a: "mac_flow q' (m, v) \<noteq> None"
        with x same have b: "mac_flow q (m, v) \<noteq> None" "\<not> (v < i0 \<and> enabled (vlan_filter p ! v))"
          by (auto split: if_splits)
        from b(1) Suc.prems(5) have "v < i0" by (meson not_le)
        moreover from g b(1) have "vlan_slot p v" unfolding flows_in_grid_def by blast
        with nv have "enabled (vlan_filter p ! v)" by (simp add: vlan_slot_def)
        ultimately show False using b(2) by simp
      qed
      have A: "\<forall>m' v'. m' \<noteq> m \<longrightarrow> mac_flow q' (m', v') = mac_flow q (m', v')"
        using x same by simp
      from s2 o same row A r(1) r0 show ?thesis by simp
    qed
  qed
qed

lemma hash_rxq_mac_addr_add_step:
  assumes "hash_rxq_mac_addr_add p m (q, e) = (ret, q', e')" and "m < length (mac p)"
    and "flows_marked p 0 q" and "queue_in_step p q e R"
  shows "flows_marked p 0 q' \<and> queue_in_step p q' e' R
     \<and> (\<forall>m' v'. m' \<noteq> m \<longrightarrow> mac_flow q' (m', v') = mac_flow q (m', v'))
     \<and> rxq_mac_configured q' = (if ret = 0 then insert m (rxq_mac_configured q)
                                 else rxq_mac_configured q - {m})
     \<and> (ret \<noteq> 0 \<longrightarrow> (\<forall>v. mac_flow q' (m, v) = None))"
proof -
  obtain q0 e0 where
    s1: "(if m \<in> rxq_mac_configured q then hash_rxq_mac_addr_del p m (q, e) else (q, e)) = (q0, e0)"
    by (cases "if m \<in> rxq_mac_configured q then hash_rxq_mac_addr_del p m (q, e) else (q, e)")
  have q0: "flows_marked p 0 q0" "queue_in_step p q0 e0 R" "\<forall>v. mac_flow q0 (m, v) = None"
    "\<forall>m' v'. m' \<noteq> m \<longrightarrow> mac_flow q0 (m', v') = mac_flow q (m', v')"
    "rxq_mac_configured q0 = rxq_mac_configured q - {m}"
  proof -
    show "flows_marked p 0 q0"
      using s1 assms(3) hash_rxq_mac_addr_del_marked0 [of p m q e q0 e0] by (auto split: if_splits)
    show "queue_in_step p q0 e0 R"
      using s1 assms(4) hash_rxq_mac_addr_del_step [of p m q e q0 e0 R] by (auto split: if_splits)
    show "\<forall>v. mac_flow q0 (m, v) = None"
    proof (cases "m \<in> rxq_mac_configured q")
      case True
      with s1 hash_rxq_mac_addr_del_marked0 [of p m q e q0 e0] assms(3) show ?thesis by simp
    next
      case False
      with s1 have "q0 = q" by simp
      moreover have "\<forall>v. mac_flow q (m, v) = None"
      proof (intro allI, rule ccontr)
        fix v assume "mac_flow q (m, v) \<noteq> None"
        with assms(3) have "m \<in> rxq_mac_configured q" unfolding flows_marked_def by blast
        with False show False by simp
      qed
      ultimately show ?thesis by simp
    qed
    show "\<forall>m' v'. m' \<noteq> m \<longrightarrow> mac_flow q0 (m', v') = mac_flow q (m', v')"
      using s1 assms(3) hash_rxq_mac_addr_del_marked0 [of p m q e q0 e0] by (auto split: if_splits)
    show "rxq_mac_configured q0 = rxq_mac_configured q - {m}"
      using s1 assms(3) hash_rxq_mac_addr_del_marked0 [of p m q e q0 e0] by (auto split: if_splits)
  qed
  obtain r1 n1 q1 e1 where
    v: "hash_rxq_mac_addr_add_vlans p m [0..<length (vlan_filter p)] 0 (q0, e0) = (r1, n1, q1, e1)"
    by (cases "hash_rxq_mac_addr_add_vlans p m [0..<length (vlan_filter p)] 0 (q0, e0)") auto
  from hash_rxq_mac_addr_add_vlans_step [OF v refl q0(2) assms(2)] q0(3) have
    s: "queue_in_step p q1 e1 R" "rxq_mac_configured q1 = rxq_mac_configured q0"
      "\<forall>m' v'. m' \<noteq> m \<longrightarrow> mac_flow q1 (m', v') = mac_flow q0 (m', v')"
      "r1 \<noteq> 0 \<longrightarrow> (\<forall>v. mac_flow q1 (m, v) = None)"
      "r1 = 0 \<longrightarrow> n1 = length (filter (\<lambda>i. enabled (vlan_filter p ! i)) [0..<length (vlan_filter p)])
            \<and> (\<forall>v. \<not> (v < length (vlan_filter p) \<and> enabled (vlan_filter p ! v)) \<longrightarrow>
                   mac_flow q1 (m, v) = mac_flow q0 (m, v))"
    by simp_all
  have others: "\<And>qq. (\<forall>m' v'. m' \<noteq> m \<longrightarrow> mac_flow qq (m', v') = mac_flow q1 (m', v')) \<Longrightarrow>
                  (\<forall>m' v'. m' \<noteq> m \<longrightarrow> mac_flow qq (m', v') = mac_flow q (m', v'))"
    using s(3) q0(4) by simp
  have marked_fail: "\<And>qq. flows_in_grid p qq \<Longrightarrow> \<forall>v. mac_flow qq (m, v) = None \<Longrightarrow>
      \<forall>m' v'. m' \<noteq> m \<longrightarrow> mac_flow qq (m', v') = mac_flow q (m', v') \<Longrightarrow>
      rxq_mac_configured qq = rxq_mac_configured q - {m} \<Longrightarrow> flows_marked p 0 qq"
  proof -
    fix qq assume g: "flows_in_grid p qq" and row: "\<forall>v. mac_flow qq (m, v) = None"
      and oth: "\<forall>m' v'. m' \<noteq> m \<longrightarrow> mac_flow qq (m', v') = mac_flow q (m', v')"
      and bits: "rxq_mac_configured qq = rxq_mac_configured q - {m}"
    show "flows_marked p 0 qq"
      unfolding flows_marked_iff
    proof (intro conjI allI impI)
      show "flows_in_grid p qq" by (rule g)
    next
      fix m' v' assume a: "mac_flow qq (m', v') \<noteq> None"
      with row have ne: "m' \<noteq> m" by auto
      with a oth have "mac_flow q (m', v') \<noteq> None" by simp
      with assms(3) have "m' \<in> rxq_mac_configured q" unfolding flows_marked_def by blast
      with ne bits show "m' \<in> rxq_mac_configured qq" by simp
    qed
  qed
  have marked_ok: "\<And>qq. flows_in_grid p qq \<Longrightarrow>
      \<forall>m' v'. m' \<noteq> m \<longrightarrow> mac_flow qq (m', v') = mac_flow q (m', v') \<Longrightarrow>
      rxq_mac_configured qq = insert m (rxq_mac_configured q) \<Longrightarrow> flows_marked p 0 qq"
  proof -
    fix qq assume g: "flows_in_grid p qq"
      and oth: "\<forall>m' v'. m' \<noteq> m \<longrightarrow> mac_flow qq (m', v') = mac_flow q (m', v')"
      and bits: "rxq_mac_configured qq = insert m (rxq_mac_configured q)"
    show "flows_marked p 0 qq"
      unfolding flows_marked_iff
    proof (intro conjI allI impI)
      show "flows_in_grid p qq" by (rule g)
    next
      fix m' v' assume a: "mac_flow qq (m', v') \<noteq> None"
      show "m' \<in> rxq_mac_configured qq"
      proof (cases "m' = m")
        case True
        with bits show ?thesis by simp
      next
        case False
        with a oth have "mac_flow q (m', v') \<noteq> None" by simp
        with assms(3) have "m' \<in> rxq_mac_configured q" unfolding flows_marked_def by blast
        with bits show ?thesis by simp
      qed
    qed
  qed
  show ?thesis
  proof (cases "r1 = 0")
    case False
    with assms(1) s1 v have r: "ret = r1" "q' = q1" "e' = e1"
      by (simp_all add: hash_rxq_mac_addr_add_def Let_def)
    from s(1) have g: "flows_in_grid p q1" by (simp add: queue_in_step_def)
    from s(4) False have row: "\<forall>v. mac_flow q1 (m, v) = None" by simp
    have oth: "\<forall>m' v'. m' \<noteq> m \<longrightarrow> mac_flow q1 (m', v') = mac_flow q (m', v')"
      by (rule others) simp
    have bits: "rxq_mac_configured q1 = rxq_mac_configured q - {m}" using s(2) q0(5) by simp
    from marked_fail [OF g row oth bits] s(1) oth bits row r False show ?thesis by simp
  next
    case True
    from s(5) True no_vlan_count [of p] have n1: "n1 = 0 \<longleftrightarrow> no_vlan p" by simp
    obtain r2 q2 e2 where
      a: "(if n1 = 0 then hash_rxq_add_flow p m None (q1, e1) else (0, q1, e1)) = (r2, q2, e2)"
      by (cases "if n1 = 0 then hash_rxq_add_flow p m None (q1, e1) else (0, q1, e1)")
    from assms(1) s1 v True a have
      r: "ret = r2" "e' = e2"
        "q' = (if r2 \<noteq> 0 then q2 else q2\<lparr>rxq_mac_configured := insert m (rxq_mac_configured q2)\<rparr>)"
      by (auto simp: hash_rxq_mac_addr_add_def Let_def split: if_splits)
    have q2: "queue_in_step p q2 e2 R" "rxq_mac_configured q2 = rxq_mac_configured q1"
      "\<forall>m' v'. m' \<noteq> m \<longrightarrow> mac_flow q2 (m', v') = mac_flow q1 (m', v')"
      "r2 \<noteq> 0 \<longrightarrow> q2 = q1 \<and> no_vlan p"
    proof -
      show "queue_in_step p q2 e2 R"
      proof (cases "n1 = 0")
        case False
        with a s(1) show ?thesis by simp
      next
        case z: True
        with a have af: "hash_rxq_add_flow p m None (q1, e1) = (r2, q2, e2)" by simp
        from z n1 have nv: "no_vlan p" by simp
        then have none: "\<And>v. \<not> (v < length (vlan_filter p) \<and> enabled (vlan_filter p ! v))"
          by (auto simp: no_vlan_def list_all_length)
        with s(5) True q0(3) have e0: "mac_flow q1 (m, 0) = None" by simp
        have slot: "vlan_slot p 0" using nv by (simp add: vlan_slot_def)
        from hash_rxq_add_flow_step [OF af s(1) _ assms(2)] e0 slot show ?thesis by simp
      qed
      show "rxq_mac_configured q2 = rxq_mac_configured q1"
        using a hash_rxq_add_flow_full [of p m None q1 e1 r2 q2 e2]
        by (auto split: if_splits)
      show "\<forall>m' v'. m' \<noteq> m \<longrightarrow> mac_flow q2 (m', v') = mac_flow q1 (m', v')"
        using a hash_rxq_add_flow_full [of p m None q1 e1 r2 q2 e2]
        by (auto split: if_splits)
      show "r2 \<noteq> 0 \<longrightarrow> q2 = q1 \<and> no_vlan p"
        using a n1 hash_rxq_add_flow_full [of p m None q1 e1 r2 q2 e2]
        by (auto split: if_splits)
    qed
    have oth: "\<forall>m' v'. m' \<noteq> m \<longrightarrow> mac_flow q2 (m', v') = mac_flow q (m', v')"
      by (rule others) (use q2(3) in simp)
    from q2(1) have g: "flows_in_grid p q2" by (simp add: queue_in_step_def)
    show ?thesis
    proof (cases "r2 = 0")
      case ok: True
      with r have q': "q' = q2\<lparr>rxq_mac_configured := insert m (rxq_mac_configured q2)\<rparr>" by simp
      have g': "flows_in_grid p q'" using g by (simp add: q' flows_in_grid_def)
      have oth': "\<forall>m' v'. m' \<noteq> m \<longrightarrow> mac_flow q' (m', v') = mac_flow q (m', v')"
        using oth by (simp add: q')
      have bits: "rxq_mac_configured q' = insert m (rxq_mac_configured q)"
        using q2(2) s(2) q0(5) by (simp add: q')
      from marked_ok [OF g' oth' bits] q2(1) oth' bits r ok show ?thesis by (simp add: q')
    next
      case bad: False
      with r q2(4) have q': "q' = q1" and nv: "no_vlan p" by simp_all
      then have none: "\<And>v. \<not> (v < length (vlan_filter p) \<and> enabled (vlan_filter p ! v))"
        by (auto simp: no_vlan_def list_all_length)
      with s(5) True q0(3) have row: "\<forall>v. mac_flow q1 (m, v) = None" by simp
      from s(1) have g1: "flows_in_grid p q1" by (simp add: queue_in_step_def)
      have oth1: "\<forall>m' v'. m' \<noteq> m \<longrightarrow> mac_flow q1 (m', v') = mac_flow q (m', v')"
        by (rule others) simp
      have bits: "rxq_mac_configured q1 = rxq_mac_configured q - {m}" using s(2) q0(5) by simp
      from q2(1) q2(4) bad have s': "queue_in_step p q1 e2 R" by simp
      from marked_fail [OF g1 row oth1 bits] s' oth1 bits row r bad q' show ?thesis by simp
    qed
  qed
qed

subsection \<open>The operations on one queue keep the device in step\<close>

lemma hash_rxq_mac_addrs_del_step:
  assumes "hash_rxq_mac_addrs_del p (q, e) = (q', e')"
    and "flows_marked p 0 q" and "queue_in_step p q e R"
  shows "flows_marked p 0 q' \<and> queue_in_step p q' e' R"
proof -
  have gen: "\<And>q e q' e'. fold (\<lambda>i. hash_rxq_mac_addr_del p i) ms (q, e) = (q', e') \<Longrightarrow>
      flows_marked p 0 q \<Longrightarrow> queue_in_step p q e R \<Longrightarrow>
      flows_marked p 0 q' \<and> queue_in_step p q' e' R" for ms
  proof (induction ms)
    case Nil
    then show ?case by simp
  next
    case (Cons m ms)
    obtain q1 e1 where d: "hash_rxq_mac_addr_del p m (q, e) = (q1, e1)"
      by (cases "hash_rxq_mac_addr_del p m (q, e)")
    from Cons.prems(1) d have f: "fold (\<lambda>i. hash_rxq_mac_addr_del p i) ms (q1, e1) = (q', e')"
      by simp
    from hash_rxq_mac_addr_del_marked0 [OF d Cons.prems(2)] have m1: "flows_marked p 0 q1" by simp
    from Cons.IH [OF f m1 hash_rxq_mac_addr_del_step [OF d Cons.prems(3)]] show ?case .
  qed
  from assms show ?thesis unfolding hash_rxq_mac_addrs_del_def by (rule gen)
qed

lemma hash_rxq_mac_addrs_add_rollback_step:
  assumes "hash_rxq_mac_addrs_add_rollback p i (q, e) = (q', e')"
    and "flows_marked p 0 q" and "queue_in_step p q e R"
  shows "flows_marked p 0 q' \<and> queue_in_step p q' e' R"
  using assms
proof (induction i arbitrary: q e)
  case 0
  then show ?case by simp
next
  case (Suc i)
  obtain q1 e1 where d: "hash_rxq_mac_addr_del p i (q, e) = (q1, e1)"
    by (cases "hash_rxq_mac_addr_del p i (q, e)")
  from Suc.prems(1) d have f: "hash_rxq_mac_addrs_add_rollback p i (q1, e1) = (q', e')" by simp
  from hash_rxq_mac_addr_del_marked0 [OF d Suc.prems(2)] have m1: "flows_marked p 0 q1" by simp
  from Suc.IH [OF f m1 hash_rxq_mac_addr_del_step [OF d Suc.prems(3)]] show ?case .
qed

lemma hash_rxq_mac_addrs_add_loop_step:
  assumes "hash_rxq_mac_addrs_add_loop p ms (q, e) = (ret, q', e')"
    and "\<forall>m\<in>set ms. m < length (mac p)"
    and "flows_marked p 0 q" and "queue_in_step p q e R"
  shows "flows_marked p 0 q' \<and> queue_in_step p q' e' R"
  using assms
proof (induction ms arbitrary: q e)
  case Nil
  then show ?case by simp
next
  case (Cons i ms)
  from Cons.prems(2) have lt: "i < length (mac p)" and rest: "\<forall>m\<in>set ms. m < length (mac p)"
    by simp_all
  show ?case
  proof (cases "i \<in> mac_configured p")
    case False
    with Cons.prems(1) have "hash_rxq_mac_addrs_add_loop p ms (q, e) = (ret, q', e')" by simp
    from Cons.IH [OF this rest Cons.prems(3,4)] show ?thesis .
  next
    case True
    obtain r1 q1 e1 where a: "hash_rxq_mac_addr_add p i (q, e) = (r1, q1, e1)"
      by (cases "hash_rxq_mac_addr_add p i (q, e)")
    from hash_rxq_mac_addr_add_step [OF a lt Cons.prems(3,4)] have
      s: "flows_marked p 0 q1" "queue_in_step p q1 e1 R" by simp_all
    show ?thesis
    proof (cases "r1 = 0")
      case r0: True
      with Cons.prems(1) True a have "hash_rxq_mac_addrs_add_loop p ms (q1, e1) = (ret, q', e')"
        by simp
      from Cons.IH [OF this rest s] show ?thesis .
    next
      case r0: False
      with Cons.prems(1) True a have "hash_rxq_mac_addrs_add_rollback p i (q1, e1) = (q', e')"
        by simp
      from hash_rxq_mac_addrs_add_rollback_step [OF this s] show ?thesis .
    qed
  qed
qed

lemma restore_mac_flows_step:
  assumes "restore_mac_flows p (q, e) = (q', e')"
    and "flows_marked p 0 q" and "queue_in_step p q e R"
  shows "flows_marked p 0 q' \<and> queue_in_step p q' e' R"
proof (cases "started p")
  case False
  with assms show ?thesis by (simp add: restore_mac_flows_def)
next
  case True
  obtain r1 q1 e1 where
    a: "hash_rxq_mac_addrs_add_loop p [0..<length (mac p)] (q, e) = (r1, q1, e1)"
    by (cases "hash_rxq_mac_addrs_add_loop p [0..<length (mac p)] (q, e)")
  with assms(1) True have r: "q' = q1" "e' = e1"
    by (simp_all add: restore_mac_flows_def hash_rxq_mac_addrs_add_def)
  from hash_rxq_mac_addrs_add_loop_step [OF a _ assms(2,3)] r show ?thesis by simp
qed

lemma flows_marked_mac_only:
  "mac_flow q' = mac_flow q \<Longrightarrow> rxq_mac_configured q' = rxq_mac_configured q \<Longrightarrow>
     flows_marked p k q' = flows_marked p k q"
  by (simp add: flows_marked_def)

lemma hash_rxq_promiscuous_enable_step:
  assumes "hash_rxq_promiscuous_enable p (q, e) = (ret, q', e')"
    and "flows_marked p 0 q" and "queue_in_step p q e R"
  shows "flows_marked p 0 q' \<and> queue_in_step p q' e' R"
proof (cases "vf p \<or> promisc_flow q \<noteq> None")
  case True
  with assms(1) have "q' = q" "e' = e"
    by (auto simp: hash_rxq_promiscuous_enable_def split: if_splits)
  with assms(2,3) show ?thesis by simp
next
  case False
  obtain fo err e1 where
    c: "ibv_exp_create_flow (qp q) (priv_populate_flow_attr p (type q)) e = (fo, err, e1)"
    by (cases "ibv_exp_create_flow (qp q) (priv_populate_flow_attr p (type q)) e")
  note s = ibv_exp_create_flow_status [OF c]
  show ?thesis
  proof (cases fo)
    case None
    with assms(1) False c have "q' = q" "e' = e1" by (simp_all add: hash_rxq_promiscuous_enable_def)
    with s None assms(2,3) show ?thesis by (simp add: queue_in_step_def)
  next
    case (Some f)
    with assms(1) False c have r: "q' = q\<lparr>promisc_flow := Some f\<rparr>" "e' = e1"
      by (simp_all add: hash_rxq_promiscuous_enable_def)
    from s Some have fl: "flows e1 = flows e @ [f]" by simp
    from False have pn: "promisc_flow q = None" by simp
    have "queue_in_step p q' e' R"
      using assms(3) pn fl
      by (simp add: queue_in_step_def r flows_in_grid_def queue_flows_def mac_flows_def)
    moreover have "flows_marked p 0 q'" using assms(2) by (simp add: r flows_marked_def)
    ultimately show ?thesis by simp
  qed
qed

lemma hash_rxq_promiscuous_disable_step:
  assumes "hash_rxq_promiscuous_disable p (q, e) = (q', e')"
    and "flows_marked p 0 q" and "queue_in_step p q e R"
  shows "flows_marked p 0 q' \<and> queue_in_step p q' e' R"
proof (cases "vf p \<or> promisc_flow q = None")
  case True
  with assms(1) have "q' = q" "e' = e"
    by (auto simp: hash_rxq_promiscuous_disable_def split: if_splits)
  with assms(2,3) show ?thesis by simp
next
  case False
  then obtain f where f: "promisc_flow q = Some f" and nvf: "\<not> vf p" by auto
  with assms(1) have r: "q' = q\<lparr>promisc_flow := None\<rparr>" "flows e' = remove1 f (flows e)"
    by (auto simp: hash_rxq_promiscuous_disable_def ibv_exp_destroy_flow_def)
  from assms(3) have s: "mset (flows e) = mset (queue_flows p q) + R"
    by (simp add: queue_in_step_def)
  have qf: "mset (queue_flows p q) = mset (queue_flows p q') + {#f#}"
    using f by (simp add: queue_flows_def mac_flows_def r(1))
  have "mset (flows e') = mset (flows e) - {#f#}" by (simp add: r(2))
  also have "\<dots> = mset (queue_flows p q') + R" unfolding s qf by simp
  finally have "mset (flows e') = mset (queue_flows p q') + R" .
  moreover have "flows_in_grid p q'" using assms(3) by (simp add: queue_in_step_def flows_in_grid_def r(1))
  moreover have "flows_marked p 0 q'" using assms(2) by (simp add: r flows_marked_def)
  ultimately show ?thesis by (simp add: queue_in_step_def)
qed

subsection \<open>From one queue to the device\<close>

lemma mset_concat_nth:
  "i < length xs \<Longrightarrow>
     mset (concat (map g xs))
       = mset (g (xs ! i)) + mset (concat (map g (take i xs))) + mset (concat (map g (drop (Suc i) xs)))"
proof -
  assume "i < length xs"
  then have "xs = take i xs @ xs ! i # drop (Suc i) xs" by (rule id_take_nth_drop)
  then have "concat (map g xs) = concat (map g (take i xs @ xs ! i # drop (Suc i) xs))" by simp
  then show ?thesis by simp
qed

lemma mset_concat_update:
  "i < length xs \<Longrightarrow>
     mset (concat (map g (xs[i := y])))
       = mset (g y) + mset (concat (map g (take i xs))) + mset (concat (map g (drop (Suc i) xs)))"
  by (simp add: upd_conv_take_nth_drop)

lemma hw_in_step_update:
  assumes "i < length (hash_rxqs p)" and "hw_in_step p e R"
    and "\<And>R'. queue_in_step p (hash_rxqs p ! i) e R' \<Longrightarrow> queue_in_step p q' e' R'"
    and "flows_marked p 0 q'"
  shows "hw_in_step (p\<lparr>hash_rxqs := (hash_rxqs p)[i := q']\<rparr>) e' R"
proof -
  let ?qs = "hash_rxqs p"
  let ?rest = "mset (concat (map (queue_flows p) (take i ?qs)))
             + mset (concat (map (queue_flows p) (drop (Suc i) ?qs)))"
  let ?p' = "p\<lparr>hash_rxqs := ?qs[i := q']\<rparr>"
  from assms(2) have mk: "\<forall>q\<in>set ?qs. flows_marked p 0 q"
    and s: "mset (flows e) = mset (driver_flows p) + R" by (simp_all add: hw_in_step_def)
  from mk assms(1) have "flows_marked p 0 (?qs ! i)" by simp
  then have g: "flows_in_grid p (?qs ! i)" by (simp add: flows_marked_iff)
  have "mset (flows e) = mset (queue_flows p (?qs ! i)) + (R + ?rest)"
    unfolding s driver_flows_def mset_concat_nth [OF assms(1)] by simp
  with g have "queue_in_step p (?qs ! i) e (R + ?rest)" by (simp add: queue_in_step_def)
  from assms(3) [OF this] have s': "mset (flows e') = mset (queue_flows p q') + (R + ?rest)"
    by (simp add: queue_in_step_def)
  have qc: "queue_flows ?p' = queue_flows p" by (rule queue_flows_cong) simp_all
  have mc: "flows_marked ?p' = flows_marked p" by (rule flows_marked_cong) simp_all
  have "mset (driver_flows ?p') = mset (queue_flows p q') + ?rest"
    unfolding driver_flows_def qc by (simp add: mset_concat_update [OF assms(1)])
  with s' have "mset (flows e') = mset (driver_flows ?p') + R" by simp
  moreover have "\<forall>q\<in>set (hash_rxqs ?p'). flows_marked ?p' 0 q"
    unfolding mc using mk assms(4) set_update_subset_insert [of ?qs i q'] by auto
  ultimately show ?thesis by (simp add: hw_in_step_def)
qed

lemma on_hash_rxq_step:
  assumes "on_hash_rxq i f (p, e) = (p', e')" and "i < length (hash_rxqs p)"
    and "hw_in_step p e R"
    and "\<And>q' R'. f p (hash_rxqs p ! i, e) = (q', e') \<Longrightarrow> flows_marked p 0 (hash_rxqs p ! i) \<Longrightarrow>
           queue_in_step p (hash_rxqs p ! i) e R' \<Longrightarrow>
           flows_marked p 0 q' \<and> queue_in_step p q' e' R'"
  shows "hw_in_step p' e' R \<and> length (hash_rxqs p') = length (hash_rxqs p)"
proof -
  from on_hash_rxq_result [OF assms(1)] obtain q' where
    q: "f p (hash_rxqs p ! i, e) = (q', e')" "p' = p\<lparr>hash_rxqs := (hash_rxqs p)[i := q']\<rparr>" by blast
  from assms(3) assms(2) have mk: "flows_marked p 0 (hash_rxqs p ! i)"
    by (simp add: hw_in_step_def)
  then have g: "flows_in_grid p (hash_rxqs p ! i)" by (simp add: flows_marked_iff)
  have 1: "\<And>R'. queue_in_step p (hash_rxqs p ! i) e R' \<Longrightarrow> queue_in_step p q' e' R'"
    using assms(4) [OF q(1) mk] by simp
  have "mset (flows e) = mset (queue_flows p (hash_rxqs p ! i)) + (mset (flows e) - mset (queue_flows p (hash_rxqs p ! i)))
        \<Longrightarrow> flows_marked p 0 q'"
    using assms(4) [OF q(1) mk] g by (simp add: queue_in_step_def)
  moreover have "mset (queue_flows p (hash_rxqs p ! i)) \<subseteq># mset (flows e)"
  proof -
    from assms(3) have "mset (flows e) = mset (driver_flows p) + R" by (simp add: hw_in_step_def)
    then show ?thesis
      unfolding driver_flows_def mset_concat_nth [OF assms(2)] by simp
  qed
  ultimately have 2: "flows_marked p 0 q'" by simp
  from hw_in_step_update [OF assms(2,3) 1 2] q(2) show ?thesis by simp
qed

subsection \<open>Promiscuous mode keeps the device in step\<close>

lemma hw_in_step_cong:
  "mac p' = mac p \<Longrightarrow> vlan_filter p' = vlan_filter p \<Longrightarrow> hash_rxqs p' = hash_rxqs p \<Longrightarrow>
     hw_in_step p' e R = hw_in_step p e R"
  by (simp add: hw_in_step_def driver_flows_def queue_flows_cong [of p' p]
        flows_marked_cong [of p' p])

lemma promisc_step_in_step:
  assumes "on_hash_rxq i hash_rxq_mac_addrs_del (p, e) = (p1, e1)"
    and "hash_rxq_promiscuous_enable p1 (hash_rxqs p1 ! i, e1) = (r, q2, e2)"
    and "i < length (hash_rxqs p)" and "hw_in_step p e R"
  shows "hw_in_step (p1\<lparr>hash_rxqs := (hash_rxqs p1)[i := q2]\<rparr>) e2 R
     \<and> length (hash_rxqs p1) = length (hash_rxqs p)"
proof -
  from on_hash_rxq_step [OF assms(1,3,4)] hash_rxq_mac_addrs_del_step have
    s1: "hw_in_step p1 e1 R" "length (hash_rxqs p1) = length (hash_rxqs p)" by blast+
  from s1(2) assms(3) have lt: "i < length (hash_rxqs p1)" by simp
  from s1(1) lt have mk: "flows_marked p1 0 (hash_rxqs p1 ! i)" by (simp add: hw_in_step_def)
  have 1: "\<And>R'. queue_in_step p1 (hash_rxqs p1 ! i) e1 R' \<Longrightarrow> queue_in_step p1 q2 e2 R'"
    using hash_rxq_promiscuous_enable_step [OF assms(2) mk] by simp
  have 2: "flows_marked p1 0 q2"
  proof -
    have "mac_flow q2 = mac_flow (hash_rxqs p1 ! i)
        \<and> rxq_mac_configured q2 = rxq_mac_configured (hash_rxqs p1 ! i)"
      using assms(2)
      by (auto simp: hash_rxq_promiscuous_enable_def split: if_splits prod.splits option.splits)
    with mk show ?thesis by (simp add: flows_marked_def)
  qed
  from hw_in_step_update [OF lt s1(1) 1 2] s1(2) show ?thesis by simp
qed

lemma promisc_undo_in_step:
  assumes "on_hash_rxq i restore_mac_flows (on_hash_rxq i hash_rxq_promiscuous_disable (p, e)) = (p2, e2)"
    and "i < length (hash_rxqs p)" and "hw_in_step p e R"
  shows "hw_in_step p2 e2 R \<and> length (hash_rxqs p2) = length (hash_rxqs p)"
proof -
  obtain p1 e1 where s1: "on_hash_rxq i hash_rxq_promiscuous_disable (p, e) = (p1, e1)"
    by (cases "on_hash_rxq i hash_rxq_promiscuous_disable (p, e)")
  from on_hash_rxq_step [OF s1 assms(2,3)] hash_rxq_promiscuous_disable_step have
    h1: "hw_in_step p1 e1 R" "length (hash_rxqs p1) = length (hash_rxqs p)" by blast+
  from assms(1) s1 have s2: "on_hash_rxq i restore_mac_flows (p1, e1) = (p2, e2)" by simp
  from h1(2) assms(2) have lt: "i < length (hash_rxqs p1)" by simp
  from on_hash_rxq_step [OF s2 lt h1(1)] restore_mac_flows_step h1(2) show ?thesis by metis
qed

lemma promisc_rollback_in_step:
  assumes "priv_promiscuous_enable_rollback i (p, e) = (p', e')"
    and "i \<le> length (hash_rxqs p)" and "hw_in_step p e R"
  shows "hw_in_step p' e' R \<and> length (hash_rxqs p') = length (hash_rxqs p)"
  using assms
proof (induction i arbitrary: p e)
  case 0
  then show ?case by simp
next
  case (Suc i)
  obtain p2 e2 where s: "on_hash_rxq i restore_mac_flows (on_hash_rxq i hash_rxq_promiscuous_disable (p, e)) = (p2, e2)"
    by (cases "on_hash_rxq i restore_mac_flows (on_hash_rxq i hash_rxq_promiscuous_disable (p, e))")
  from Suc.prems(2) have lt: "i < length (hash_rxqs p)" by simp
  from promisc_undo_in_step [OF s lt Suc.prems(3)] have
    h: "hw_in_step p2 e2 R" "length (hash_rxqs p2) = length (hash_rxqs p)" by simp_all
  from Suc.prems(1) s have "priv_promiscuous_enable_rollback i (p2, e2) = (p', e')" by simp
  from Suc.IH [OF this _ h(1)] h(2) lt show ?case by simp
qed

lemma promisc_loop_in_step:
  assumes "priv_promiscuous_enable_loop is (p, e) = (ret, p', e')"
    and "\<forall>i\<in>set is. i < length (hash_rxqs p)" and "hw_in_step p e R"
  shows "hw_in_step p' e' R \<and> length (hash_rxqs p') = length (hash_rxqs p)"
  using assms
proof (induction "is" arbitrary: p e)
  case Nil
  then show ?case by simp
next
  case (Cons i "is")
  from Cons.prems(2) have lt: "i < length (hash_rxqs p)" by simp
  obtain p1 e1 where s1: "on_hash_rxq i hash_rxq_mac_addrs_del (p, e) = (p1, e1)"
    by (cases "on_hash_rxq i hash_rxq_mac_addrs_del (p, e)")
  obtain r q2 e2 where en: "hash_rxq_promiscuous_enable p1 (hash_rxqs p1 ! i, e1) = (r, q2, e2)"
    by (cases "hash_rxq_promiscuous_enable p1 (hash_rxqs p1 ! i, e1)")
  define p2 where "p2 = p1\<lparr>hash_rxqs := (hash_rxqs p1)[i := q2]\<rparr>"
  from promisc_step_in_step [OF s1 en lt Cons.prems(3)] have
    h: "hw_in_step p2 e2 R" "length (hash_rxqs p2) = length (hash_rxqs p)"
    by (simp_all add: p2_def)
  show ?case
  proof (cases "r = 0")
    case True
    with Cons.prems(1) s1 en have "priv_promiscuous_enable_loop is (p2, e2) = (ret, p', e')"
      by (simp add: p2_def)
    from Cons.IH [OF this _ h(1)] h(2) Cons.prems(2) show ?thesis by simp
  next
    case False
    with Cons.prems(1) s1 en have "priv_promiscuous_enable_rollback i (p2, e2) = (p', e')"
      by (simp add: p2_def)
    from promisc_rollback_in_step [OF this _ h(1)] h(2) lt show ?thesis by simp
  qed
qed

lemma priv_promiscuous_enable_in_step:
  assumes "priv_promiscuous_enable (p, e) = (ret, p', e')" and "hw_in_step p e R"
  shows "hw_in_step p' e' R \<and> length (hash_rxqs p') = length (hash_rxqs p)"
proof (cases "promisc p")
  case True
  with assms show ?thesis by (simp add: priv_promiscuous_enable_def)
next
  case False
  obtain r pl el where l: "priv_promiscuous_enable_loop [0..<length (hash_rxqs p)] (p, e) = (r, pl, el)"
    by (cases "priv_promiscuous_enable_loop [0..<length (hash_rxqs p)] (p, e)")
  from promisc_loop_in_step [OF l _ assms(2)] have
    h: "hw_in_step pl el R" "length (hash_rxqs pl) = length (hash_rxqs p)" by simp_all
  from assms(1) False l have "e' = el" "p' = pl \<or> p' = pl\<lparr>promisc := True\<rparr>"
    by (auto simp: priv_promiscuous_enable_def split: if_splits)
  with h show ?thesis by (auto simp: hw_in_step_cong [of "pl\<lparr>promisc := True\<rparr>" pl])
qed

lemma promisc_disable_fold_in_step:
  assumes "fold (\<lambda>i s. on_hash_rxq i restore_mac_flows
                          (on_hash_rxq i hash_rxq_promiscuous_disable s)) is (p, e) = (p', e')"
    and "\<forall>i\<in>set is. i < length (hash_rxqs p)" and "hw_in_step p e R"
  shows "hw_in_step p' e' R \<and> length (hash_rxqs p') = length (hash_rxqs p)"
  using assms
proof (induction "is" arbitrary: p e)
  case Nil
  then show ?case by simp
next
  case (Cons i "is")
  from Cons.prems(2) have lt: "i < length (hash_rxqs p)" by simp
  obtain p2 e2 where s: "on_hash_rxq i restore_mac_flows (on_hash_rxq i hash_rxq_promiscuous_disable (p, e)) = (p2, e2)"
    by (cases "on_hash_rxq i restore_mac_flows (on_hash_rxq i hash_rxq_promiscuous_disable (p, e))")
  from promisc_undo_in_step [OF s lt Cons.prems(3)] have
    h: "hw_in_step p2 e2 R" "length (hash_rxqs p2) = length (hash_rxqs p)" by simp_all
  from Cons.prems(1) s have "fold (\<lambda>i s. on_hash_rxq i restore_mac_flows
                          (on_hash_rxq i hash_rxq_promiscuous_disable s)) is (p2, e2) = (p', e')"
    by simp
  from Cons.IH [OF this _ h(1)] h(2) Cons.prems(2) show ?case by simp
qed

lemma priv_promiscuous_disable_in_step:
  assumes "priv_promiscuous_disable (p, e) = (p', e')" and "hw_in_step p e R"
  shows "hw_in_step p' e' R \<and> length (hash_rxqs p') = length (hash_rxqs p)"
proof (cases "promisc p")
  case False
  with assms show ?thesis by (simp add: priv_promiscuous_disable_def)
next
  case True
  obtain pd ed where
    d: "fold (\<lambda>i s. on_hash_rxq i restore_mac_flows
                       (on_hash_rxq i hash_rxq_promiscuous_disable s))
             [0..<length (hash_rxqs p)] (p, e) = (pd, ed)"
    by (cases "fold (\<lambda>i s. on_hash_rxq i restore_mac_flows
                       (on_hash_rxq i hash_rxq_promiscuous_disable s))
             [0..<length (hash_rxqs p)] (p, e)")
  from promisc_disable_fold_in_step [OF d _ assms(2)] have
    h: "hw_in_step pd ed R" "length (hash_rxqs pd) = length (hash_rxqs p)" by simp_all
  from assms(1) True d have "p' = pd\<lparr>promisc := False\<rparr>" "e' = ed"
    by (simp_all add: priv_promiscuous_disable_def)
  with h show ?thesis by (simp add: hw_in_step_cong [of "pd\<lparr>promisc := False\<rparr>" pd])
qed

lemma driver_flows_no_mac:
  assumes "\<forall>q\<in>set (hash_rxqs p). mac_flow q = (\<lambda>_. None)"
  shows "mset (driver_flows p) = mset (List.map_filter promisc_flow (hash_rxqs p))
                               + mset (List.map_filter allmulti_flow (hash_rxqs p))"
proof -
  have "\<And>qs. \<forall>q\<in>set qs. mac_flow q = (\<lambda>_. None) \<Longrightarrow>
      mset (concat (map (queue_flows p) qs))
        = mset (List.map_filter promisc_flow qs) + mset (List.map_filter allmulti_flow qs)"
  proof -
    fix qs show "\<forall>q\<in>set qs. mac_flow q = (\<lambda>_. None) \<Longrightarrow>
      mset (concat (map (queue_flows p) qs))
        = mset (List.map_filter promisc_flow qs) + mset (List.map_filter allmulti_flow qs)"
    proof (induction qs)
      case Nil
      then show ?case by (simp add: List.map_filter_simps)
    next
      case (Cons q qs)
      then have "mac_flows p q = []" by (simp add: mac_flows_None)
      with Cons show ?case
        by (simp add: queue_flows_def List.map_filter_simps split: option.splits)
    qed
  qed
  from this [OF assms] show ?thesis by (simp add: driver_flows_def)
qed

subsection \<open>Enabling and disabling promiscuous mode, in the queues and in the device\<close>

text \<open>
  Claim C5, amended. Let the device not be a virtual function, promiscuous mode be off, no
  queue hold a promiscuous flow, every queue hold exactly the MAC rules the configuration
  calls for, the device hold the flows the queues point to (next to other flows \<open>R\<close>), and
  the hardware grant every request. Then \<open>priv_promiscuous_enable\<close> returns 0 and sets
  \<open>priv->promisc\<close>; afterwards no queue has a MAC flow left and every queue has one
  promiscuous flow, on its queue pair and with the attribute of \<open>priv_populate_flow_attr\<close>,
  and the device holds these promiscuous flows, the all-multicast flows of the queues and
  the flows \<open>R\<close>, and no other flow: the MAC flows have been destroyed. A following
  \<open>priv_promiscuous_disable\<close> clears the flag and the promiscuous flow of every queue; on a
  started device every queue then has the same MAC rules (queue pair and attribute at
  every index) as before, and on a device that is not started it has none; the device
  again holds the flows the queues point to and the flows \<open>R\<close>, and no other flow.
\<close>

theorem promiscuous_mode_round_trip:
  assumes "\<not> vf p" and "\<not> promisc p" and "set (outcomes e) \<subseteq> {Granted}"
    and "\<forall>q\<in>set (hash_rxqs p). mac_flows_in_place p q \<and> promisc_flow q = None"
    and "mset (flows e) = mset (driver_flows p) + R"
  shows "case priv_promiscuous_enable (p, e) of
           (ret, p1, e1) \<Rightarrow>
             ret = 0 \<and> promisc p1 \<and> length (hash_rxqs p1) = length (hash_rxqs p)
             \<and> (\<forall>j<length (hash_rxqs p).
                   mac_flow (hash_rxqs p1 ! j) = (\<lambda>_. None)
                   \<and> (\<exists>f. promisc_flow (hash_rxqs p1 ! j) = Some f
                          \<and> flow_qp f = qp (hash_rxqs p ! j)
                          \<and> flow_attr f = priv_populate_flow_attr p (type (hash_rxqs p ! j))))
             \<and> mset (flows e1) = mset (List.map_filter promisc_flow (hash_rxqs p1))
                                 + mset (List.map_filter allmulti_flow (hash_rxqs p1)) + R
             \<and> (case priv_promiscuous_disable (p1, e1) of
                  (p2, e2) \<Rightarrow>
                    \<not> promisc p2 \<and> length (hash_rxqs p2) = length (hash_rxqs p)
                    \<and> (\<forall>j<length (hash_rxqs p).
                          promisc_flow (hash_rxqs p2 ! j) = None
                          \<and> rules_of (hash_rxqs p2 ! j)
                              = (if started p then rules_of (hash_rxqs p ! j) else (\<lambda>_. None)))
                    \<and> mset (flows e2) = mset (driver_flows p2) + R)"
proof -
  obtain ret p1 e1 where en: "priv_promiscuous_enable (p, e) = (ret, p1, e1)"
    by (cases "priv_promiscuous_enable (p, e)")
  obtain p2 e2 where dis: "priv_promiscuous_disable (p1, e1) = (p2, e2)"
    by (cases "priv_promiscuous_disable (p1, e1)")
  from promisc_round_trip_queues [OF assms(1,2,3,4)] have
    q: "ret = 0" "promisc p1" "length (hash_rxqs p1) = length (hash_rxqs p)"
      "\<forall>j<length (hash_rxqs p).
          mac_flow (hash_rxqs p1 ! j) = (\<lambda>_. None)
          \<and> (\<exists>f. promisc_flow (hash_rxqs p1 ! j) = Some f
                 \<and> flow_qp f = qp (hash_rxqs p ! j)
                 \<and> flow_attr f = priv_populate_flow_attr p (type (hash_rxqs p ! j)))"
      "\<not> promisc p2" "length (hash_rxqs p2) = length (hash_rxqs p)"
      "\<forall>j<length (hash_rxqs p).
          promisc_flow (hash_rxqs p2 ! j) = None
          \<and> rules_of (hash_rxqs p2 ! j)
              = (if started p then rules_of (hash_rxqs p ! j) else (\<lambda>_. None))"
    unfolding en dis prod.case by simp_all
  have h0: "hw_in_step p e R"
    using assms(4,5) by (auto simp: hw_in_step_def intro: mac_flows_in_place_marked)
  from priv_promiscuous_enable_in_step [OF en h0] have h1: "hw_in_step p1 e1 R" by simp
  from priv_promiscuous_disable_in_step [OF dis h1] have h2: "hw_in_step p2 e2 R" by simp
  have "\<forall>q\<in>set (hash_rxqs p1). mac_flow q = (\<lambda>_. None)"
    using q(3,4) by (auto simp: in_set_conv_nth)
  from driver_flows_no_mac [OF this] h1 have
    f1: "mset (flows e1) = mset (List.map_filter promisc_flow (hash_rxqs p1))
                         + mset (List.map_filter allmulti_flow (hash_rxqs p1)) + R"
    by (simp add: hw_in_step_def)
  from h2 have f2: "mset (flows e2) = mset (driver_flows p2) + R" by (simp add: hw_in_step_def)
  from q f1 f2 show ?thesis unfolding en dis prod.case by simp
qed

text \<open>
  Claim C5, amended, on the started device whose queue holds the flow of the configured
  address, the only flow of the device: enabling promiscuous mode removes that flow and
  gives the queue a promiscuous flow, then the only flow of the device; disabling removes
  it and gives the queue the rule of the address again, in the one flow of the device.
\<close>

theorem promiscuous_mode_round_trip_witness:
  "\<not> vf priv_started \<and> \<not> promisc priv_started \<and> started priv_started \<and>
   outcomes env_one_flow = [] \<and>
   flows env_one_flow = driver_flows priv_started \<and>
   fst (priv_promiscuous_enable (priv_started, env_one_flow)) = 0 \<and>
   mac_flow (hash_rxqs (fst (snd (priv_promiscuous_enable (priv_started, env_one_flow)))) ! 0)
     = (\<lambda>_. None) \<and>
   promisc_flow
     (hash_rxqs (fst (snd (priv_promiscuous_enable (priv_started, env_one_flow)))) ! 0) \<noteq> None \<and>
   mset (flows (snd (snd (priv_promiscuous_enable (priv_started, env_one_flow)))))
     = mset (List.map_filter promisc_flow
               (hash_rxqs (fst (snd (priv_promiscuous_enable (priv_started, env_one_flow)))))) \<and>
   promisc_flow
     (hash_rxqs (fst (priv_promiscuous_disable
                        (snd (priv_promiscuous_enable (priv_started, env_one_flow))))) ! 0) = None \<and>
   rules_of
     (hash_rxqs (fst (priv_promiscuous_disable
                        (snd (priv_promiscuous_enable (priv_started, env_one_flow))))) ! 0)
     = rules_of hash_rxq_a \<and>
   mset (flows (snd (priv_promiscuous_disable
                       (snd (priv_promiscuous_enable (priv_started, env_one_flow))))))
     = mset (driver_flows (fst (priv_promiscuous_disable
                       (snd (priv_promiscuous_enable (priv_started, env_one_flow))))))"
proof -
  have h: "\<not> vf priv_started" "\<not> promisc priv_started" "started priv_started"
    "hash_rxqs priv_started = [hash_rxq_a]"
    by (simp_all add: priv_started_def priv_stopped_def)
  have o: "outcomes env_one_flow = []" by (simp add: env_one_flow_def env_granting_def)
  have g: "set (outcomes env_one_flow) \<subseteq> {Granted}" by (simp add: o)
  have d: "flows env_one_flow = driver_flows priv_started" by code_simp
  then have d': "mset (flows env_one_flow) = mset (driver_flows priv_started) + {#}" by simp
  have am: "List.map_filter allmulti_flow
      (hash_rxqs (fst (snd (priv_promiscuous_enable (priv_started, env_one_flow))))) = []"
    by code_simp
  have c: "mac_flow_attr priv_started = mac_flow_attr priv_stopped"
    by (rule mac_flow_attr_cong) (simp_all add: priv_started_def)
  have nv: "no_vlan priv_started"
    by (simp add: no_vlan_def priv_started_def priv_stopped_def)
  have m: "length (mac priv_started) = 2" "mac_configured priv_started = {0}"
    by (simp_all add: priv_started_def priv_stopped_def)
  have q: "qp hash_rxq_a = Some (qp_on 21)" "type hash_rxq_a = HASH_RXQ_ETH"
    "promisc_flow hash_rxq_a = None" "rxq_mac_configured hash_rxq_a = {0}"
    "mac_flow hash_rxq_a = (\<lambda>_. None)((0, 0) \<mapsto> flow_a)"
    by (simp_all add: hash_rxq_a_def hash_rxq_on_def hash_rxq_zero_def)
  have "rules_of hash_rxq_a = mac_rule priv_started hash_rxq_a"
    by (auto simp: fun_eq_iff rules_of_def mac_rule_def c nv vlan_slot_def m q flow_a_def)
  then have ip: "\<forall>q\<in>set (hash_rxqs priv_started). mac_flows_in_place priv_started q \<and> promisc_flow q = None"
    by (simp add: h(4) mac_flows_in_place_def m q)
  from promiscuous_mode_round_trip [OF h(1,2) g ip d'] h o d am
  show ?thesis by (auto simp: case_prod_beta)
qed

subsection \<open>The rollback of promiscuous mode when the hardware refuses at most once\<close>

lemma refuses_at_most_once_granting:
  "set (outcomes e) \<subseteq> {Granted} \<Longrightarrow> refuses_at_most_once e"
proof -
  assume "set (outcomes e) \<subseteq> {Granted}"
  then have "filter (\<lambda>x. x \<noteq> Granted) (outcomes e) = []" by (auto simp: filter_empty_conv)
  then show ?thesis by (simp add: refuses_at_most_once_def)
qed







subsection \<open>A failed group-wide enable and its rollback\<close>




section \<open>Adding an address: the table, the queues and the device\<close>

lemma row_only_refl [simp]: "row_only m q q"
  by (simp add: row_only_def)

lemma row_only_trans: "row_only m q q1 \<Longrightarrow> row_only m q1 q2 \<Longrightarrow> row_only m q q2"
  unfolding row_only_def using mac_only_trans by auto

lemma row_only_fields:
  "row_only m q q' \<Longrightarrow> promisc_flow q' = promisc_flow q \<and> allmulti_flow q' = allmulti_flow q
     \<and> qp q' = qp q \<and> type q' = type q"
  unfolding row_only_def using mac_only_fields by blast


subsection \<open>The implicit removal and the loop over the queues\<close>

lemma hw_in_step_cong_len:
  assumes "length (mac p') = length (mac p)" and "vlan_filter p' = vlan_filter p"
    and "hash_rxqs p' = hash_rxqs p"
  shows "hw_in_step p' e R = hw_in_step p e R"
proof -
  have v: "vlan_slot p' = vlan_slot p" by (rule vlan_slot_cong [OF assms(2)])
  have n: "no_vlan p' = no_vlan p" by (rule no_vlan_cong [OF assms(2)])
  have "queue_flows p' = queue_flows p"
    using assms(1,2) n by (simp add: queue_flows_def mac_flows_def vlan_slots_def fun_eq_iff)
  moreover have "flows_marked p' = flows_marked p"
    using assms(1) v by (simp add: flows_marked_def fun_eq_iff)
  ultimately show ?thesis using assms(3) by (simp add: hw_in_step_def driver_flows_def)
qed

lemma on_hash_rxq_del_row:
  assumes "on_hash_rxq j (\<lambda>p. hash_rxq_mac_addr_del p m) (p, e) = (p', e')"
    and "j < length (hash_rxqs p)" and "hw_in_step p e R"
  shows "hw_in_step p' e' R \<and> length (hash_rxqs p') = length (hash_rxqs p)
     \<and> (\<forall>v. mac_flow (hash_rxqs p' ! j) (m, v) = None)
     \<and> row_only m (hash_rxqs p ! j) (hash_rxqs p' ! j)
     \<and> (\<forall>k. k \<noteq> j \<longrightarrow> hash_rxqs p' ! k = hash_rxqs p ! k)"
proof -
  from on_hash_rxq_result [OF assms(1)] obtain q' where
    q: "hash_rxq_mac_addr_del p m (hash_rxqs p ! j, e) = (q', e')"
      "p' = p\<lparr>hash_rxqs := (hash_rxqs p)[j := q']\<rparr>" by blast
  from assms(2,3) have mk: "flows_marked p 0 (hash_rxqs p ! j)" by (simp add: hw_in_step_def)
  from hash_rxq_mac_addr_del_marked0 [OF q(1) mk] have
    row: "\<forall>v. mac_flow q' (m, v) = None"
      "\<forall>m' v'. m' \<noteq> m \<longrightarrow> mac_flow q' (m', v') = mac_flow (hash_rxqs p ! j) (m', v')"
    by simp_all
  from hash_rxq_mac_addr_del_frame [OF q(1)] row(2) have ro: "row_only m (hash_rxqs p ! j) q'"
    by (simp add: row_only_def)
  have st: "hw_in_step p' e' R \<and> length (hash_rxqs p') = length (hash_rxqs p)"
  proof (rule on_hash_rxq_step [OF assms(1,2,3)])
    fix q'' R'
    assume d: "hash_rxq_mac_addr_del p m (hash_rxqs p ! j, e) = (q'', e')"
      and m0: "flows_marked p 0 (hash_rxqs p ! j)"
      and s0: "queue_in_step p (hash_rxqs p ! j) e R'"
    from hash_rxq_mac_addr_del_marked0 [OF d m0] hash_rxq_mac_addr_del_step [OF d s0]
    show "flows_marked p 0 q'' \<and> queue_in_step p q'' e' R'" by simp
  qed
  from st row(1) ro q(2) assms(2) show ?thesis by simp
qed

lemma fold_del_rows:
  assumes "fold (\<lambda>j. on_hash_rxq j (\<lambda>p. hash_rxq_mac_addr_del p m)) [j0..<n] (p, e) = (p', e')"
    and "n = length (hash_rxqs p)" and "hw_in_step p e R"
  shows "hw_in_step p' e' R \<and> length (hash_rxqs p') = n
     \<and> (\<forall>j. j0 \<le> j \<and> j < n \<longrightarrow> (\<forall>v. mac_flow (hash_rxqs p' ! j) (m, v) = None))
     \<and> (\<forall>j<j0. hash_rxqs p' ! j = hash_rxqs p ! j)
     \<and> (\<forall>j<n. row_only m (hash_rxqs p ! j) (hash_rxqs p' ! j))"
  using assms
proof (induction "n - j0" arbitrary: j0 p e)
  case 0
  then have emp: "[j0..<n] = []" by simp
  from "0.prems"(1) have "p' = p" "e' = e" unfolding emp by simp_all
  with "0.prems"(2,3) "0.hyps" show ?case by auto
next
  case (Suc d)
  have lt: "j0 < n" using Suc.hyps(2) by simp
  then have upt: "[j0..<n] = j0 # [Suc j0..<n]" by (simp add: upt_conv_Cons)
  obtain p1 e1 where s: "on_hash_rxq j0 (\<lambda>p. hash_rxq_mac_addr_del p m) (p, e) = (p1, e1)"
    by (cases "on_hash_rxq j0 (\<lambda>p. hash_rxq_mac_addr_del p m) (p, e)")
  from on_hash_rxq_del_row [OF s _ Suc.prems(3)] lt Suc.prems(2) have
    h: "hw_in_step p1 e1 R" "length (hash_rxqs p1) = n"
      "\<forall>v. mac_flow (hash_rxqs p1 ! j0) (m, v) = None"
      "row_only m (hash_rxqs p ! j0) (hash_rxqs p1 ! j0)"
      "\<forall>k. k \<noteq> j0 \<longrightarrow> hash_rxqs p1 ! k = hash_rxqs p ! k" by simp_all
  from Suc.prems(1) s have
    rec: "fold (\<lambda>j. on_hash_rxq j (\<lambda>p. hash_rxq_mac_addr_del p m)) [Suc j0..<n] (p1, e1) = (p', e')"
    unfolding upt by simp
  have dd: "d = n - Suc j0" using Suc.hyps(2) by simp
  from Suc.hyps(1) [OF dd rec _ h(1)] h(2) have
    IH: "hw_in_step p' e' R" "length (hash_rxqs p') = n"
      "\<forall>j. Suc j0 \<le> j \<and> j < n \<longrightarrow> (\<forall>v. mac_flow (hash_rxqs p' ! j) (m, v) = None)"
      "\<forall>j<Suc j0. hash_rxqs p' ! j = hash_rxqs p1 ! j"
      "\<forall>j<n. row_only m (hash_rxqs p1 ! j) (hash_rxqs p' ! j)" by simp_all
  have A: "\<forall>j. j0 \<le> j \<and> j < n \<longrightarrow> (\<forall>v. mac_flow (hash_rxqs p' ! j) (m, v) = None)"
  proof (intro allI impI)
    fix j v assume j: "j0 \<le> j \<and> j < n"
    show "mac_flow (hash_rxqs p' ! j) (m, v) = None"
    proof (cases "j = j0")
      case True
      from IH(4) h(3) show ?thesis unfolding True by simp
    next
      case False
      with j IH(3) show ?thesis by simp
    qed
  qed
  have B: "\<forall>j<j0. hash_rxqs p' ! j = hash_rxqs p ! j" using IH(4) h(5) by simp
  have C: "\<forall>j<n. row_only m (hash_rxqs p ! j) (hash_rxqs p' ! j)"
  proof (intro allI impI)
    fix j assume j: "j < n"
    from IH(5) j have 1: "row_only m (hash_rxqs p1 ! j) (hash_rxqs p' ! j)" by simp
    have 2: "row_only m (hash_rxqs p ! j) (hash_rxqs p1 ! j)"
      using h(4,5) by (cases "j = j0") simp_all
    from row_only_trans [OF 2 1] show "row_only m (hash_rxqs p ! j) (hash_rxqs p' ! j)" .
  qed
  from IH(1,2) A B C show ?case by simp
qed

lemma priv_mac_addr_del_full:
  assumes "priv_mac_addr_del i (p, e) = (p', e')" and "hw_in_step p e R"
  shows "hw_in_step p' e' R \<and> length (hash_rxqs p') = length (hash_rxqs p)
     \<and> (\<forall>j<length (hash_rxqs p). row_only i (hash_rxqs p ! j) (hash_rxqs p' ! j))
     \<and> (i \<in> mac_configured p \<longrightarrow>
          (\<forall>j<length (hash_rxqs p). \<forall>v. mac_flow (hash_rxqs p' ! j) (i, v) = None))"
proof (cases "i \<in> mac_configured p")
  case False
  with assms show ?thesis by (simp add: priv_mac_addr_del_def)
next
  case True
  obtain p1 e1 where f: "fold (\<lambda>i'. on_hash_rxq i' (\<lambda>p. hash_rxq_mac_addr_del p i))
                  [0..<length (hash_rxqs p)] (p, e) = (p1, e1)"
    by (cases "fold (\<lambda>i'. on_hash_rxq i' (\<lambda>p. hash_rxq_mac_addr_del p i))
                  [0..<length (hash_rxqs p)] (p, e)")
  from fold_del_rows [OF f refl assms(2)] have
    h: "hw_in_step p1 e1 R" "length (hash_rxqs p1) = length (hash_rxqs p)"
      "\<forall>j<length (hash_rxqs p). \<forall>v. mac_flow (hash_rxqs p1 ! j) (i, v) = None"
      "\<forall>j<length (hash_rxqs p). row_only i (hash_rxqs p ! j) (hash_rxqs p1 ! j)" by simp_all
  from assms(1) True f have r: "p' = p1\<lparr>mac_configured := mac_configured p1 - {i}\<rparr>" "e' = e1"
    unfolding priv_mac_addr_del_def prod.case by simp_all
  have "hw_in_step p' e' R"
    using h(1) hw_in_step_cong_len [of p' p1 e1 R] by (simp add: r)
  with h(2,3,4) True show ?thesis by (simp add: r)
qed

subsection \<open>The rule of an address on a queue, once added\<close>

lemma hash_rxq_add_flow_ok:
  assumes "hash_rxq_add_flow p m vi (q, e) = (0, q', e')"
  shows "rules_of q' = (rules_of q)((m, case vi of None \<Rightarrow> 0 | Some i \<Rightarrow> i)
                          \<mapsto> (qp q, mac_flow_attr p (type q) m vi))"
proof -
  from hash_rxq_add_flow_full [OF assms] obtain f where
    f: "q' = q\<lparr>mac_flow := (mac_flow q)((m, case vi of None \<Rightarrow> 0 | Some i \<Rightarrow> i) \<mapsto> f)\<rparr>"
      "flow_qp f = qp q" "flow_attr f = mac_flow_attr p (type q) m vi" by auto
  show ?thesis unfolding f(1) rules_of_upd f(2,3) ..
qed

lemma hash_rxq_mac_addr_add_vlans_ok:
  assumes "hash_rxq_mac_addr_add_vlans p m vs n (q, e) = (0, n', q', e')"
  shows "rules_of q' = (\<lambda>(m', v'). if m' = m \<and> v' \<in> set vs \<and> enabled (vlan_filter p ! v')
                                   then Some (qp q, mac_flow_attr p (type q) m (Some v'))
                                   else rules_of q (m', v'))
     \<and> n' = n + length (filter (\<lambda>i. enabled (vlan_filter p ! i)) vs)"
  using assms
proof (induction vs arbitrary: n q e)
  case Nil
  then show ?case by simp
next
  case (Cons i vs)
  show ?case
  proof (cases "enabled (vlan_filter p ! i)")
    case False
    with Cons.prems have "hash_rxq_mac_addr_add_vlans p m vs n (q, e) = (0, n', q', e')" by simp
    from Cons.IH [OF this] False show ?thesis by (auto simp: fun_eq_iff)
  next
    case True
    obtain r1 q1 e1 where a: "hash_rxq_add_flow p m (Some i) (q, e) = (r1, q1, e1)"
      by (cases "hash_rxq_add_flow p m (Some i) (q, e)")
    have r1: "r1 = 0"
    proof (rule ccontr)
      assume "r1 \<noteq> 0"
      with Cons.prems True a show False by simp
    qed
    from a r1 have a0: "hash_rxq_add_flow p m (Some i) (q, e) = (0, q1, e1)" by simp
    from hash_rxq_add_flow_ok [OF a0] have
      s: "rules_of q1 = (rules_of q)((m, i) \<mapsto> (qp q, mac_flow_attr p (type q) m (Some i)))"
      by simp
    from mac_only_fields [OF hash_rxq_add_flow_frame [OF a]] have
      qt: "qp q1 = qp q" "type q1 = type q" by simp_all
    from Cons.prems(1) True a r1 have
      "hash_rxq_mac_addr_add_vlans p m vs (n + 1) (q1, e1) = (0, n', q', e')" by simp
    from Cons.IH [OF this] have
      t: "rules_of q' = (\<lambda>(m', v'). if m' = m \<and> v' \<in> set vs \<and> enabled (vlan_filter p ! v')
                                   then Some (qp q1, mac_flow_attr p (type q1) m (Some v'))
                                   else rules_of q1 (m', v'))"
        "n' = n + 1 + length (filter (\<lambda>i. enabled (vlan_filter p ! i)) vs)" by simp_all
    have "rules_of q' = (\<lambda>(m', v'). if m' = m \<and> v' \<in> set (i # vs) \<and> enabled (vlan_filter p ! v')
                                   then Some (qp q, mac_flow_attr p (type q) m (Some v'))
                                   else rules_of q (m', v'))"
      unfolding t(1) s qt using True by (auto simp: fun_eq_iff)
    with t(2) True show ?thesis by simp
  qed
qed

lemma no_vlan_not_enabled:
  "no_vlan p \<Longrightarrow> v < length (vlan_filter p) \<Longrightarrow> \<not> enabled (vlan_filter p ! v)"
  by (simp add: no_vlan_def list_all_length)

lemma hash_rxq_mac_addr_add_ok:
  assumes "hash_rxq_mac_addr_add p m (q, e) = (0, q', e')" and "flows_marked p 0 q"
  shows "\<forall>v. rules_of q' (m, v) = new_rule p m q v"
proof -
  obtain q0 e0 where
    s1: "(if m \<in> rxq_mac_configured q then hash_rxq_mac_addr_del p m (q, e) else (q, e)) = (q0, e0)"
    by (cases "if m \<in> rxq_mac_configured q then hash_rxq_mac_addr_del p m (q, e) else (q, e)")
  have row0: "\<forall>v. mac_flow q0 (m, v) = None"
  proof (cases "m \<in> rxq_mac_configured q")
    case True
    with s1 hash_rxq_mac_addr_del_marked0 [of p m q e q0 e0] assms(2) show ?thesis by simp
  next
    case False
    with s1 have "q0 = q" by simp
    moreover have "\<forall>v. mac_flow q (m, v) = None"
    proof (intro allI, rule ccontr)
      fix v assume "mac_flow q (m, v) \<noteq> None"
      with assms(2) have "m \<in> rxq_mac_configured q" unfolding flows_marked_def by blast
      with False show False by simp
    qed
    ultimately show ?thesis by simp
  qed
  then have r0: "\<forall>v. rules_of q0 (m, v) = None" by (simp add: rules_of_def)
  have mo0: "mac_only q q0"
    using s1 hash_rxq_mac_addr_del_frame [of p m q e q0 e0] by (auto split: if_splits)
  from mac_only_fields [OF mo0] have qt0: "qp q0 = qp q" "type q0 = type q" by simp_all
  obtain r1 n1 q1 e1 where
    v: "hash_rxq_mac_addr_add_vlans p m [0..<length (vlan_filter p)] 0 (q0, e0) = (r1, n1, q1, e1)"
    by (cases "hash_rxq_mac_addr_add_vlans p m [0..<length (vlan_filter p)] 0 (q0, e0)") auto
  have r1: "r1 = 0"
  proof (rule ccontr)
    assume "r1 \<noteq> 0"
    with assms(1) s1 v show False by (simp add: hash_rxq_mac_addr_add_def Let_def)
  qed
  from v r1 have v0:
    "hash_rxq_mac_addr_add_vlans p m [0..<length (vlan_filter p)] 0 (q0, e0) = (0, n1, q1, e1)"
    by simp
  from hash_rxq_mac_addr_add_vlans_ok [OF v0] have
    s: "rules_of q1 = (\<lambda>(m', v'). if m' = m \<and> v' \<in> set [0..<length (vlan_filter p)]
                                      \<and> enabled (vlan_filter p ! v')
                                   then Some (qp q0, mac_flow_attr p (type q0) m (Some v'))
                                   else rules_of q0 (m', v'))"
      "n1 = length (filter (\<lambda>i. enabled (vlan_filter p ! i)) [0..<length (vlan_filter p)])"
    by simp_all
  from mac_only_fields [OF hash_rxq_mac_addr_add_vlans_frame [OF v]] qt0 have
    qt1: "qp q1 = qp q" "type q1 = type q" by simp_all
  from s(2) no_vlan_count [of p] have n1: "n1 = 0 \<longleftrightarrow> no_vlan p" by simp
  from assms(1) s1 v r1 have
    rest: "(case (if n1 = 0 then hash_rxq_add_flow p m None (q1, e1) else (0, q1, e1)) of
             (ret', hash_rxq, e) \<Rightarrow>
               if ret' \<noteq> 0 then (ret', hash_rxq, e)
               else (0, hash_rxq\<lparr>rxq_mac_configured := insert m (rxq_mac_configured hash_rxq)\<rparr>, e))
           = (0, q', e')"
    by (simp add: hash_rxq_mac_addr_add_def Let_def)
  show ?thesis
  proof (cases "no_vlan p")
    case nv: False
    with rest n1 have r: "q' = q1\<lparr>rxq_mac_configured := insert m (rxq_mac_configured q1)\<rparr>" by auto
    have ru: "rules_of q' = rules_of q1" using r by (simp add: rules_of_def)
    show ?thesis
      unfolding ru s(1) qt0 new_rule_def using nv r0 by (simp add: vlan_slot_def)
  next
    case nv: True
    obtain r2 q2 e2 where a: "hash_rxq_add_flow p m None (q1, e1) = (r2, q2, e2)"
      by (cases "hash_rxq_add_flow p m None (q1, e1)")
    have r2: "r2 = 0"
    proof (rule ccontr)
      assume "r2 \<noteq> 0"
      with rest n1 nv a show False by simp
    qed
    from a r2 have a0: "hash_rxq_add_flow p m None (q1, e1) = (0, q2, e2)" by simp
    from rest n1 nv a r2 have
      r: "q' = q2\<lparr>rxq_mac_configured := insert m (rxq_mac_configured q2)\<rparr>" by simp
    have ru: "rules_of q' = rules_of q2" using r by (simp add: rules_of_def)
    from hash_rxq_add_flow_ok [OF a0] have
      s2: "rules_of q2 = (rules_of q1)((m, 0) \<mapsto> (qp q1, mac_flow_attr p (type q1) m None))"
      by simp
    show ?thesis
      unfolding ru s2 s(1) qt0 qt1 new_rule_def
      using nv r0 no_vlan_not_enabled [OF nv] by (auto simp: vlan_slot_def)
  qed
qed

subsection \<open>One queue of the loop, the rollback and the loop\<close>

lemma add_queue_in_step:
  assumes "hash_rxq_mac_addr_add p m (hash_rxqs p ! j, e) = (r, q, e1)"
    and "j < length (hash_rxqs p)" and "m < length (mac p)" and "hw_in_step p e R"
  shows "hw_in_step (p\<lparr>hash_rxqs := (hash_rxqs p)[j := q]\<rparr>) e1 R
     \<and> row_only m (hash_rxqs p ! j) q
     \<and> (r \<noteq> 0 \<longrightarrow> (\<forall>v. mac_flow q (m, v) = None))
     \<and> (r = 0 \<longrightarrow> (\<forall>v. rules_of q (m, v) = new_rule p m q v))"
proof -
  from assms(4,2) have mk: "flows_marked p 0 (hash_rxqs p ! j)" by (simp add: hw_in_step_def)
  then have g: "flows_in_grid p (hash_rxqs p ! j)" by (simp add: flows_marked_iff)
  have 1: "\<And>R'. queue_in_step p (hash_rxqs p ! j) e R' \<Longrightarrow> queue_in_step p q e1 R'"
    using hash_rxq_mac_addr_add_step [OF assms(1,3) mk] by simp
  have "mset (queue_flows p (hash_rxqs p ! j)) \<subseteq># mset (flows e)"
  proof -
    from assms(4) have "mset (flows e) = mset (driver_flows p) + R" by (simp add: hw_in_step_def)
    then show ?thesis unfolding driver_flows_def mset_concat_nth [OF assms(2)] by simp
  qed
  then have "queue_in_step p (hash_rxqs p ! j) e (mset (flows e) - mset (queue_flows p (hash_rxqs p ! j)))"
    using g by (simp add: queue_in_step_def)
  from hash_rxq_mac_addr_add_step [OF assms(1,3) mk this] have
    2: "flows_marked p 0 q"
      "\<forall>m' v'. m' \<noteq> m \<longrightarrow> mac_flow q (m', v') = mac_flow (hash_rxqs p ! j) (m', v')"
      "r \<noteq> 0 \<longrightarrow> (\<forall>v. mac_flow q (m, v) = None)" by simp_all
  from hw_in_step_update [OF assms(2,4) 1 2(1)] have
    h: "hw_in_step (p\<lparr>hash_rxqs := (hash_rxqs p)[j := q]\<rparr>) e1 R" .
  from hash_rxq_mac_addr_add_frame [OF assms(1)] 2(2) have ro: "row_only m (hash_rxqs p ! j) q"
    by (simp add: row_only_def)
  have ok: "r = 0 \<longrightarrow> (\<forall>v. rules_of q (m, v) = new_rule p m q v)"
  proof
    assume "r = 0"
    with assms(1) have "hash_rxq_mac_addr_add p m (hash_rxqs p ! j, e) = (0, q, e1)" by simp
    from hash_rxq_mac_addr_add_ok [OF this mk] row_only_fields [OF ro]
    show "\<forall>v. rules_of q (m, v) = new_rule p m q v" by (simp add: new_rule_def)
  qed
  from h ro 2(3) ok show ?thesis by simp
qed

lemma priv_mac_addr_add_rollback_rows:
  assumes "priv_mac_addr_add_rollback m i (p, e) = (p', e')"
    and "i \<le> length (hash_rxqs p)" and "hw_in_step p e R"
  shows "hw_in_step p' e' R \<and> length (hash_rxqs p') = length (hash_rxqs p)
     \<and> (\<forall>j<i. \<forall>v. mac_flow (hash_rxqs p' ! j) (m, v) = None)
     \<and> (\<forall>j. i \<le> j \<longrightarrow> hash_rxqs p' ! j = hash_rxqs p ! j)
     \<and> (\<forall>j<length (hash_rxqs p). row_only m (hash_rxqs p ! j) (hash_rxqs p' ! j))"
  using assms
proof (induction i arbitrary: p e)
  case 0
  then show ?case by simp
next
  case (Suc i)
  obtain p1 e1 where s: "on_hash_rxq i (\<lambda>p. hash_rxq_mac_addr_del p m) (p, e) = (p1, e1)"
    by (cases "on_hash_rxq i (\<lambda>p. hash_rxq_mac_addr_del p m) (p, e)")
  from Suc.prems(2) have lt: "i < length (hash_rxqs p)" by simp
  from on_hash_rxq_del_row [OF s lt Suc.prems(3)] have
    h: "hw_in_step p1 e1 R" "length (hash_rxqs p1) = length (hash_rxqs p)"
      "\<forall>v. mac_flow (hash_rxqs p1 ! i) (m, v) = None"
      "row_only m (hash_rxqs p ! i) (hash_rxqs p1 ! i)"
      "\<forall>k. k \<noteq> i \<longrightarrow> hash_rxqs p1 ! k = hash_rxqs p ! k" by simp_all
  from Suc.prems(1) s have "priv_mac_addr_add_rollback m i (p1, e1) = (p', e')" by simp
  from Suc.IH [OF this _ h(1)] h(2) lt have
    IH: "hw_in_step p' e' R" "length (hash_rxqs p') = length (hash_rxqs p)"
      "\<forall>j<i. \<forall>v. mac_flow (hash_rxqs p' ! j) (m, v) = None"
      "\<forall>j. i \<le> j \<longrightarrow> hash_rxqs p' ! j = hash_rxqs p1 ! j"
      "\<forall>j<length (hash_rxqs p). row_only m (hash_rxqs p1 ! j) (hash_rxqs p' ! j)" by simp_all
  have A: "\<forall>j<Suc i. \<forall>v. mac_flow (hash_rxqs p' ! j) (m, v) = None"
  proof (intro allI impI)
    fix j v assume j: "j < Suc i"
    show "mac_flow (hash_rxqs p' ! j) (m, v) = None"
    proof (cases "j = i")
      case True
      from IH(4) h(3) show ?thesis unfolding True by simp
    next
      case False
      with j IH(3) show ?thesis by simp
    qed
  qed
  have B: "\<forall>j. Suc i \<le> j \<longrightarrow> hash_rxqs p' ! j = hash_rxqs p ! j" using IH(4) h(5) by simp
  have C: "\<forall>j<length (hash_rxqs p). row_only m (hash_rxqs p ! j) (hash_rxqs p' ! j)"
  proof (intro allI impI)
    fix j assume j: "j < length (hash_rxqs p)"
    from IH(5) j have 1: "row_only m (hash_rxqs p1 ! j) (hash_rxqs p' ! j)" by simp
    have 2: "row_only m (hash_rxqs p ! j) (hash_rxqs p1 ! j)"
      using h(4,5) by (cases "j = i") simp_all
    from row_only_trans [OF 2 1] show "row_only m (hash_rxqs p ! j) (hash_rxqs p' ! j)" .
  qed
  from IH(1,2) A B C show ?case by simp
qed

lemma new_rule_cong:
  "mac p' = mac p \<Longrightarrow> vlan_filter p' = vlan_filter p \<Longrightarrow> port p' = port p \<Longrightarrow>
     qp q' = qp q \<Longrightarrow> type q' = type q \<Longrightarrow> new_rule p' m q' = new_rule p m q"
  by (simp add: new_rule_def fun_eq_iff mac_flow_attr_cong [of p' p] vlan_slot_cong [of p' p]
        no_vlan_cong [of p' p])

lemma priv_mac_addr_add_loop_rows:
  assumes "priv_mac_addr_add_loop m [j0..<n] (p, e) = (ret, p', e')"
    and "n = length (hash_rxqs p)" and "m < length (mac p)" and "hw_in_step p e R"
  shows "hw_in_step p' e' R \<and> length (hash_rxqs p') = n
     \<and> (\<forall>j<n. row_only m (hash_rxqs p ! j) (hash_rxqs p' ! j))
     \<and> (ret = 0 \<longrightarrow>
          (\<forall>j. j0 \<le> j \<and> j < n \<longrightarrow>
             (\<forall>v. rules_of (hash_rxqs p' ! j) (m, v) = new_rule p m (hash_rxqs p' ! j) v))
          \<and> (\<forall>j<j0. hash_rxqs p' ! j = hash_rxqs p ! j))
     \<and> (ret \<noteq> 0 \<longrightarrow>
          (\<forall>j<n. (\<forall>v. mac_flow (hash_rxqs p' ! j) (m, v) = None)
                   \<or> j0 \<le> j \<and> hash_rxqs p' ! j = hash_rxqs p ! j))"
  using assms
proof (induction "n - j0" arbitrary: j0 p e)
  case 0
  then have emp: "[j0..<n] = []" by simp
  from "0.prems"(1) have "ret = 0" "p' = p" "e' = e" unfolding emp by simp_all
  with "0.prems"(2,4) "0.hyps" show ?case by auto
next
  case (Suc d)
  have lt: "j0 < n" using Suc.hyps(2) by simp
  then have upt: "[j0..<n] = j0 # [Suc j0..<n]" by (simp add: upt_conv_Cons)
  from lt Suc.prems(2) have lt': "j0 < length (hash_rxqs p)" by simp
  obtain r q e1 where a: "hash_rxq_mac_addr_add p m (hash_rxqs p ! j0, e) = (r, q, e1)"
    by (cases "hash_rxq_mac_addr_add p m (hash_rxqs p ! j0, e)")
  define p1 where "p1 = p\<lparr>hash_rxqs := (hash_rxqs p)[j0 := q]\<rparr>"
  from add_queue_in_step [OF a lt' Suc.prems(3,4)] have
    s: "hw_in_step p1 e1 R" "row_only m (hash_rxqs p ! j0) q"
      "r \<noteq> 0 \<longrightarrow> (\<forall>v. mac_flow q (m, v) = None)"
      "r = 0 \<longrightarrow> (\<forall>v. rules_of q (m, v) = new_rule p m q v)"
    by (simp_all add: p1_def)
  have h1: "length (hash_rxqs p1) = n" "hash_rxqs p1 ! j0 = q"
    "\<forall>k. k \<noteq> j0 \<longrightarrow> hash_rxqs p1 ! k = hash_rxqs p ! k"
    "mac p1 = mac p" "vlan_filter p1 = vlan_filter p" "port p1 = port p"
    using lt Suc.prems(2) by (simp_all add: p1_def)
  have step: "\<forall>j<n. row_only m (hash_rxqs p ! j) (hash_rxqs p1 ! j)"
  proof (intro allI impI)
    fix j assume "j < n"
    show "row_only m (hash_rxqs p ! j) (hash_rxqs p1 ! j)"
      using h1(2,3) s(2) by (cases "j = j0") simp_all
  qed
  show ?case
  proof (cases "r = 0")
    case True
    from Suc.prems(1) a True have
      rec: "priv_mac_addr_add_loop m [Suc j0..<n] (p1, e1) = (ret, p', e')"
      unfolding upt by (simp add: p1_def)
    have dd: "d = n - Suc j0" using Suc.hyps(2) by simp
    from Suc.hyps(1) [OF dd rec _ _ s(1)] h1(1,4) Suc.prems(3) have
      IH: "hw_in_step p' e' R" "length (hash_rxqs p') = n"
        "\<forall>j<n. row_only m (hash_rxqs p1 ! j) (hash_rxqs p' ! j)"
        "ret = 0 \<longrightarrow>
          (\<forall>j. Suc j0 \<le> j \<and> j < n \<longrightarrow>
             (\<forall>v. rules_of (hash_rxqs p' ! j) (m, v) = new_rule p1 m (hash_rxqs p' ! j) v))
          \<and> (\<forall>j<Suc j0. hash_rxqs p' ! j = hash_rxqs p1 ! j)"
        "ret \<noteq> 0 \<longrightarrow>
          (\<forall>j<n. (\<forall>v. mac_flow (hash_rxqs p' ! j) (m, v) = None)
                   \<or> Suc j0 \<le> j \<and> hash_rxqs p' ! j = hash_rxqs p1 ! j)"
      by simp_all
    have nr: "\<And>q'. new_rule p1 m q' = new_rule p m q'"
      by (rule new_rule_cong [OF h1(4,5,6) refl refl])
    have C: "\<forall>j<n. row_only m (hash_rxqs p ! j) (hash_rxqs p' ! j)"
    proof (intro allI impI)
      fix j assume j: "j < n"
      from step j have 2: "row_only m (hash_rxqs p ! j) (hash_rxqs p1 ! j)" by simp
      from IH(3) j have 1: "row_only m (hash_rxqs p1 ! j) (hash_rxqs p' ! j)" by simp
      from row_only_trans [OF 2 1] show "row_only m (hash_rxqs p ! j) (hash_rxqs p' ! j)" .
    qed
    have A: "ret = 0 \<longrightarrow>
          (\<forall>j. j0 \<le> j \<and> j < n \<longrightarrow>
             (\<forall>v. rules_of (hash_rxqs p' ! j) (m, v) = new_rule p m (hash_rxqs p' ! j) v))
          \<and> (\<forall>j<j0. hash_rxqs p' ! j = hash_rxqs p ! j)"
    proof (intro impI conjI allI)
      fix j v assume r0: "ret = 0" and j: "j0 \<le> j \<and> j < n"
      show "rules_of (hash_rxqs p' ! j) (m, v) = new_rule p m (hash_rxqs p' ! j) v"
      proof (cases "j = j0")
        case jj: True
        from IH(4) r0 h1(2) have "hash_rxqs p' ! j0 = q" by simp
        with s(4) True show ?thesis unfolding jj by simp
      next
        case False
        with j have "Suc j0 \<le> j \<and> j < n" by simp
        with IH(4) r0 nr show ?thesis by simp
      qed
    next
      fix j assume r0: "ret = 0" and j: "j < j0"
      with IH(4) h1(3) show "hash_rxqs p' ! j = hash_rxqs p ! j" by simp
    qed
    have B: "ret \<noteq> 0 \<longrightarrow>
          (\<forall>j<n. (\<forall>v. mac_flow (hash_rxqs p' ! j) (m, v) = None)
                   \<or> j0 \<le> j \<and> hash_rxqs p' ! j = hash_rxqs p ! j)"
    proof (intro impI allI)
      fix j assume rn: "ret \<noteq> 0" and j: "j < n"
      from IH(5) rn j have
        "(\<forall>v. mac_flow (hash_rxqs p' ! j) (m, v) = None)
           \<or> Suc j0 \<le> j \<and> hash_rxqs p' ! j = hash_rxqs p1 ! j" by simp
      then show "(\<forall>v. mac_flow (hash_rxqs p' ! j) (m, v) = None)
                   \<or> j0 \<le> j \<and> hash_rxqs p' ! j = hash_rxqs p ! j"
      proof
        assume "\<forall>v. mac_flow (hash_rxqs p' ! j) (m, v) = None"
        then show ?thesis by simp
      next
        assume x: "Suc j0 \<le> j \<and> hash_rxqs p' ! j = hash_rxqs p1 ! j"
        then have "j \<noteq> j0" by simp
        with h1(3) x show ?thesis by simp
      qed
    qed
    from IH(1,2) A B C show ?thesis by simp
  next
    case False
    with Suc.prems(1) a have rb: "priv_mac_addr_add_rollback m j0 (p1, e1) = (p', e')"
      and rr: "ret = r" unfolding upt by (simp_all add: p1_def)
    from priv_mac_addr_add_rollback_rows [OF rb _ s(1)] h1(1) lt have
      b: "hw_in_step p' e' R" "length (hash_rxqs p') = n"
        "\<forall>j<j0. \<forall>v. mac_flow (hash_rxqs p' ! j) (m, v) = None"
        "\<forall>j. j0 \<le> j \<longrightarrow> hash_rxqs p' ! j = hash_rxqs p1 ! j"
        "\<forall>j<n. row_only m (hash_rxqs p1 ! j) (hash_rxqs p' ! j)" by simp_all
    have C: "\<forall>j<n. row_only m (hash_rxqs p ! j) (hash_rxqs p' ! j)"
    proof (intro allI impI)
      fix j assume j: "j < n"
      from step j have 2: "row_only m (hash_rxqs p ! j) (hash_rxqs p1 ! j)" by simp
      from b(5) j have 1: "row_only m (hash_rxqs p1 ! j) (hash_rxqs p' ! j)" by simp
      from row_only_trans [OF 2 1] show "row_only m (hash_rxqs p ! j) (hash_rxqs p' ! j)" .
    qed
    have B: "\<forall>j<n. (\<forall>v. mac_flow (hash_rxqs p' ! j) (m, v) = None)
                   \<or> j0 \<le> j \<and> hash_rxqs p' ! j = hash_rxqs p ! j"
    proof (intro allI impI)
      fix j assume j: "j < n"
      consider "j < j0" | "j = j0" | "j0 < j" by linarith
      then show "(\<forall>v. mac_flow (hash_rxqs p' ! j) (m, v) = None)
                   \<or> j0 \<le> j \<and> hash_rxqs p' ! j = hash_rxqs p ! j"
      proof cases
        case 1
        with b(3) show ?thesis by simp
      next
        case 2
        from b(4) h1(2) have "hash_rxqs p' ! j0 = q" by simp
        with s(3) False show ?thesis unfolding 2 by simp
      next
        case 3
        with b(4) h1(3) show ?thesis by simp
      qed
    qed
    from b(1,2) B C False rr show ?thesis by simp
  qed
qed

subsection \<open>The whole call\<close>

lemma hash_rxqs_only_port: "hash_rxqs_only p p' \<Longrightarrow> port p' = port p"
  by (cases p; cases p') (simp add: hash_rxqs_only_def)

lemma priv_mac_addr_del_fields:
  assumes "priv_mac_addr_del i (p, e) = (p', e')"
  shows "p' = p\<lparr>mac_configured := mac_configured p', hash_rxqs := hash_rxqs p'\<rparr>"
proof (cases "i \<in> mac_configured p")
  case False
  with assms show ?thesis by (simp add: priv_mac_addr_del_def)
next
  case True
  obtain p1 e1 where f: "fold (\<lambda>i'. on_hash_rxq i' (\<lambda>p. hash_rxq_mac_addr_del p i))
                  [0..<length (hash_rxqs p)] (p, e) = (p1, e1)"
    by (cases "fold (\<lambda>i'. on_hash_rxq i' (\<lambda>p. hash_rxq_mac_addr_del p i))
                  [0..<length (hash_rxqs p)] (p, e)")
  from fold_on_hash_rxq_only [OF f] have o: "p1 = p\<lparr>hash_rxqs := hash_rxqs p1\<rparr>"
    by (simp add: hash_rxqs_only_def)
  from assms True f have "p' = p1\<lparr>mac_configured := mac_configured p1 - {i}\<rparr>"
    unfolding priv_mac_addr_del_def prod.case by simp
  with o show ?thesis by (cases p; cases p1; cases p') simp
qed

lemma priv_mac_addr_add_fields:
  assumes "priv_mac_addr_add i a (p, e) = (ret, p', e')"
  shows "p' = p\<lparr>mac := mac p', mac_configured := mac_configured p', hash_rxqs := hash_rxqs p'\<rparr>"
proof (cases "configured_elsewhere p i a")
  case True
  with assms show ?thesis by (simp add: priv_mac_addr_add_def configured_elsewhere_list_ex)
next
  case ne: False
  obtain p1 e1 where d: "(if i \<in> mac_configured p then priv_mac_addr_del i (p, e) else (p, e)) = (p1, e1)"
    by (cases "(if i \<in> mac_configured p then priv_mac_addr_del i (p, e) else (p, e))")
  have p1: "p1 = p\<lparr>mac_configured := mac_configured p1, hash_rxqs := hash_rxqs p1\<rparr>"
    using d priv_mac_addr_del_fields [of i p e p1 e1] by (auto split: if_splits)
  define p2 where "p2 = p1\<lparr>mac := (mac p1)[i := a]\<rparr>"
  have p2: "p2 = p\<lparr>mac := mac p2, mac_configured := mac_configured p2, hash_rxqs := hash_rxqs p2\<rparr>"
    using p1 unfolding p2_def by (cases p; cases p1) simp
  note u = priv_mac_addr_add_unfold [OF ne d p2_def]
  show ?thesis
  proof (cases "started p2")
    case False
    with assms u have "p' = p2\<lparr>mac_configured := insert i (mac_configured p2)\<rparr>" by simp
    with p2 show ?thesis by (cases p; cases p2; cases p') simp
  next
    case True
    obtain r p3 e3 where l: "priv_mac_addr_add_loop i [0..<length (hash_rxqs p2)] (p2, e1) = (r, p3, e3)"
      by (cases "priv_mac_addr_add_loop i [0..<length (hash_rxqs p2)] (p2, e1)")
    from priv_mac_addr_add_loop_only [OF l] have "p3 = p2\<lparr>hash_rxqs := hash_rxqs p3\<rparr>"
      by (simp add: hash_rxqs_only_def)
    with p2 have p3: "p3 = p\<lparr>mac := mac p3, mac_configured := mac_configured p3, hash_rxqs := hash_rxqs p3\<rparr>"
      by (cases p; cases p2; cases p3) simp
    from assms u True l have
      "p' = (if r \<noteq> 0 then p3 else p3\<lparr>mac_configured := insert i (mac_configured p3)\<rparr>)"
      by (simp split: if_splits)
    with p3 show ?thesis by (cases p; cases p3; cases p') (simp split: if_splits)
  qed
qed

lemma priv_mac_addr_add_hw:
  assumes "priv_mac_addr_add i a (p, e) = (ret, p', e')" and "\<not> configured_elsewhere p i a"
    and "i < length (mac p)" and "hw_in_step p e R"
  shows "hw_in_step p' e' R \<and> length (hash_rxqs p') = length (hash_rxqs p)
     \<and> (\<forall>j<length (hash_rxqs p).
           row_only i (hash_rxqs p ! j) (hash_rxqs p' ! j)
           \<and> (if started p \<and> ret = 0
               then \<forall>v. rules_of (hash_rxqs p' ! j) (i, v) = mac_rule p' (hash_rxqs p' ! j) (i, v)
               else (\<forall>v. mac_flow (hash_rxqs p' ! j) (i, v) = None)
                    \<or> i \<notin> mac_configured p \<and> hash_rxqs p' ! j = hash_rxqs p ! j))"
proof -
  let ?n = "length (hash_rxqs p)"
  obtain p1 e1 where d: "(if i \<in> mac_configured p then priv_mac_addr_del i (p, e) else (p, e)) = (p1, e1)"
    by (cases "(if i \<in> mac_configured p then priv_mac_addr_del i (p, e) else (p, e))")
  have p1: "hw_in_step p1 e1 R" "length (hash_rxqs p1) = ?n"
    "\<forall>j<?n. row_only i (hash_rxqs p ! j) (hash_rxqs p1 ! j)"
    "\<forall>j<?n. (\<forall>v. mac_flow (hash_rxqs p1 ! j) (i, v) = None)
               \<or> i \<notin> mac_configured p \<and> hash_rxqs p1 ! j = hash_rxqs p ! j"
    "mac p1 = mac p" "started p1 = started p"
  proof -
    show "hw_in_step p1 e1 R"
      using d assms(4) priv_mac_addr_del_full [of i p e p1 e1 R] by (auto split: if_splits)
    show "length (hash_rxqs p1) = ?n"
      using d assms(4) priv_mac_addr_del_full [of i p e p1 e1 R] by (auto split: if_splits)
    show "\<forall>j<?n. row_only i (hash_rxqs p ! j) (hash_rxqs p1 ! j)"
      using d assms(4) priv_mac_addr_del_full [of i p e p1 e1 R] by (auto split: if_splits)
    show "\<forall>j<?n. (\<forall>v. mac_flow (hash_rxqs p1 ! j) (i, v) = None)
               \<or> i \<notin> mac_configured p \<and> hash_rxqs p1 ! j = hash_rxqs p ! j"
      using d assms(4) priv_mac_addr_del_full [of i p e p1 e1 R] by (auto split: if_splits)
    show "mac p1 = mac p"
      using d priv_mac_addr_del_shadow [of i p e p1 e1] by (auto split: if_splits)
    show "started p1 = started p"
      using d priv_mac_addr_del_shadow [of i p e p1 e1] by (auto split: if_splits)
  qed
  define p2 where "p2 = p1\<lparr>mac := (mac p1)[i := a]\<rparr>"
  have p2: "hash_rxqs p2 = hash_rxqs p1" "started p2 = started p" "length (mac p2) = length (mac p)"
    "vlan_filter p2 = vlan_filter p1" "port p2 = port p1" "mac p2 = (mac p)[i := a]"
    using p1(5,6) by (simp_all add: p2_def)
  have hw2: "hw_in_step p2 e1 R"
    using p1(1) hw_in_step_cong_len [of p2 p1 e1 R] p2 p1(5) by simp
  note u = priv_mac_addr_add_unfold [OF assms(2) d p2_def]
  show ?thesis
  proof (cases "started p")
    case False
    with assms(1) u p2 have r: "ret = 0" "p' = p2\<lparr>mac_configured := insert i (mac_configured p2)\<rparr>"
      "e' = e1" by simp_all
    have "hw_in_step p' e' R"
      using hw2 hw_in_step_cong_len [of p' p2 e1 R] by (simp add: r)
    with p1(2,3,4) p2(1) False show ?thesis by (simp add: r)
  next
    case True
    obtain r p3 e3 where l: "priv_mac_addr_add_loop i [0..<length (hash_rxqs p2)] (p2, e1) = (r, p3, e3)"
      by (cases "priv_mac_addr_add_loop i [0..<length (hash_rxqs p2)] (p2, e1)")
    from assms(3) p2(3) have lt2: "i < length (mac p2)" by simp
    from priv_mac_addr_add_loop_rows [OF l refl lt2 hw2] p2(1) p1(2) have
      s: "hw_in_step p3 e3 R" "length (hash_rxqs p3) = ?n"
        "\<forall>j<?n. row_only i (hash_rxqs p1 ! j) (hash_rxqs p3 ! j)"
        "r = 0 \<longrightarrow> (\<forall>j<?n. \<forall>v. rules_of (hash_rxqs p3 ! j) (i, v) = new_rule p2 i (hash_rxqs p3 ! j) v)"
        "r \<noteq> 0 \<longrightarrow> (\<forall>j<?n. (\<forall>v. mac_flow (hash_rxqs p3 ! j) (i, v) = None)
                               \<or> hash_rxqs p3 ! j = hash_rxqs p1 ! j)"
      by simp_all
    from priv_mac_addr_add_loop_only [OF l] have o3: "hash_rxqs_only p2 p3" .
    note f3 = hash_rxqs_only_fields [OF o3] hash_rxqs_only_port [OF o3]
    from assms(1) u True p2(2) l have
      r: "ret = r" "e' = e3"
        "p' = (if r \<noteq> 0 then p3 else p3\<lparr>mac_configured := insert i (mac_configured p3)\<rparr>)"
      by (simp_all split: if_splits)
    have hw': "hw_in_step p' e' R"
      using s(1) hw_in_step_cong_len [of p' p3 e3 R] by (simp add: r)
    have len: "length (hash_rxqs p') = ?n" using s(2) by (simp add: r)
    have q': "hash_rxqs p' = hash_rxqs p3" by (simp add: r)
    have ro: "\<forall>j<?n. row_only i (hash_rxqs p ! j) (hash_rxqs p' ! j)"
    proof (intro allI impI)
      fix j assume j: "j < ?n"
      from p1(3) j have 1: "row_only i (hash_rxqs p ! j) (hash_rxqs p1 ! j)" by simp
      from s(3) j have 2: "row_only i (hash_rxqs p1 ! j) (hash_rxqs p3 ! j)" by simp
      from row_only_trans [OF 1 2] show "row_only i (hash_rxqs p ! j) (hash_rxqs p' ! j)"
        unfolding q' .
    qed
    show ?thesis
    proof (cases "r = 0")
      case r0: True
      have mr: "\<And>q v. mac_rule p' q (i, v) = new_rule p2 i q v"
      proof -
        fix q v
        have pe: "mac p' = mac p2" "vlan_filter p' = vlan_filter p2" "port p' = port p2"
          "i \<in> mac_configured p'"
          using f3 r0 by (simp_all add: r)
        have c: "mac_flow_attr p' = mac_flow_attr p2" "vlan_slot p' = vlan_slot p2"
          "no_vlan p' = no_vlan p2"
          by (rule mac_flow_attr_cong [OF pe(1,2,3)], rule vlan_slot_cong [OF pe(2)],
              rule no_vlan_cong [OF pe(2)])
        have "i < length (mac p')" "i \<in> mac_configured p'"
          using pe lt2 by simp_all
        then show "mac_rule p' q (i, v) = new_rule p2 i q v"
          by (simp add: mac_rule_def new_rule_def c)
      qed
      from s(4) r0 have "\<forall>j<?n. \<forall>v. rules_of (hash_rxqs p' ! j) (i, v)
                              = mac_rule p' (hash_rxqs p' ! j) (i, v)"
        unfolding q' mr by simp
      with hw' len ro True r0 r(1) show ?thesis by simp
    next
      case rn: False
      have "\<forall>j<?n. (\<forall>v. mac_flow (hash_rxqs p' ! j) (i, v) = None)
                    \<or> i \<notin> mac_configured p \<and> hash_rxqs p' ! j = hash_rxqs p ! j"
      proof (intro allI impI)
        fix j assume j: "j < ?n"
        from s(5) rn j have x: "(\<forall>v. mac_flow (hash_rxqs p3 ! j) (i, v) = None)
                               \<or> hash_rxqs p3 ! j = hash_rxqs p1 ! j" by simp
        from p1(4) j have y: "(\<forall>v. mac_flow (hash_rxqs p1 ! j) (i, v) = None)
               \<or> i \<notin> mac_configured p \<and> hash_rxqs p1 ! j = hash_rxqs p ! j" by simp
        from x y show "(\<forall>v. mac_flow (hash_rxqs p' ! j) (i, v) = None)
                    \<or> i \<notin> mac_configured p \<and> hash_rxqs p' ! j = hash_rxqs p ! j"
          unfolding q' by auto
      qed
      with hw' len ro rn r(1) show ?thesis by simp
    qed
  qed
qed

subsection \<open>The address conflict\<close>

text \<open>
  Claim C3: when a configured slot other than \<open>i\<close> holds the address \<open>a\<close>,
  \<open>priv_mac_addr_add()\<close> returns \<open>EADDRINUSE\<close> (the address conflict) and changes
  nothing. Slot \<open>i\<close> itself never triggers the conflict: when no other configured slot
  holds \<open>a\<close>, whatever slot \<open>i\<close> held before, the scan lets the call through. The entry
  at \<open>i\<close> is replaced by \<open>a\<close> and the status is that of the requests for flows: 0 when
  the hardware granted them all (always so when it refuses nothing, and on a device that
  is not started), with slot \<open>i\<close> configured; otherwise the \<open>errno\<close> of the refusal, on a
  started device, with slot \<open>i\<close> left unconfigured by the implicit removal. Nothing but
  the table of addresses, its bit-field and the hash RX queues changes. When the device
  holds the flows the queues point to, next to flows \<open>R\<close>, it still does afterwards, and on
  every queue only the flows of slot \<open>i\<close> change: on a started device and on success they
  are the rules for the new address, one for each VLAN in use; otherwise the queue has no
  flow left for slot \<open>i\<close> (the implicit removal took the old ones away), or slot \<open>i\<close> was
  not configured and the queue is as it was.
\<close>

theorem priv_mac_addr_add_conflict:
  "(configured_elsewhere priv i a \<longrightarrow> priv_mac_addr_add i a (priv, e) = (EADDRINUSE, priv, e)) \<and>
   (\<not> configured_elsewhere priv i a \<and> i < length (mac priv) \<longrightarrow>
      (case priv_mac_addr_add i a (priv, e) of (ret, priv', e') \<Rightarrow>
         mac priv' = (mac priv)[i := a] \<and> mac priv' ! i = a \<and>
         request_status e e' ret \<and>
         (set (outcomes e) \<subseteq> {Granted} \<longrightarrow> ret = 0) \<and>
         (\<not> started priv \<longrightarrow> ret = 0) \<and>
         (if ret = 0 then mac_configured priv' = insert i (mac_configured priv)
          else mac_configured priv' = mac_configured priv - {i}) \<and>
         priv' = priv\<lparr>mac := mac priv', mac_configured := mac_configured priv',
                       hash_rxqs := hash_rxqs priv'\<rparr> \<and>
         (hw_in_step priv e R \<longrightarrow>
            hw_in_step priv' e' R \<and> length (hash_rxqs priv') = length (hash_rxqs priv) \<and>
            (\<forall>j<length (hash_rxqs priv).
               row_only i (hash_rxqs priv ! j) (hash_rxqs priv' ! j) \<and>
               (if started priv \<and> ret = 0
                then \<forall>v. rules_of (hash_rxqs priv' ! j) (i, v)
                           = mac_rule priv' (hash_rxqs priv' ! j) (i, v)
                else (\<forall>v. mac_flow (hash_rxqs priv' ! j) (i, v) = None)
                     \<or> i \<notin> mac_configured priv
                        \<and> hash_rxqs priv' ! j = hash_rxqs priv ! j)))))"
proof (intro conjI impI)
  assume "configured_elsewhere priv i a"
  then show "priv_mac_addr_add i a (priv, e) = (EADDRINUSE, priv, e)"
    by (simp add: priv_mac_addr_add_def configured_elsewhere_list_ex)
next
  assume h: "\<not> configured_elsewhere priv i a \<and> i < length (mac priv)"
  obtain ret p' e' where a: "priv_mac_addr_add i a (priv, e) = (ret, p', e')"
    by (cases "priv_mac_addr_add i a (priv, e)")
  from h have ne: "\<not> configured_elsewhere priv i a" and lt: "i < length (mac priv)" by simp_all
  note sh = priv_mac_addr_add_shadow [OF a ne]
  note st = priv_mac_addr_add_status [OF a ne]
  note fl = priv_mac_addr_add_fields [OF a]
  have g: "set (outcomes e) \<subseteq> {Granted} \<longrightarrow> ret = 0"
  proof (rule impI, rule ccontr)
    assume gr: "set (outcomes e) \<subseteq> {Granted}" and "ret \<noteq> 0"
    with st obtain x where "refused_first e e' x" by (auto simp: request_status_def)
    then have "Refused x \<in> set (outcomes e)" by (auto simp: refused_first_def)
    with gr show False by auto
  qed
  have hw: "hw_in_step priv e R \<longrightarrow>
            hw_in_step p' e' R \<and> length (hash_rxqs p') = length (hash_rxqs priv) \<and>
            (\<forall>j<length (hash_rxqs priv).
               row_only i (hash_rxqs priv ! j) (hash_rxqs p' ! j) \<and>
               (if started priv \<and> ret = 0
                then \<forall>v. rules_of (hash_rxqs p' ! j) (i, v)
                           = mac_rule p' (hash_rxqs p' ! j) (i, v)
                else (\<forall>v. mac_flow (hash_rxqs p' ! j) (i, v) = None)
                     \<or> i \<notin> mac_configured priv
                        \<and> hash_rxqs p' ! j = hash_rxqs priv ! j))"
    using priv_mac_addr_add_hw [OF a ne lt] by blast
  have sh1: "mac p' = (mac priv)[i := a]" "mac p' ! i = a"
    "if ret = 0 then mac_configured p' = insert i (mac_configured priv)
     else mac_configured p' = mac_configured priv - {i}"
    using sh lt by simp_all
  have st1: "request_status e e' ret" "\<not> started priv \<longrightarrow> ret = 0" using st by auto
  show "case priv_mac_addr_add i a (priv, e) of (ret, priv', e') \<Rightarrow>
         mac priv' = (mac priv)[i := a] \<and> mac priv' ! i = a \<and>
         request_status e e' ret \<and>
         (set (outcomes e) \<subseteq> {Granted} \<longrightarrow> ret = 0) \<and>
         (\<not> started priv \<longrightarrow> ret = 0) \<and>
         (if ret = 0 then mac_configured priv' = insert i (mac_configured priv)
          else mac_configured priv' = mac_configured priv - {i}) \<and>
         priv' = priv\<lparr>mac := mac priv', mac_configured := mac_configured priv',
                       hash_rxqs := hash_rxqs priv'\<rparr> \<and>
         (hw_in_step priv e R \<longrightarrow>
            hw_in_step priv' e' R \<and> length (hash_rxqs priv') = length (hash_rxqs priv) \<and>
            (\<forall>j<length (hash_rxqs priv).
               row_only i (hash_rxqs priv ! j) (hash_rxqs priv' ! j) \<and>
               (if started priv \<and> ret = 0
                then \<forall>v. rules_of (hash_rxqs priv' ! j) (i, v)
                           = mac_rule priv' (hash_rxqs priv' ! j) (i, v)
                else (\<forall>v. mac_flow (hash_rxqs priv' ! j) (i, v) = None)
                     \<or> i \<notin> mac_configured priv
                        \<and> hash_rxqs priv' ! j = hash_rxqs priv ! j)))"
    unfolding a prod.case
    by (intro conjI) (fact sh1(1), fact sh1(2), fact st1(1), fact g, fact st1(2), fact sh1(3),
      fact fl, fact hw)
qed

lemma not_configured_elsewhere_started_0: "\<not> configured_elsewhere priv_started 0 a"
  by (auto simp: configured_elsewhere_def priv_started_def priv_stopped_def)

text \<open>
  Claim C3 on the example devices. On the stopped device, adding \<open>addr_a\<close> at slot 1
  conflicts with slot 0. On the started device, whose queue holds flow 1 for slot 0, adding
  \<open>addr_a\<close> again at slot 0, which holds it, does not. When the hardware grants the
  request the call returns 0, flow 1 is gone and the device holds the new flow 2 of the
  queue, for the rule of slot 0. When the hardware refuses it the call returns its
  \<open>errno\<close> 5, with the slot unconfigured and no flow left in the queue or the device.
\<close>

theorem priv_mac_addr_add_conflict_witness:
  "configured_elsewhere priv_stopped 1 addr_a \<and>
   priv_mac_addr_add 1 addr_a (priv_stopped, env_granting) = (EADDRINUSE, priv_stopped, env_granting) \<and>
   \<not> configured_elsewhere priv_started 0 addr_a \<and> 0 < length (mac priv_started) \<and>
   started priv_started \<and> mac priv_started ! 0 = addr_a \<and> 0 \<in> mac_configured priv_started \<and>
   flows env_one_flow = driver_flows priv_started \<and> map handle (flows env_one_flow) = [1] \<and>
   fst (priv_mac_addr_add 0 addr_a (priv_started, env_one_flow)) = 0 \<and>
   mac (fst (snd (priv_mac_addr_add 0 addr_a (priv_started, env_one_flow)))) = mac priv_started \<and>
   mac_configured (fst (snd (priv_mac_addr_add 0 addr_a (priv_started, env_one_flow))))
     = mac_configured priv_started \<and>
   rules_of (hash_rxqs (fst (snd (priv_mac_addr_add 0 addr_a (priv_started, env_one_flow)))) ! 0)
       (0, 0)
     = Some (Some (qp_on 21), mac_flow_attr priv_started HASH_RXQ_ETH 0 None) \<and>
   mset (flows (snd (snd (priv_mac_addr_add 0 addr_a (priv_started, env_one_flow)))))
     = mset (driver_flows (fst (snd (priv_mac_addr_add 0 addr_a (priv_started, env_one_flow))))) \<and>
   map handle (flows (snd (snd (priv_mac_addr_add 0 addr_a (priv_started, env_one_flow))))) = [2] \<and>
   fst (priv_mac_addr_add 0 addr_a (priv_started, env_one_flow_refusing)) = 5 \<and>
   mac_configured (fst (snd (priv_mac_addr_add 0 addr_a (priv_started, env_one_flow_refusing))))
     = {} \<and>
   mac_flow (hash_rxqs (fst (snd (priv_mac_addr_add 0 addr_a (priv_started, env_one_flow_refusing)))) ! 0)
       (0, 0) = None \<and>
   flows (snd (snd (priv_mac_addr_add 0 addr_a (priv_started, env_one_flow_refusing)))) = []"
proof -
  let ?p = "priv_started"
  let ?r = "priv_mac_addr_add 0 addr_a (?p, env_one_flow)"
  let ?f = "priv_mac_addr_add 0 addr_a (?p, env_one_flow_refusing)"
  have l: "0 < length (mac ?p)" "started ?p"
    "mac ?p = [addr_a, (0, 0, 0, 0, 0, 0)]" "mac_configured ?p = {0}"
    "hash_rxqs ?p = [hash_rxq_a]"
    by (simp_all add: priv_started_def priv_stopped_def)
  have nv: "no_vlan ?p" by (simp add: no_vlan_def priv_started_def priv_stopped_def)
  have qa: "qp hash_rxq_a = Some (qp_on 21)" "type hash_rxq_a = HASH_RXQ_ETH"
    "rxq_mac_configured hash_rxq_a = {0}"
    "mac_flow hash_rxq_a = (\<lambda>_. None)((0, 0) \<mapsto> flow_a)"
    by (simp_all add: hash_rxq_a_def hash_rxq_on_def hash_rxq_zero_def)
  have d: "flows env_one_flow = driver_flows ?p" by code_simp
  have d': "flows env_one_flow_refusing = driver_flows ?p" by code_simp
  have h1: "map handle (flows env_one_flow) = [1]" by code_simp
  have mk: "\<forall>q\<in>set (hash_rxqs ?p). flows_marked ?p 0 q"
    by (auto simp: l flows_marked_def qa vlan_slot_def nv split: if_splits)
  have hw: "hw_in_step ?p env_one_flow {#}" using mk d by (simp add: hw_in_step_def)
  have hw': "hw_in_step ?p env_one_flow_refusing {#}" using mk d' by (simp add: hw_in_step_def)
  have r0: "fst ?r = 0" by code_simp
  have r5: "fst ?f = 5" by code_simp
  have h2: "map handle (flows (snd (snd ?r))) = [2]" by code_simp
  have ty: "qp (hash_rxqs (fst (snd ?r)) ! 0) = Some (qp_on 21)"
    "type (hash_rxqs (fst (snd ?r)) ! 0) = HASH_RXQ_ETH" by code_simp+
  have fe: "flows (snd (snd ?f)) = []" by code_simp
  note ne = not_configured_elsewhere_started_0 [of addr_a]
  note c = priv_mac_addr_add_conflict [where priv = priv_stopped and i = 1 and a = addr_a
      and e = env_granting and R = "{#}"]
  note t = priv_mac_addr_add_conflict [where priv = ?p and i = 0 and a = addr_a
      and e = env_one_flow and R = "{#}"]
  note u = priv_mac_addr_add_conflict [where priv = ?p and i = 0 and a = addr_a
      and e = env_one_flow_refusing and R = "{#}"]
  from c configured_elsewhere_stopped_1 have
    C: "priv_mac_addr_add 1 addr_a (priv_stopped, env_granting) = (EADDRINUSE, priv_stopped, env_granting)"
    by simp
  from t ne l(1,2,5) hw r0 have
    T: "mac (fst (snd ?r)) = (mac ?p)[0 := addr_a]"
      "mac_configured (fst (snd ?r)) = insert 0 (mac_configured ?p)"
      "hw_in_step (fst (snd ?r)) (snd (snd ?r)) {#}"
      "\<forall>v. rules_of (hash_rxqs (fst (snd ?r)) ! 0) (0, v)
             = mac_rule (fst (snd ?r)) (hash_rxqs (fst (snd ?r)) ! 0) (0, v)"
    by (simp_all add: case_prod_beta)
  from u ne l(1,2,4,5) hw' r5 have
    U: "mac_configured (fst (snd ?f)) = mac_configured ?p - {0}"
      "\<forall>v. mac_flow (hash_rxqs (fst (snd ?f)) ! 0) (0, v) = None"
    by (simp_all add: case_prod_beta)
  have T1: "mac (fst (snd ?r)) = mac ?p" using T(1) l(3) by simp
  have T2: "mac_configured (fst (snd ?r)) = mac_configured ?p" using T(2) l(4) by auto
  have fl: "fst (snd ?r) = ?p\<lparr>mac := mac (fst (snd ?r)),
              mac_configured := mac_configured (fst (snd ?r)),
              hash_rxqs := hash_rxqs (fst (snd ?r))\<rparr>"
    using t [THEN conjunct2, rule_format, OF conjI, OF ne l(1), unfolded case_prod_beta]
    by blast
  have vp: "vlan_filter (fst (snd ?r)) = vlan_filter ?p" "port (fst (snd ?r)) = port ?p"
    by (subst fl, simp)+
  have at: "mac_flow_attr (fst (snd ?r)) = mac_flow_attr ?p"
    by (rule mac_flow_attr_cong [OF T1 vp])
  have nv': "no_vlan (fst (snd ?r))"
    using nv no_vlan_cong [OF vp(1)] by simp
  have T4: "rules_of (hash_rxqs (fst (snd ?r)) ! 0) (0, 0)
              = Some (Some (qp_on 21), mac_flow_attr ?p HASH_RXQ_ETH 0 None)"
    using T(4) T1 T2 l(3,4) nv' by (simp add: mac_rule_def ty at vlan_slot_def)
  have T3: "mset (flows (snd (snd ?r))) = mset (driver_flows (fst (snd ?r)))"
    using T(3) by (simp add: hw_in_step_def)
  have U1: "mac_configured (fst (snd ?f)) = {}" using U(1) l(4) by simp
  have U2: "mac_flow (hash_rxqs (fst (snd ?f)) ! 0) (0, 0) = None" using U(2) by simp
  have A: "mac ?p ! 0 = addr_a" "0 \<in> mac_configured ?p" using l(3,4) by simp_all
  show ?thesis
    by (intro conjI) (fact configured_elsewhere_stopped_1, fact C, fact ne, fact l(1), fact l(2),
      fact A(1), fact A(2), fact d, fact h1, fact r0, fact T1, fact T2, fact T4, fact T3, fact h2,
      fact r5, fact U1, fact U2, fact fe)
qed

end
